(* ===== verification/Prelude.thy ===== *)
theory Prelude
  imports Main "HOL-Library.Word"
begin

text \<open>
  Shared vocabulary of the development: the machine integer types, Rust slices and
  \<open>copy_from_slice\<close>, searches (\<open>iter().position\<close>), little- and big-endian byte
  encodings, and the state-and-error monad in which the stateful parts of the kernel are
  written. A release build of the kernel has \<open>overflow-checks = false\<close>, so arithmetic on
  the word types wraps around exactly as \<open>+\<close>, \<open>-\<close> and \<open>*\<close> on \<open>'a word\<close> do.
  Lengths and loop indices of type \<open>usize\<close> that are bounded by the length of an array
  are natural numbers.
\<close>

unbundle bit_operations_syntax

type_synonym u8 = "8 word"
type_synonym u16 = "16 word"
type_synonym u32 = "32 word"
type_synonym u64 = "64 word"
type_synonym bytes = "u8 list"

named_theorems slice_laws "reading and writing parts of byte buffers"
named_theorems monad_laws "unfolding the state-and-error monad"

section \<open>Slices\<close>

text \<open>\<open>slc xs a b\<close> is Rust's \<open>&xs[a..b]\<close> and \<open>blit xs a ys\<close> the buffer after
  \<open>xs[a..a + ys.len()].copy_from_slice(ys)\<close>; both are used within bounds only.\<close>

definition slc :: "'a list \<Rightarrow> nat \<Rightarrow> nat \<Rightarrow> 'a list" where
  "slc xs a b = take (b - a) (drop a xs)"

definition blit :: "'a list \<Rightarrow> nat \<Rightarrow> 'a list \<Rightarrow> 'a list" where
  "blit xs a ys = take a xs @ ys @ drop (a + length ys) xs"

lemma length_slc [simp, slice_laws]:
  "length (slc xs a b) = min (b - a) (length xs - a)"
  by (simp add: slc_def)

lemma nth_slc [simp]: "i < b - a \<Longrightarrow> b \<le> length xs \<Longrightarrow> slc xs a b ! i = xs ! (a + i)"
  by (simp add: slc_def)

lemma slc_all: "slc xs 0 (length xs) = xs"
  by (simp add: slc_def)

lemma slc_0: "slc xs 0 n = take n xs"
  by (simp add: slc_def)

lemma slc_append_left [slice_laws]: "b \<le> length xs \<Longrightarrow> slc (xs @ ys) a b = slc xs a b"
  by (simp add: slc_def)

lemma slc_slc: "d \<le> b - a \<Longrightarrow> slc (slc xs a b) c d = slc xs (a + c) (a + d)"
  by (simp add: slc_def drop_take min_def add.commute [of a])

lemma slc_replicate [slice_laws]: "slc (replicate n x) a b = replicate (min (b - a) (n - a)) x"
  by (simp add: slc_def)

lemma length_blit [simp, slice_laws]:
  "a + length ys \<le> length xs \<Longrightarrow> length (blit xs a ys) = length xs"
  by (simp add: blit_def)

lemma nth_blit:
  "a + length ys \<le> length xs \<Longrightarrow> i < length xs \<Longrightarrow>
   blit xs a ys ! i = (if a \<le> i \<and> i < a + length ys then ys ! (i - a) else xs ! i)"
  by (auto simp: blit_def nth_append min_def)

lemma slc_blit_same [slice_laws]:
  "a + length ys \<le> length xs \<Longrightarrow> b = a + length ys \<Longrightarrow> slc (blit xs a ys) a b = ys"
  by (simp add: slc_def blit_def)

lemma slc_blit_before [slice_laws]:
  "a + length ys \<le> length xs \<Longrightarrow> d \<le> a \<Longrightarrow> slc (blit xs a ys) c d = slc xs c d"
  by (rule nth_equalityI) (auto simp: nth_blit)

lemma slc_blit_after [slice_laws]:
  "a + length ys \<le> length xs \<Longrightarrow> a + length ys \<le> c \<Longrightarrow> d \<le> length xs \<Longrightarrow>
   slc (blit xs a ys) c d = slc xs c d"
  by (rule nth_equalityI) (auto simp: nth_blit)

lemma nth_blit_other [slice_laws]:
  "a + length ys \<le> length xs \<Longrightarrow> i < a \<or> a + length ys \<le> i \<Longrightarrow> i < length xs \<Longrightarrow>
   blit xs a ys ! i = xs ! i"
  by (auto simp: nth_blit)

lemma blit_blit_same: "length ys = length zs \<Longrightarrow> a + length ys \<le> length xs \<Longrightarrow>
   blit (blit xs a ys) a zs = blit xs a zs"
  by (rule nth_equalityI) (auto simp: nth_blit)

lemma blit_slc_id: "a + n \<le> length xs \<Longrightarrow> blit xs a (slc xs a (a + n)) = xs"
  by (rule nth_equalityI) (auto simp: nth_blit)

lemma set_blit_subset: "set (blit xs a ys) \<subseteq> set xs \<union> set ys"
  by (auto simp: blit_def dest: in_set_takeD in_set_dropD)

text \<open>An encoder that fills a zeroed buffer of \<open>n\<close> bytes by a sequence of
  \<open>copy_from_slice\<close> calls at given offsets. \<open>layout_to p ws\<close> is the end of the last write
  when the writes start at or after \<open>p\<close> and each starts at or after the end of the one
  before.\<close>

definition blits :: "nat \<Rightarrow> (nat \<times> bytes) list \<Rightarrow> bytes" where
  "blits n ws = fold (\<lambda>(a, ys) b. blit b a ys) ws (replicate n 0)"

fun layout_to :: "nat \<Rightarrow> (nat \<times> 'a list) list \<Rightarrow> nat option" where
  "layout_to p [] = Some p"
| "layout_to p ((a, ys) # ws) = (if p \<le> a then layout_to (a + length ys) ws else None)"

lemma layout_to_append: "layout_to p (xs @ ys) = Option.bind (layout_to p xs) (\<lambda>q. layout_to q ys)"
  by (induction p xs rule: layout_to.induct) auto

lemma layout_to_mono: "layout_to p ws = Some q \<Longrightarrow> p \<le> q"
  by (induction p ws rule: layout_to.induct) (auto split: if_splits)

lemma layout_to_table:
  "(\<And>i. i < k + m \<Longrightarrow> length (f i) = sz) \<Longrightarrow> p \<le> base + k * sz \<Longrightarrow>
   layout_to p (map (\<lambda>i. (base + i * sz, f i)) [k..<k + m]) =
     Some (if m = 0 then p else base + (k + m) * sz)"
proof (induction m arbitrary: p k)
  case 0
  then show ?case by simp
next
  case (Suc m)
  have "[k..<k + Suc m] = k # [Suc k..<Suc k + m]" by (simp add: upt_conv_Cons)
  then show ?case using Suc.IH [of "Suc k" "base + k * sz + sz"] Suc.prems by (auto simp: algebra_simps)
qed

lemma fold_blits_length:
  "layout_to p ws = Some q \<Longrightarrow> q \<le> length b \<Longrightarrow>
   length (fold (\<lambda>(a, ys) b. blit b a ys) ws b) = length b"
proof (induction p ws arbitrary: b rule: layout_to.induct)
  case (2 p a ys ws)
  then have "layout_to (a + length ys) ws = Some q" by (simp split: if_splits)
  moreover from this have "a + length ys \<le> q" by (rule layout_to_mono)
  ultimately show ?case using 2 by (simp split: if_splits)
qed simp

lemma fold_blits_before:
  "layout_to p ws = Some q \<Longrightarrow> q \<le> length b \<Longrightarrow> d \<le> p \<Longrightarrow>
   slc (fold (\<lambda>(a, ys) b. blit b a ys) ws b) c d = slc b c d"
proof (induction p ws arbitrary: b d rule: layout_to.induct)
  case (2 p a ys ws)
  then have l: "layout_to (a + length ys) ws = Some q" "p \<le> a" by (simp_all split: if_splits)
  moreover from l(1) have "a + length ys \<le> q" by (rule layout_to_mono)
  ultimately show ?case using "2.IH" [OF l(2,1), of "blit b a ys" d] "2.prems"
    by (simp add: slc_blit_before)
qed simp

lemma fold_blits_slc:
  "layout_to p ws = Some q \<Longrightarrow> q \<le> length b \<Longrightarrow> (a, ys) \<in> set ws \<Longrightarrow>
   slc (fold (\<lambda>(a, ys) b. blit b a ys) ws b) a (a + length ys) = ys"
proof (induction p ws arbitrary: b rule: layout_to.induct)
  case (2 p c zs ws)
  then have l: "layout_to (c + length zs) ws = Some q" "p \<le> c" by (simp_all split: if_splits)
  then have q: "c + length zs \<le> q" by (auto dest: layout_to_mono)
  show ?case
  proof (cases "(a, ys) \<in> set ws")
    case True
    then show ?thesis using "2.IH" [OF l(2,1), of "blit b c zs"] "2.prems" q by simp
  next
    case False
    then have "c = a" "zs = ys" using "2.prems" by auto
    then show ?thesis using fold_blits_before [OF l(1), of "blit b c zs" "a + length ys" a] "2.prems" q
      by (simp add: slc_blit_same)
  qed
qed simp

lemma length_blits: "layout_to 0 ws = Some q \<Longrightarrow> q \<le> n \<Longrightarrow> length (blits n ws) = n"
  by (simp add: blits_def fold_blits_length)

lemma slc_blits_mem:
  "layout_to 0 ws = Some q \<Longrightarrow> q \<le> n \<Longrightarrow> (a, ys) \<in> set ws \<Longrightarrow> b = a + length ys \<Longrightarrow>
   slc (blits n ws) a b = ys"
  by (simp add: blits_def fold_blits_slc)

lemma slc_blits [slice_laws]:
  "map_of ws a \<noteq> None \<Longrightarrow> b = a + length (the (map_of ws a)) \<Longrightarrow>
   layout_to 0 ws \<noteq> None \<Longrightarrow> the (layout_to 0 ws) \<le> n \<Longrightarrow>
   slc (blits n ws) a b = the (map_of ws a)"
  by (auto intro!: slc_blits_mem dest: map_of_SomeD)

lemma length_blits_eq [slice_laws]:
  "layout_to 0 ws \<noteq> None \<Longrightarrow> the (layout_to 0 ws) \<le> n \<Longrightarrow> length (blits n ws) = n"
  by (auto simp: length_blits)

lemma slc_one: "a < length xs \<Longrightarrow> slc xs a (Suc a) = [xs ! a]"
  by (simp add: slc_def take_Suc hd_drop_conv_nth)

lemma nth_blits [slice_laws]:
  assumes "map_of ws a \<noteq> None" and "length (the (map_of ws a)) = 1"
    and "layout_to 0 ws \<noteq> None" and "the (layout_to 0 ws) \<le> n" and "a < n"
  shows "blits n ws ! a = hd (the (map_of ws a))"
proof -
  have "slc (blits n ws) a (Suc a) = the (map_of ws a)" using assms by (intro slc_blits) simp_all
  moreover have "slc (blits n ws) a (Suc a) = [blits n ws ! a]"
    using assms by (intro slc_one) (simp add: length_blits_eq)
  ultimately show ?thesis by (metis list.sel(1))
qed

section \<open>Searches\<close>

text \<open>\<open>position p xs\<close> is \<open>xs.iter().position(p)\<close>, \<open>rposition\<close> the search from the
  right. A loop \<open>for i in a..b { if p(i) { return i } }\<close> is \<open>find p [a..<b]\<close>.\<close>

fun position :: "('a \<Rightarrow> bool) \<Rightarrow> 'a list \<Rightarrow> nat option" where
  "position p [] = None"
| "position p (x # xs) = (if p x then Some 0 else map_option Suc (position p xs))"

fun rposition :: "('a \<Rightarrow> bool) \<Rightarrow> 'a list \<Rightarrow> nat option" where
  "rposition p [] = None"
| "rposition p (x # xs) =
     (case rposition p xs of Some i \<Rightarrow> Some (Suc i) | None \<Rightarrow> if p x then Some 0 else None)"

lemma position_None: "position p xs = None \<longleftrightarrow> (\<forall>x\<in>set xs. \<not> p x)"
  by (induction xs) auto

lemma position_Some:
  "position p xs = Some i \<longleftrightarrow> i < length xs \<and> p (xs ! i) \<and> (\<forall>j<i. \<not> p (xs ! j))"
proof (induction xs arbitrary: i)
  case Nil
  then show ?case by simp
next
  case (Cons x xs)
  then show ?case by (cases i) (auto simp: nth_Cons' less_Suc_eq_0_disj All_less_Suc2)
qed

lemma position_append:
  "position p (xs @ ys) =
     (case position p xs of Some i \<Rightarrow> Some i
      | None \<Rightarrow> map_option (\<lambda>i. length xs + i) (position p ys))"
proof (induction xs)
  case Nil
  then show ?case by (cases "position p ys") simp_all
next
  case (Cons x xs)
  then show ?case by (cases "position p xs"; cases "position p ys") auto
qed

lemma rposition_None: "rposition p xs = None \<longleftrightarrow> (\<forall>x\<in>set xs. \<not> p x)"
  by (induction xs) (auto split: option.splits)

lemma rposition_Some:
  "rposition p xs = Some i \<longleftrightarrow>
     i < length xs \<and> p (xs ! i) \<and> (\<forall>j. i < j \<and> j < length xs \<longrightarrow> \<not> p (xs ! j))"
proof (induction xs arbitrary: i)
  case Nil
  then show ?case by simp
next
  case (Cons x xs)
  show ?case
  proof (cases "rposition p xs")
    case None
    then have no: "\<forall>y\<in>set xs. \<not> p y" by (simp add: rposition_None)
    then have "\<And>j. j < length xs \<Longrightarrow> \<not> p (xs ! j)" by simp
    with None show ?thesis by (cases i) (auto simp: nth_Cons' gr0_conv_Suc)
  next
    case (Some k)
    with Cons.IH [of k] have k: "k < length xs" "p (xs ! k)"
      "\<And>j. k < j \<Longrightarrow> j < length xs \<Longrightarrow> \<not> p (xs ! j)" by auto
    show ?thesis
    proof (cases i)
      case 0
      then show ?thesis using Some k by (auto intro: exI [of _ "Suc k"])
    next
      case (Suc m)
      have "i = Suc k" if "m < length xs" "p (xs ! m)"
        "\<forall>j. Suc m < j \<and> j < Suc (length xs) \<longrightarrow> \<not> p (xs ! (j - 1))"
        using that k Suc by (metis Suc_less_eq diff_Suc_1 linorder_neqE_nat)
      then show ?thesis using Some k Suc
        by (auto simp: nth_Cons' split: if_splits)
    qed
  qed
qed

lemma find_upt_Some:
  "find p [a..<b] = Some i \<longleftrightarrow> a \<le> i \<and> i < b \<and> p i \<and> (\<forall>j. a \<le> j \<and> j < i \<longrightarrow> \<not> p j)"
proof
  assume "find p [a..<b] = Some i"
  then obtain k where "k < b - a" "p (a + k)" "i = a + k" "\<forall>j<k. \<not> p (a + j)"
    by (auto simp: find_Some_iff)
  then show "a \<le> i \<and> i < b \<and> p i \<and> (\<forall>j. a \<le> j \<and> j < i \<longrightarrow> \<not> p j)"
    by (auto simp: le_iff_add)
next
  assume "a \<le> i \<and> i < b \<and> p i \<and> (\<forall>j. a \<le> j \<and> j < i \<longrightarrow> \<not> p j)"
  then show "find p [a..<b] = Some i"
    by (auto simp: find_Some_iff intro!: exI [of _ "i - a"])
qed

lemma find_upt_None: "find p [a..<b] = None \<longleftrightarrow> (\<forall>i. a \<le> i \<and> i < b \<longrightarrow> \<not> p i)"
  by (auto simp: find_None_iff)

lemmas find_upt = find_upt_Some find_upt_None

section \<open>Byte encodings\<close>

text \<open>The little-endian bytes of a word (\<open>to_le_bytes\<close>) and the word that a byte list
  denotes; the big-endian versions reverse the list.\<close>

definition to_le :: "nat \<Rightarrow> 'a::len word \<Rightarrow> bytes" where
  "to_le n x = map (\<lambda>i. ucast (drop_bit (8 * i) x)) [0..<n]"

fun from_le :: "bytes \<Rightarrow> 'a::len word" where
  "from_le [] = 0"
| "from_le (b # bs) = ucast b OR push_bit 8 (from_le bs)"

definition to_be :: "nat \<Rightarrow> 'a::len word \<Rightarrow> bytes" where
  "to_be n x = rev (to_le n x)"

definition from_be :: "bytes \<Rightarrow> 'a::len word" where
  "from_be bs = from_le (rev bs)"

lemma length_to_le [simp]: "length (to_le n x) = n"
  by (simp add: to_le_def)

lemma nth_to_le: "i < n \<Longrightarrow> to_le n x ! i = ucast (drop_bit (8 * i) x)"
  by (simp add: to_le_def)

lemma length_to_be [simp]: "length (to_be n x) = n"
  by (simp add: to_be_def)

lemma bit_from_le:
  "bit (from_le bs :: 'a::len word) i \<longleftrightarrow>
     i < LENGTH('a) \<and> i div 8 < length bs \<and> bit (bs ! (i div 8)) (i mod 8)"
proof (induction bs arbitrary: i)
  case Nil
  then show ?case by simp
next
  case (Cons b bs)
  show ?case
  proof (cases "i < 8")
    case True
    then show ?thesis by (auto simp: bit_or_iff bit_ucast_iff bit_push_bit_iff dest: bit_imp_le_length)
  next
    case False
    then obtain k where k: "i = k + 8" using nat_le_iff_add [of 8 i] by (auto simp: add.commute)
    have "\<not> bit b (k + 8)" by (auto dest!: bit_imp_le_length)
    moreover have "(k + 8) div 8 = Suc (k div 8)" by simp
    ultimately show ?thesis using Cons.IH [of k] k
      by (auto simp: bit_or_iff bit_ucast_iff bit_push_bit_iff)
  qed
qed

lemma from_to_le: "from_le (to_le n x) = (take_bit (8 * n) x :: 'a::len word)"
proof (rule bit_word_eqI)
  fix i
  have "(i div 8 < n) = (i < 8 * n)" by auto
  moreover have "8 * (i div 8) + i mod 8 = i" by simp
  ultimately show "bit (from_le (to_le n x) :: 'a word) i = bit (take_bit (8 * n) x) i"
    by (auto simp: bit_from_le bit_take_bit_iff nth_to_le bit_ucast_iff bit_drop_bit_eq
        dest: bit_imp_le_length)
qed

lemma from_to_le_full [simp]: "LENGTH('a) \<le> 8 * n \<Longrightarrow> from_le (to_le n x) = (x :: 'a::len word)"
  by (simp add: from_to_le take_bit_word_eq_self)

lemma to_from_le [simp]:
  assumes "8 * length bs \<le> LENGTH('a)"
  shows "to_le (length bs) (from_le bs :: 'a::len word) = bs"
proof (rule nth_equalityI)
  fix i assume "i < length (to_le (length bs) (from_le bs :: 'a word))"
  then have i: "i < length bs" by simp
  then have le: "8 * i + j < LENGTH('a)" if "j < 8" for j using assms that by simp
  show "to_le (length bs) (from_le bs :: 'a word) ! i = bs ! i"
  proof (rule bit_word_eqI)
    fix j assume "j < LENGTH(8)"
    then have j: "j < 8" by simp
    have "(8 * i + j) div 8 = i" "(8 * i + j) mod 8 = j" using j by auto
    then show "bit (to_le (length bs) (from_le bs :: 'a word) ! i) j = bit (bs ! i) j"
      using i j le [OF j] by (simp add: nth_to_le bit_ucast_iff bit_drop_bit_eq bit_from_le)
  qed
qed simp

lemma from_to_be [simp]: "LENGTH('a) \<le> 8 * n \<Longrightarrow> from_be (to_be n x) = (x :: 'a::len word)"
  by (simp add: from_be_def to_be_def)

lemma to_from_be [simp]:
  "8 * length bs \<le> LENGTH('a) \<Longrightarrow> to_be (length bs) (from_be bs :: 'a::len word) = bs"
  using to_from_le [of "rev bs", where 'a = 'a] by (simp add: from_be_def to_be_def)

section \<open>Byte strings\<close>

text \<open>Rust byte-string literals \<open>b"..."\<close>, and the prefix of a NUL-padded name field.\<close>

definition bstr :: "string \<Rightarrow> bytes" where
  "bstr s = map of_char s"

definition until_nul :: "bytes \<Rightarrow> bytes" where
  "until_nul xs = takeWhile (\<lambda>b. b \<noteq> 0) xs"

lemma length_bstr [simp]: "length (bstr s) = length s"
  by (simp add: bstr_def)

lemma until_nul_pad [simp]: "0 \<notin> set xs \<Longrightarrow> until_nul (xs @ 0 # ys) = xs"
  by (induction xs) (auto simp: until_nul_def)

lemma until_nul_id [simp]: "0 \<notin> set xs \<Longrightarrow> until_nul xs = xs"
  by (induction xs) (auto simp: until_nul_def)

lemma until_nul_replicate [simp]: "0 \<notin> set xs \<Longrightarrow> until_nul (xs @ replicate n 0) = xs"
  by (cases n) simp_all

lemma length_until_nul_le: "length (until_nul xs) \<le> length xs"
  by (simp add: until_nul_def length_takeWhile_le)

lemma until_nul_no_nul [simp]: "0 \<notin> set (until_nul xs)"
  by (auto simp: until_nul_def dest: set_takeWhileD)

section \<open>The state-and-error monad\<close>

text \<open>A kernel routine that returns \<open>Result<T, E>\<close> and works on global state is a function
  from the state to its result and the new state; \<open>kbind\<close> is the \<open>?\<close> operator. As in
  the code, an error does not undo the state changes made before it.\<close>

type_synonym ('s, 'e, 'a) kmonad = "'s \<Rightarrow> ('e + 'a) \<times> 's"

definition kret :: "'a \<Rightarrow> ('s, 'e, 'a) kmonad" where
  "kret x = (\<lambda>s. (Inr x, s))"

definition kthrow :: "'e \<Rightarrow> ('s, 'e, 'a) kmonad" where
  "kthrow e = (\<lambda>s. (Inl e, s))"

definition kbind :: "('s, 'e, 'a) kmonad \<Rightarrow> ('a \<Rightarrow> ('s, 'e, 'b) kmonad) \<Rightarrow> ('s, 'e, 'b) kmonad" where
  "kbind m f = (\<lambda>s. case m s of (Inl e, s') \<Rightarrow> (Inl e, s') | (Inr x, s') \<Rightarrow> f x s')"

definition kseq :: "('s, 'e, 'a) kmonad \<Rightarrow> ('s, 'e, 'b) kmonad \<Rightarrow> ('s, 'e, 'b) kmonad" where
  "kseq m k = kbind m (\<lambda>_. k)"

definition kread :: "('s \<Rightarrow> 'a) \<Rightarrow> ('s, 'e, 'a) kmonad" where
  "kread f = (\<lambda>s. (Inr (f s), s))"

definition kmodify :: "('s \<Rightarrow> 's) \<Rightarrow> ('s, 'e, unit) kmonad" where
  "kmodify f = (\<lambda>s. (Inr (), f s))"

definition kguard :: "bool \<Rightarrow> 'e \<Rightarrow> ('s, 'e, unit) kmonad" where
  "kguard c e = (if c then kret () else kthrow e)"

definition kwhen :: "bool \<Rightarrow> ('s, 'e, unit) kmonad \<Rightarrow> ('s, 'e, unit) kmonad" where
  "kwhen c m = (if c then m else kret ())"

text \<open>\<open>kcase m f g\<close> is \<open>match m { Ok(x) => f(x), Err(e) => g(e) }\<close>.\<close>

definition kcase ::
  "('s, 'e, 'a) kmonad \<Rightarrow> ('a \<Rightarrow> ('s, 'e, 'b) kmonad) \<Rightarrow> ('e \<Rightarrow> ('s, 'e, 'b) kmonad) \<Rightarrow>
   ('s, 'e, 'b) kmonad" where
  "kcase m f g = (\<lambda>s. case m s of (Inl e, s') \<Rightarrow> g e s' | (Inr x, s') \<Rightarrow> f x s')"

text \<open>\<open>kfor xs body\<close> is \<open>for x in xs { body(x)?; }\<close>.\<close>

fun kfor :: "'a list \<Rightarrow> ('a \<Rightarrow> ('s, 'e, unit) kmonad) \<Rightarrow> ('s, 'e, unit) kmonad" where
  "kfor [] body = kret ()"
| "kfor (x # xs) body = kseq (body x) (kfor xs body)"

lemma kfor_map: "kfor (map f xs) body = kfor xs (\<lambda>x. body (f x))"
  by (induction xs) simp_all

lemma kret_apply [simp, monad_laws]: "kret x s = (Inr x, s)"
  by (simp add: kret_def)

lemma kthrow_apply [simp, monad_laws]: "kthrow e s = (Inl e, s)"
  by (simp add: kthrow_def)

lemma kread_apply [simp, monad_laws]: "kread f s = (Inr (f s), s)"
  by (simp add: kread_def)

lemma kmodify_apply [simp, monad_laws]: "kmodify f s = (Inr (), f s)"
  by (simp add: kmodify_def)

lemma kguard_apply [monad_laws]: "kguard c e s = (if c then (Inr (), s) else (Inl e, s))"
  by (simp add: kguard_def)

lemma kwhen_apply [monad_laws]: "kwhen c m s = (if c then m s else (Inr (), s))"
  by (simp add: kwhen_def)

lemma kbind_Inr [simp, monad_laws]: "m s = (Inr x, s') \<Longrightarrow> kbind m f s = f x s'"
  by (simp add: kbind_def)

lemma kbind_Inl [simp, monad_laws]: "m s = (Inl e, s') \<Longrightarrow> kbind m f s = (Inl e, s')"
  by (simp add: kbind_def)

lemma kbind_Inr_iff:
  "kbind m f s = (Inr y, t) \<longleftrightarrow> (\<exists>x s'. m s = (Inr x, s') \<and> f x s' = (Inr y, t))"
  by (auto simp: kbind_def split: prod.splits sum.splits)

lemma kseq_Inr [simp, monad_laws]: "m s = (Inr x, s') \<Longrightarrow> kseq m k s = k s'"
  by (simp add: kseq_def)

lemma kseq_Inl [simp, monad_laws]: "m s = (Inl e, s') \<Longrightarrow> kseq m k s = (Inl e, s')"
  by (simp add: kseq_def)

lemma kcase_Inr [simp, monad_laws]: "m s = (Inr x, s') \<Longrightarrow> kcase m f g s = f x s'"
  by (simp add: kcase_def)

lemma kcase_Inl [simp, monad_laws]: "m s = (Inl e, s') \<Longrightarrow> kcase m f g s = g e s'"
  by (simp add: kcase_def)

lemma kbind_assoc: "kbind (kbind m f) g = kbind m (\<lambda>x. kbind (f x) g)"
  by (rule ext) (auto simp: kbind_def split: prod.splits sum.splits)

text \<open>\<open>keeps P m\<close>: whatever \<open>m\<close> returns, it keeps the state property \<open>P\<close>. The rules
  below carry invariants through routines built from the combinators.\<close>

definition keeps :: "('s \<Rightarrow> bool) \<Rightarrow> ('s, 'e, 'a) kmonad \<Rightarrow> bool" where
  "keeps P m \<longleftrightarrow> (\<forall>s. P s \<longrightarrow> P (snd (m s)))"

named_theorems keeps_intros "invariant preservation of monadic routines"

lemma keepsI: "(\<And>s. P s \<Longrightarrow> P (snd (m s))) \<Longrightarrow> keeps P m"
  by (simp add: keeps_def)

lemma keepsD: "keeps P m \<Longrightarrow> P s \<Longrightarrow> m s = (r, s') \<Longrightarrow> P s'"
  by (metis keeps_def snd_conv)

lemma kfor_append:
  "kfor (xs @ ys) body s = (case kfor xs body s of (Inl e, s') \<Rightarrow> (Inl e, s') | (Inr _, s') \<Rightarrow> kfor ys body s')"
proof (induction xs arbitrary: s)
  case (Cons x xs)
  obtain r s' where "body x s = (r, s')" by fastforce
  then show ?case using Cons.IH by (cases r) simp_all
qed simp

lemma keeps_ret [keeps_intros]: "keeps P (kret x)"
  by (simp add: keeps_def)

lemma keeps_throw [keeps_intros]: "keeps P (kthrow e)"
  by (simp add: keeps_def)

lemma keeps_read [keeps_intros]: "keeps P (kread f)"
  by (simp add: keeps_def)

lemma keeps_guard [keeps_intros]: "keeps P (kguard c e)"
  by (simp add: keeps_def kguard_apply)

lemma keeps_modify: "(\<And>s. P s \<Longrightarrow> P (f s)) \<Longrightarrow> keeps P (kmodify f)"
  by (simp add: keeps_def)

lemma keeps_bind [keeps_intros]: "keeps P m \<Longrightarrow> (\<And>x. keeps P (f x)) \<Longrightarrow> keeps P (kbind m f)"
  by (auto simp: keeps_def kbind_def split: prod.splits sum.splits)

lemma keeps_seq [keeps_intros]: "keeps P m \<Longrightarrow> keeps P k \<Longrightarrow> keeps P (kseq m k)"
  by (simp add: kseq_def keeps_bind)

lemma keeps_case [keeps_intros]:
  "keeps P m \<Longrightarrow> (\<And>x. keeps P (f x)) \<Longrightarrow> (\<And>e. keeps P (g e)) \<Longrightarrow> keeps P (kcase m f g)"
  by (auto simp: keeps_def kcase_def split: prod.splits sum.splits)

lemma keeps_if [keeps_intros]: "keeps P m \<Longrightarrow> keeps P k \<Longrightarrow> keeps P (if c then m else k)"
  by simp

lemma keeps_when [keeps_intros]: "keeps P m \<Longrightarrow> keeps P (kwhen c m)"
  by (simp add: kwhen_def keeps_ret)

lemma keeps_for [keeps_intros]: "(\<And>x. x \<in> set xs \<Longrightarrow> keeps P (body x)) \<Longrightarrow> keeps P (kfor xs body)"
  by (induction xs) (auto intro: keeps_intros)

section \<open>Bitmaps\<close>

text \<open>Bit \<open>n\<close> of a bitmap, and the first clear one.\<close>

definition bm_bit :: "bytes \<Rightarrow> nat \<Rightarrow> bool" where
  "bm_bit buf n = bit (buf ! (n div 8)) (n mod 8)"

definition first_clear :: "bytes \<Rightarrow> nat option" where
  "first_clear buf = find (\<lambda>n. \<not> bm_bit buf n) [0..<8 * length buf]"

definition bm_put :: "nat \<Rightarrow> bytes \<Rightarrow> bytes" where
  "bm_put n buf = buf[n div 8 := buf ! (n div 8) OR push_bit (n mod 8) 1]"

lemma bm_bit_put:
  assumes "n < 8 * length buf"
  shows "bm_bit (bm_put n buf) m = (m = n \<or> bm_bit buf m)"
proof (cases "m div 8 = n div 8")
  case True
  then have "m = n \<longleftrightarrow> m mod 8 = n mod 8" by (metis mult_div_mod_eq)
  then show ?thesis using True assms
    by (auto simp: bm_bit_def bm_put_def bit_or_iff bit_exp_iff)
next
  case False
  then show ?thesis by (auto simp: bm_bit_def bm_put_def)
qed

lemma length_bm_put [simp]: "length (bm_put n buf) = length buf"
  by (simp add: bm_put_def)

definition bm_clear :: "nat \<Rightarrow> bytes \<Rightarrow> bytes" where
  "bm_clear n buf = buf[n div 8 := buf ! (n div 8) AND NOT (push_bit (n mod 8) 1)]"

lemma bm_bit_clear:
  assumes "n < 8 * length buf"
  shows "bm_bit (bm_clear n buf) m = (m \<noteq> n \<and> bm_bit buf m)"
proof (cases "m div 8 = n div 8")
  case True
  then have "m = n \<longleftrightarrow> m mod 8 = n mod 8" by (metis mult_div_mod_eq)
  then show ?thesis using True assms
    by (auto simp: bm_bit_def bm_clear_def bit_and_iff bit_not_iff bit_exp_iff)
next
  case False
  then show ?thesis by (auto simp: bm_bit_def bm_clear_def)
qed

lemma length_bm_clear [simp]: "length (bm_clear n buf) = length buf"
  by (simp add: bm_clear_def)

text \<open>The number of clear bits below \<open>n\<close>.\<close>

definition free_count :: "bytes \<Rightarrow> nat \<Rightarrow> nat" where
  "free_count buf n = card {i. i < n \<and> \<not> bm_bit buf i}"

lemma free_count_put:
  assumes "i < n" and "n \<le> 8 * length buf" and "\<not> bm_bit buf i"
  shows "free_count buf n = Suc (free_count (bm_put i buf) n)"
proof -
  have "{j. j < n \<and> \<not> bm_bit buf j} = insert i {j. j < n \<and> \<not> bm_bit (bm_put i buf) j}"
    using assms by (auto simp: bm_bit_put)
  moreover have "i \<notin> {j. j < n \<and> \<not> bm_bit (bm_put i buf) j}" using assms by (simp add: bm_bit_put)
  ultimately show ?thesis by (simp add: free_count_def)
qed

lemma free_count_clear:
  assumes "i < n" and "n \<le> 8 * length buf" and "bm_bit buf i"
  shows "free_count (bm_clear i buf) n = Suc (free_count buf n)"
proof -
  have "{j. j < n \<and> \<not> bm_bit (bm_clear i buf) j} = insert i {j. j < n \<and> \<not> bm_bit buf j}"
    using assms by (auto simp: bm_bit_clear)
  then show ?thesis using assms(3) by (simp add: free_count_def)
qed

lemma free_count_le: "free_count buf n \<le> n"
proof -
  have "card {i. i < n \<and> \<not> bm_bit buf i} \<le> card {..<n}" by (intro card_mono) auto
  then show ?thesis by (simp add: free_count_def)
qed

lemma first_clear_Some:
  "first_clear buf = Some n \<longleftrightarrow> n < 8 * length buf \<and> \<not> bm_bit buf n \<and> (\<forall>m<n. bm_bit buf m)"
  by (auto simp: first_clear_def find_upt_Some)

lemma first_clear_None: "first_clear buf = None \<longleftrightarrow> (\<forall>n<8 * length buf. bm_bit buf n)"
  by (auto simp: first_clear_def find_upt_None)

end
