(* ===== verification/Core_Types.thy ===== *)
theory Core_Types
  imports Prelude
begin

text \<open>
  The shared crate's basic vocabulary: \<open>core/src/errno.rs\<close> (error codes),
  \<open>core/src/types.rs\<close> (page arithmetic on 64-bit \<open>usize\<close>) and \<open>core/src/parser.rs\<close>
  (endian readers and the bounds-checked \<open>Cursor\<close>). Page arithmetic is kept at its
  width, so the wrap-around of \<open>page_align_up\<close> near the top of the address space shows.
  An access that makes Rust panic is the value \<open>Panics\<close> of type \<open>outcome\<close>.
\<close>

datatype 'a outcome = Panics | Returns 'a

section \<open>Error codes\<close>

datatype errno =
    EOk | ENoMem | EInval | ENoEnt | EIo | EPerm | ERange | ENoSys | EBusy | ENoSpace
  | ENotDir | EIsDir | EBadFd | EExist | EPipe | EOverflow

type_synonym 'a kresult = "errno + 'a"

fun as_i64 :: "errno \<Rightarrow> int" where
  "as_i64 EOk = 0"
| "as_i64 ENoMem = -1"
| "as_i64 EInval = -2"
| "as_i64 ENoEnt = -3"
| "as_i64 EIo = -4"
| "as_i64 EPerm = -5"
| "as_i64 ERange = -6"
| "as_i64 ENoSys = -7"
| "as_i64 EBusy = -8"
| "as_i64 ENoSpace = -9"
| "as_i64 ENotDir = -10"
| "as_i64 EIsDir = -11"
| "as_i64 EBadFd = -12"
| "as_i64 EExist = -13"
| "as_i64 EPipe = -14"
| "as_i64 EOverflow = -15"

fun as_str :: "errno \<Rightarrow> string" where
  "as_str EOk = ''OK''"
| "as_str ENoMem = ''ENOMEM''"
| "as_str EInval = ''EINVAL''"
| "as_str ENoEnt = ''ENOENT''"
| "as_str EIo = ''EIO''"
| "as_str EPerm = ''EPERM''"
| "as_str ERange = ''ERANGE''"
| "as_str ENoSys = ''ENOSYS''"
| "as_str EBusy = ''EBUSY''"
| "as_str ENoSpace = ''ENOSPC''"
| "as_str ENotDir = ''ENOTDIR''"
| "as_str EIsDir = ''EISDIR''"
| "as_str EBadFd = ''EBADF''"
| "as_str EExist = ''EEXIST''"
| "as_str EPipe = ''EPIPE''"
| "as_str EOverflow = ''EOVERFLOW''"

lemma as_i64_inj: "as_i64 a = as_i64 b \<longleftrightarrow> a = b"
  by (cases a; cases b) simp_all

lemma as_i64_range: "-15 \<le> as_i64 e \<and> as_i64 e \<le> 0"
  by (cases e) simp_all

lemma as_str_inj: "as_str a = as_str b \<longleftrightarrow> a = b"
  by (cases a; cases b) simp_all

section \<open>Pages\<close>

definition PAGE_SIZE :: u64 where
  "PAGE_SIZE = 4096"

definition PAGE_MASK :: u64 where
  "PAGE_MASK = NOT (PAGE_SIZE - 1)"

definition page_align_down :: "u64 \<Rightarrow> u64" where
  "page_align_down x = x AND PAGE_MASK"

definition page_align_up :: "u64 \<Rightarrow> u64" where
  "page_align_up x = (x + PAGE_SIZE - 1) AND PAGE_MASK"

definition is_aligned :: "u64 \<Rightarrow> bool" where
  "is_aligned x \<longleftrightarrow> (x AND (PAGE_SIZE - 1)) = 0"

definition min_usize :: "u64 \<Rightarrow> u64 \<Rightarrow> u64" where
  "min_usize a b = (if a < b then a else b)"

definition max_usize :: "u64 \<Rightarrow> u64 \<Rightarrow> u64" where
  "max_usize a b = (if a > b then a else b)"

lemma and_low12: "unat (x AND 4095 :: u64) = unat x mod 4096"
proof -
  have "(4095 :: u64) = mask 12" by (simp add: mask_eq_exp_minus_1)
  then have "x AND 4095 = take_bit 12 x" by (simp add: take_bit_eq_mask)
  then show ?thesis by (simp add: take_bit_eq_mod unat_mod)
qed

lemma and_not_mask: "x AND NOT m = x - (x AND m)" for x m :: "'a::len word"
proof -
  have "x = (x AND NOT m) OR (x AND m)"
    by (rule bit_word_eqI) (auto simp: bit_or_iff bit_and_iff bit_not_iff)
  moreover have "(x AND NOT m) AND (x AND m) = 0"
    by (rule bit_word_eqI) (auto simp: bit_and_iff bit_not_iff)
  ultimately show ?thesis by (metis add_diff_cancel_right' disjunctive_add_eq_or)
qed

lemma and_page_mask: "x AND PAGE_MASK = x - (x AND 4095 :: u64)"
  using and_not_mask [of x 4095] by (simp add: PAGE_MASK_def PAGE_SIZE_def)

lemma unat_page_align_down: "unat (page_align_down x) = unat x div 4096 * 4096"
proof -
  have "x AND 4095 \<le> x" by (rule word_and_le2)
  then have "unat (page_align_down x) = unat x - unat x mod 4096"
    by (simp add: page_align_down_def and_page_mask unat_sub and_low12)
  then show ?thesis by (metis minus_mod_eq_div_mult)
qed

lemma is_aligned_iff: "is_aligned x \<longleftrightarrow> 4096 dvd unat x"
proof -
  have "is_aligned x \<longleftrightarrow> unat (x AND 4095 :: u64) = 0"
    by (simp add: is_aligned_def PAGE_SIZE_def unat_eq_0)
  then show ?thesis by (simp add: and_low12 dvd_eq_mod_eq_0)
qed

lemma unat_page_align_up:
  assumes "unat x + 4095 < 2 ^ 64"
  shows "unat (page_align_up x) = (unat x + 4095) div 4096 * 4096"
proof -
  have "page_align_up x = page_align_down (x + 4095)"
    by (simp add: page_align_up_def page_align_down_def PAGE_SIZE_def algebra_simps)
  moreover have "unat (x + 4095) = unat x + 4095"
    using assms unat_add_lem [of x "4095"] by simp
  ultimately show ?thesis by (simp add: unat_page_align_down)
qed

text \<open>Page rounding: \<open>page_align_down x\<close> is the greatest page boundary not above \<open>x\<close>,
  and, when \<open>x\<close> is not in the last page of the address space, \<open>page_align_up x\<close> is the
  least page boundary not below \<open>x\<close>; both results are aligned.\<close>

theorem page_align_correct:
  assumes "unat x + 4095 < 2 ^ 64"
  shows "is_aligned (page_align_down x) \<and> is_aligned (page_align_up x) \<and>
    page_align_down x \<le> x \<and> x \<le> page_align_up x \<and>
    (\<forall>y. is_aligned y \<and> y \<le> x \<longrightarrow> y \<le> page_align_down x) \<and>
    (\<forall>y. is_aligned y \<and> x \<le> y \<longrightarrow> page_align_up x \<le> y)"
proof -
  have "unat y \<le> unat x div 4096 * 4096" if "4096 dvd unat y" "unat y \<le> unat x" for y :: u64
    using that by auto
  moreover have "(unat x + 4095) div 4096 * 4096 \<le> unat y"
    if "4096 dvd unat y" "unat x \<le> unat y" for y :: u64
    using that by auto
  moreover have "unat x \<le> (unat x + 4095) div 4096 * 4096" by auto
  ultimately show ?thesis
    by (auto simp: is_aligned_iff word_le_nat_alt unat_page_align_down unat_page_align_up [OF assms])
qed

theorem page_align_correct_witness:
  "page_align_down 0x12345 = 0x12000 \<and> page_align_up 0x12345 = 0x13000 \<and>
   is_aligned (page_align_up 0x12345) \<and> 0x12345 \<le> page_align_up 0x12345"
proof -
  have "page_align_down 0x12345 = 0x12000" "page_align_up 0x12345 = 0x13000" by code_simp+
  then show ?thesis using page_align_correct [of "0x12345"] by simp
qed

lemma page_align_up_wraps: "page_align_up (- 1) = 0"
  by code_simp

section \<open>Endian readers and the cursor\<close>

definition be32 :: "bytes \<Rightarrow> u32" where
  "be32 p = from_be [p ! 0, p ! 1, p ! 2, p ! 3]"

definition be64 :: "bytes \<Rightarrow> u64" where
  "be64 p = from_be [p ! 0, p ! 1, p ! 2, p ! 3, p ! 4, p ! 5, p ! 6, p ! 7]"

definition le32 :: "bytes \<Rightarrow> u32" where
  "le32 p = from_le [p ! 0, p ! 1, p ! 2, p ! 3]"

definition le64 :: "bytes \<Rightarrow> u64" where
  "le64 p = from_le [p ! 0, p ! 1, p ! 2, p ! 3, p ! 4, p ! 5, p ! 6, p ! 7]"

lemma list4_of_nth: "4 \<le> length p \<Longrightarrow> [p ! 0, p ! 1, p ! 2, p ! 3] = take 4 p"
  by (rule nth_equalityI) (auto simp: less_Suc_eq numeral_eq_Suc)

lemma list8_of_nth:
  "8 \<le> length p \<Longrightarrow> [p ! 0, p ! 1, p ! 2, p ! 3, p ! 4, p ! 5, p ! 6, p ! 7] = take 8 p"
  by (rule nth_equalityI) (auto simp: less_Suc_eq numeral_eq_Suc)

lemma le32_take: "4 \<le> length p \<Longrightarrow> le32 p = from_le (take 4 p)"
  by (simp only: le32_def list4_of_nth)

lemma le64_take: "8 \<le> length p \<Longrightarrow> le64 p = from_le (take 8 p)"
  by (simp only: le64_def list8_of_nth)

lemma be32_take: "4 \<le> length p \<Longrightarrow> be32 p = from_be (take 4 p)"
  by (simp only: be32_def list4_of_nth)

lemma be64_take: "8 \<le> length p \<Longrightarrow> be64 p = from_be (take 8 p)"
  by (simp only: be64_def list8_of_nth)

lemma le32_to_le [simp]: "le32 (to_le 4 x) = x"
  by (simp add: le32_take)

lemma le64_to_le [simp]: "le64 (to_le 8 x) = x"
  by (simp add: le64_take)

lemma to_le_le32 [simp]: "length p = 4 \<Longrightarrow> to_le 4 (le32 p) = p"
  using to_from_le [of p, where 'a = 32] by (simp add: le32_take)

lemma to_le_le64 [simp]: "length p = 8 \<Longrightarrow> to_le 8 (le64 p) = p"
  using to_from_le [of p, where 'a = 64] by (simp add: le64_take)

record cursor =
  cur_buf :: bytes
  cur_pos :: u64

definition cur_len :: "cursor \<Rightarrow> u64" where
  "cur_len c = of_nat (length (cur_buf c))"

definition Cursor_new :: "bytes \<Rightarrow> cursor" where
  "Cursor_new b = \<lparr>cur_buf = b, cur_pos = 0\<rparr>"

definition cur_remaining :: "cursor \<Rightarrow> u64" where
  "cur_remaining c = (if cur_len c < cur_pos c then 0 else cur_len c - cur_pos c)"

definition cur_eof :: "cursor \<Rightarrow> bool" where
  "cur_eof c \<longleftrightarrow> cur_pos c \<ge> cur_len c"

definition read_u8 :: "cursor \<Rightarrow> u8 option \<times> cursor" where
  "read_u8 c =
     (if unat (cur_pos c) < length (cur_buf c)
      then (Some (cur_buf c ! unat (cur_pos c)), c\<lparr>cur_pos := cur_pos c + 1\<rparr>)
      else (None, c))"

text \<open>The four fixed-width readers share one shape: compare \<open>pos + w\<close> (which wraps) with
  the length, take the slice from \<open>pos\<close> on (a panic when \<open>pos\<close> is past the end), decode its
  first \<open>w\<close> bytes (a panic when there are fewer), and advance.\<close>

definition read_fixed :: "nat \<Rightarrow> (bytes \<Rightarrow> 'a) \<Rightarrow> cursor \<Rightarrow> ('a option \<times> cursor) outcome" where
  "read_fixed w decode c =
     (if cur_pos c + of_nat w > cur_len c then Returns (None, c)
      else if cur_pos c > cur_len c then Panics
      else let tail = drop (unat (cur_pos c)) (cur_buf c) in
        if length tail < w then Panics
        else Returns (Some (decode tail), c\<lparr>cur_pos := cur_pos c + of_nat w\<rparr>))"

definition read_le32 :: "cursor \<Rightarrow> (u32 option \<times> cursor) outcome" where
  "read_le32 c = read_fixed 4 le32 c"

definition read_le64 :: "cursor \<Rightarrow> (u64 option \<times> cursor) outcome" where
  "read_le64 c = read_fixed 8 le64 c"

definition read_be32 :: "cursor \<Rightarrow> (u32 option \<times> cursor) outcome" where
  "read_be32 c = read_fixed 4 be32 c"

definition read_be64 :: "cursor \<Rightarrow> (u64 option \<times> cursor) outcome" where
  "read_be64 c = read_fixed 8 be64 c"

definition read_bytes :: "u64 \<Rightarrow> cursor \<Rightarrow> (bytes option \<times> cursor) outcome" where
  "read_bytes n c =
     (if cur_pos c + n > cur_len c then Returns (None, c)
      else if cur_pos c > cur_pos c + n then Panics
      else Returns (Some (slc (cur_buf c) (unat (cur_pos c)) (unat (cur_pos c + n))),
                    c\<lparr>cur_pos := cur_pos c + n\<rparr>))"

definition skip :: "u64 \<Rightarrow> cursor \<Rightarrow> unit option \<times> cursor" where
  "skip n c =
     (if cur_pos c + n > cur_len c then (None, c)
      else (Some (), c\<lparr>cur_pos := cur_pos c + n\<rparr>))"

text \<open>A cursor is well formed when its buffer is a Rust slice (at most \<open>isize::MAX\<close> bytes)
  and its position is inside the buffer or at its end.\<close>

definition cursor_ok :: "cursor \<Rightarrow> bool" where
  "cursor_ok c \<longleftrightarrow> length (cur_buf c) < 2 ^ 63 \<and> unat (cur_pos c) \<le> length (cur_buf c)"

lemma cursor_new_ok: "length b < 2 ^ 63 \<Longrightarrow> cursor_ok (Cursor_new b)"
  by (simp add: cursor_ok_def Cursor_new_def)

lemma unat_cur_len: "cursor_ok c \<Longrightarrow> unat (cur_len c) = length (cur_buf c)"
  by (simp add: cursor_ok_def cur_len_def unat_of_nat take_bit_eq_mod)

lemma unat_advance:
  "cursor_ok c \<Longrightarrow> unat n < 2 ^ 63 \<Longrightarrow> unat (cur_pos c + n) = unat (cur_pos c) + unat n"
  using unat_add_lem [of "cur_pos c" n] by (simp add: cursor_ok_def)

lemma read_fixed_spec:
  assumes ok: "cursor_ok c" and w: "w \<le> 8"
  shows "read_fixed w d c =
    (if unat (cur_pos c) + w \<le> length (cur_buf c)
     then Returns (Some (d (drop (unat (cur_pos c)) (cur_buf c))), c\<lparr>cur_pos := cur_pos c + of_nat w\<rparr>)
     else Returns (None, c))"
proof -
  have u: "unat (of_nat w :: u64) = w" using w by (simp add: unat_of_nat take_bit_eq_mod)
  then have "unat (cur_pos c + of_nat w) = unat (cur_pos c) + w"
    using unat_advance [OF ok, of "of_nat w"] w by simp
  moreover have "unat (cur_pos c) \<le> length (cur_buf c)" using ok by (simp add: cursor_ok_def)
  ultimately show ?thesis
    by (auto simp: read_fixed_def word_less_nat_alt unat_cur_len [OF ok] Let_def)
qed

lemma cursor_ok_advance:
  "cursor_ok c \<Longrightarrow> unat n < 2 ^ 63 \<Longrightarrow> unat (cur_pos c) + unat n \<le> length (cur_buf c) \<Longrightarrow>
   cursor_ok (c\<lparr>cur_pos := cur_pos c + n\<rparr>)"
  using unat_advance [of c n] by (simp add: cursor_ok_def)

text \<open>What one reader call may do: return nothing and leave the cursor alone, or consume
  exactly \<open>w\<close> bytes inside the buffer.\<close>

definition consumes :: "nat \<Rightarrow> cursor \<Rightarrow> ('a option \<times> cursor) outcome \<Rightarrow> (bytes \<Rightarrow> 'a) \<Rightarrow> bool" where
  "consumes w c r d \<longleftrightarrow>
     (if unat (cur_pos c) + w \<le> length (cur_buf c)
      then \<exists>c'. r = Returns (Some (d (slc (cur_buf c) (unat (cur_pos c)) (unat (cur_pos c) + w))), c') \<and>
             cur_buf c' = cur_buf c \<and> unat (cur_pos c') = unat (cur_pos c) + w \<and> cursor_ok c'
      else r = Returns (None, c))"

lemma read_fixed_consumes:
  assumes ok: "cursor_ok c" and w: "w \<le> 8" and d: "\<And>p. w \<le> length p \<Longrightarrow> d p = d (take w p)"
  shows "consumes w c (read_fixed w d c) d"
proof -
  have u: "unat (of_nat w :: u64) = w" using w by (simp add: unat_of_nat take_bit_eq_mod)
  have "d (drop (unat (cur_pos c)) (cur_buf c)) =
        d (slc (cur_buf c) (unat (cur_pos c)) (unat (cur_pos c) + w))"
    if "unat (cur_pos c) + w \<le> length (cur_buf c)"
    using that d [of "drop (unat (cur_pos c)) (cur_buf c)"] by (simp add: slc_def)
  then show ?thesis
    using cursor_ok_advance [OF ok, of "of_nat w"] unat_advance [OF ok, of "of_nat w"] u w
    by (auto simp: consumes_def read_fixed_spec [OF ok w])
qed

lemma consumes_cong:
  "consumes w c r d \<Longrightarrow> (\<And>p. length p = w \<Longrightarrow> d p = d' p) \<Longrightarrow> consumes w c r d'"
  by (simp add: consumes_def split: if_splits)

lemma read_u8_consumes: "cursor_ok c \<Longrightarrow> consumes 1 c (Returns (read_u8 c)) hd"
  using cursor_ok_advance [of c 1] unat_advance [of c 1]
  by (auto simp: consumes_def read_u8_def slc_def hd_drop_conv_nth)

lemma advance_fits_iff:
  "cursor_ok c \<Longrightarrow> unat n < 2 ^ 63 \<Longrightarrow>
   cur_pos c + n > cur_len c \<longleftrightarrow> length (cur_buf c) < unat (cur_pos c) + unat n"
  by (simp add: word_less_nat_alt unat_cur_len unat_advance)

lemma read_bytes_consumes:
  "cursor_ok c \<Longrightarrow> unat n < 2 ^ 63 \<Longrightarrow> consumes (unat n) c (read_bytes n c) id"
  using cursor_ok_advance [of c n] unat_advance [of c n]
  by (auto simp: consumes_def read_bytes_def word_less_nat_alt unat_cur_len)

lemma skip_consumes:
  "cursor_ok c \<Longrightarrow> unat n < 2 ^ 63 \<Longrightarrow> consumes (unat n) c (Returns (skip n c)) (\<lambda>_. ())"
  using cursor_ok_advance [of c n] unat_advance [of c n]
  by (auto simp: consumes_def skip_def advance_fits_iff)

lemma fixed_readers_consume:
  assumes "cursor_ok c"
  shows "consumes 4 c (read_le32 c) from_le" and "consumes 8 c (read_le64 c) from_le"
    and "consumes 4 c (read_be32 c) from_be" and "consumes 8 c (read_be64 c) from_be"
  unfolding read_le32_def read_le64_def read_be32_def read_be64_def
  by (rule consumes_cong, rule read_fixed_consumes [OF assms];
      simp add: le32_take le64_take be32_take be64_take)+

text \<open>On a well-formed cursor no reader panics: each returns \<open>None\<close> with the
  cursor unchanged when fewer bytes remain than it needs, and otherwise decodes exactly the
  next bytes in its byte order and leaves a well-formed cursor just past them. The lengths
  given to \<open>read_bytes\<close> and \<open>skip\<close> have to be below \<open>2 ^ 63\<close> for this.\<close>

theorem cursor_readers_safe:
  assumes "cursor_ok c" and "unat n < 2 ^ 63"
  shows "consumes 1 c (Returns (read_u8 c)) hd \<and>
    consumes 4 c (read_le32 c) from_le \<and> consumes 8 c (read_le64 c) from_le \<and>
    consumes 4 c (read_be32 c) from_be \<and> consumes 8 c (read_be64 c) from_be \<and>
    consumes (unat n) c (read_bytes n c) id \<and>
    consumes (unat n) c (Returns (skip n c)) (\<lambda>_. ())"
  using assms by (simp add: read_u8_consumes [simplified] fixed_readers_consume read_bytes_consumes skip_consumes)

theorem cursor_readers_safe_witness:
  "read_le32 (Cursor_new [1, 2, 3, 4, 5]) =
     Returns (Some 0x04030201, \<lparr>cur_buf = [1, 2, 3, 4, 5], cur_pos = 4\<rparr>) \<and>
   consumes 4 (Cursor_new [1, 2, 3, 4, 5]) (read_le32 (Cursor_new [1, 2, 3, 4, 5])) from_le \<and>
   consumes 9 (Cursor_new [1, 2, 3, 4, 5]) (read_bytes 9 (Cursor_new [1, 2, 3, 4, 5])) id"
proof -
  have "read_le32 (Cursor_new [1, 2, 3, 4, 5]) =
     Returns (Some 0x04030201, \<lparr>cur_buf = [1, 2, 3, 4, 5], cur_pos = 4\<rparr>)"
    by code_simp
  then show ?thesis
    using cursor_readers_safe [of "Cursor_new [1, 2, 3, 4, 5]" 9]
    by (simp add: cursor_ok_def Cursor_new_def)
qed

text \<open>Without the bound on the count the check \<open>pos + n > len\<close> is defeated by the
  wrap-around of a release build: \<open>skip\<close> moves the cursor backwards and reports success,
  and \<open>read_bytes\<close> panics on a decreasing range.\<close>

lemma skip_wraps_backwards:
  "skip (- 1) \<lparr>cur_buf = [1, 2, 3], cur_pos = 2\<rparr> = (Some (), \<lparr>cur_buf = [1, 2, 3], cur_pos = 1\<rparr>)"
  by code_simp

lemma read_bytes_wraps_to_panic: "read_bytes (- 1) \<lparr>cur_buf = [1, 2, 3], cur_pos = 2\<rparr> = Panics"
  by code_simp

end
