(* ===== verification/Onyfs_Format.thy ===== *)
theory Onyfs_Format
  imports Core_Types
begin

text \<open>
  The on-disk structures of OnyxFS (\<open>core/src/formats/onyxfs_fmt\<close>) and of its snapshot area
  (\<open>core/src/formats/snapshot.rs\<close>): superblock, inode, directory entry and snapshot metadata,
  each as a record with the \<open>from_bytes\<close> and \<open>to_bytes\<close> of the code. The fixed-size
  arrays of the code are lists, and the \<open>_wf\<close> predicates say they have their length.
  Theorems: decoding what was encoded gives the structure back (with the fields the format does
  not store reset), a buffer that is too short or has a wrong magic is rejected, and encodings
  have their fixed size.
\<close>

section \<open>Superblock\<close>

definition ONYFS_MAGIC :: u32 where "ONYFS_MAGIC = 0x32594E4F"
definition ONYFS_MAGIC_V1 :: u32 where "ONYFS_MAGIC_V1 = 0x31594E4F"
definition ONYFS_BLOCK_SIZE :: nat where "ONYFS_BLOCK_SIZE = 4096"
definition ONYFS_NAME_MAX :: nat where "ONYFS_NAME_MAX = 32"
definition ONYFS_DIRECT_BLKS :: nat where "ONYFS_DIRECT_BLKS = 10"
definition ONYFS_ROOT_INO :: u32 where "ONYFS_ROOT_INO = 1"
definition ONYFS_DT_REG :: u32 where "ONYFS_DT_REG = 0x81ED"
definition ONYFS_DT_DIR :: u32 where "ONYFS_DT_DIR = 0x41ED"
definition ONYFS_FEAT_SNAPSHOTS :: u32 where "ONYFS_FEAT_SNAPSHOTS = 0x2"
definition ONYFS_FEAT_JOURNAL :: u32 where "ONYFS_FEAT_JOURNAL = 0x8"

record onyfs_super =
  sb_magic :: u32
  sb_version :: u32
  sb_block_size :: u32
  sb_total_blocks :: u32
  sb_inode_count :: u32
  sb_inode_table_start :: u32
  sb_data_bitmap_start :: u32
  sb_data_blocks_start :: u32
  sb_root_inode :: u32
  sb_snapshot_area_start :: u32
  sb_snapshot_count :: u32
  sb_journal_start :: u32
  sb_journal_size :: u32
  sb_feature_flags :: u32
  sb_creation_time :: u64
  sb_last_mount_time :: u64
  sb_reserved :: "u32 list"

definition super_from_bytes :: "bytes \<Rightarrow> onyfs_super option" where
  "super_from_bytes buf =
     (if length buf < 128 then None
      else let magic = le32 (slc buf 0 4) in
        if magic \<noteq> ONYFS_MAGIC \<and> magic \<noteq> ONYFS_MAGIC_V1 then None
        else Some \<lparr>
          sb_magic = magic,
          sb_version = le32 (slc buf 4 8),
          sb_block_size = le32 (slc buf 8 12),
          sb_total_blocks = le32 (slc buf 12 16),
          sb_inode_count = le32 (slc buf 16 20),
          sb_inode_table_start = le32 (slc buf 20 24),
          sb_data_bitmap_start = le32 (slc buf 24 28),
          sb_data_blocks_start = le32 (slc buf 28 32),
          sb_root_inode = le32 (slc buf 32 36),
          sb_snapshot_area_start = le32 (slc buf 36 40),
          sb_snapshot_count = le32 (slc buf 40 44),
          sb_journal_start = le32 (slc buf 44 48),
          sb_journal_size = le32 (slc buf 48 52),
          sb_feature_flags = le32 (slc buf 52 56),
          sb_creation_time = le64 (slc buf 56 64),
          sb_last_mount_time = le64 (slc buf 64 72),
          sb_reserved = replicate 10 0\<rparr>)"

definition super_to_bytes :: "onyfs_super \<Rightarrow> bytes" where
  "super_to_bytes s = blits 128 [
     (0, to_le 4 (sb_magic s)),
     (4, to_le 4 (sb_version s)),
     (8, to_le 4 (sb_block_size s)),
     (12, to_le 4 (sb_total_blocks s)),
     (16, to_le 4 (sb_inode_count s)),
     (20, to_le 4 (sb_inode_table_start s)),
     (24, to_le 4 (sb_data_bitmap_start s)),
     (28, to_le 4 (sb_data_blocks_start s)),
     (32, to_le 4 (sb_root_inode s)),
     (36, to_le 4 (sb_snapshot_area_start s)),
     (40, to_le 4 (sb_snapshot_count s)),
     (44, to_le 4 (sb_journal_start s)),
     (48, to_le 4 (sb_journal_size s)),
     (52, to_le 4 (sb_feature_flags s)),
     (56, to_le 8 (sb_creation_time s)),
     (64, to_le 8 (sb_last_mount_time s))]"

lemma super_decode_encode:
  assumes "sb_magic s = ONYFS_MAGIC \<or> sb_magic s = ONYFS_MAGIC_V1"
  shows "super_from_bytes (super_to_bytes s) = Some (s\<lparr>sb_reserved := replicate 10 0\<rparr>)"
  using assms
  by (auto simp: super_from_bytes_def super_to_bytes_def Let_def slc_blits length_blits_eq)

text \<open>A superblock with either magic survives encoding and decoding, up to the reserved
  words, which the format does not store and the decoder zeroes.\<close>

theorem super_roundtrip:
  assumes "sb_magic s = ONYFS_MAGIC \<or> sb_magic s = ONYFS_MAGIC_V1"
  shows "super_from_bytes (super_to_bytes s) = Some (s\<lparr>sb_reserved := replicate 10 0\<rparr>)"
  using super_decode_encode [OF assms] .

theorem super_roundtrip_witness:
  "super_from_bytes (super_to_bytes \<lparr>sb_magic = 0x32594E4F, sb_version = 2, sb_block_size = 4096,
      sb_total_blocks = 1000, sb_inode_count = 64, sb_inode_table_start = 1,
      sb_data_bitmap_start = 3, sb_data_blocks_start = 4, sb_root_inode = 1,
      sb_snapshot_area_start = 500, sb_snapshot_count = 0, sb_journal_start = 400,
      sb_journal_size = 64, sb_feature_flags = 0xB, sb_creation_time = 7, sb_last_mount_time = 9,
      sb_reserved = [1]\<rparr>) =
   Some \<lparr>sb_magic = 0x32594E4F, sb_version = 2, sb_block_size = 4096,
      sb_total_blocks = 1000, sb_inode_count = 64, sb_inode_table_start = 1,
      sb_data_bitmap_start = 3, sb_data_blocks_start = 4, sb_root_inode = 1,
      sb_snapshot_area_start = 500, sb_snapshot_count = 0, sb_journal_start = 400,
      sb_journal_size = 64, sb_feature_flags = 0xB, sb_creation_time = 7, sb_last_mount_time = 9,
      sb_reserved = replicate 10 0\<rparr>"
  by (subst super_roundtrip) (simp_all add: ONYFS_MAGIC_def)

lemma super_to_bytes_length [simp]: "length (super_to_bytes s) = 128"
  by (simp add: super_to_bytes_def length_blits_eq)

lemma super_from_bytes_reject:
  "super_from_bytes buf = None \<longleftrightarrow>
     length buf < 128 \<or> le32 (slc buf 0 4) \<notin> {ONYFS_MAGIC, ONYFS_MAGIC_V1}"
  by (auto simp: super_from_bytes_def Let_def)

section \<open>Inode\<close>

record onyfs_inode =
  ino_mode :: u32
  ino_size :: u64
  ino_uid :: u32
  ino_gid :: u32
  ino_nlink :: u32
  ino_blocks :: "u32 list"
  ino_indirect :: u32
  ino_double_indirect :: u32
  ino_crtime :: u64
  ino_mtime :: u64
  ino_atime :: u64
  ino_ctime :: u64
  ino_flags :: u32
  ino_reserved :: u32

definition inode_wf :: "onyfs_inode \<Rightarrow> bool" where
  "inode_wf i \<longleftrightarrow> length (ino_blocks i) = ONYFS_DIRECT_BLKS"

definition inode_from_bytes :: "bytes \<Rightarrow> onyfs_inode option" where
  "inode_from_bytes buf =
     (if length buf < 128 then None
      else Some \<lparr>
        ino_mode = le32 (slc buf 0 4),
        ino_size = le64 (slc buf 8 16),
        ino_uid = le32 (slc buf 56 60),
        ino_gid = le32 (slc buf 60 64),
        ino_nlink = le32 (slc buf 64 68),
        ino_blocks = map (\<lambda>i. le32 (slc buf (16 + i * 4) (16 + (i + 1) * 4))) [0..<ONYFS_DIRECT_BLKS],
        ino_indirect = le32 (slc buf 96 100),
        ino_double_indirect = le32 (slc buf 100 104),
        ino_crtime = le64 (slc buf 104 112),
        ino_mtime = le64 (slc buf 112 120),
        ino_atime = le64 (slc buf 120 128),
        ino_ctime = 0,
        ino_flags = le32 (slc buf 68 72),
        ino_reserved = le32 (slc buf 72 76)\<rparr>)"

definition inode_to_bytes :: "onyfs_inode \<Rightarrow> bytes" where
  "inode_to_bytes s = blits 128 ([
     (0, to_le 4 (ino_mode s)),
     (4, to_le 4 (0 :: u32)),
     (8, to_le 8 (ino_size s))] @
     map (\<lambda>i. (16 + i * 4, to_le 4 (ino_blocks s ! i))) [0..<length (ino_blocks s)] @ [
     (56, to_le 4 (ino_uid s)),
     (60, to_le 4 (ino_gid s)),
     (64, to_le 4 (ino_nlink s)),
     (68, to_le 4 (ino_flags s)),
     (72, to_le 4 (ino_reserved s)),
     (96, to_le 4 (ino_indirect s)),
     (100, to_le 4 (ino_double_indirect s)),
     (104, to_le 8 (ino_crtime s)),
     (112, to_le 8 (ino_mtime s)),
     (120, to_le 8 (ino_atime s))])"

lemma upt_0_10: "[0..<10] = [0, 1, 2, 3, 4, 5, 6, 7, 8, 9 :: nat]"
  by code_simp

lemma inode_layout:
  assumes "inode_wf s"
  shows "inode_to_bytes s = blits 128 ([
     (0, to_le 4 (ino_mode s)), (4, to_le 4 (0 :: u32)), (8, to_le 8 (ino_size s)),
     (16, to_le 4 (ino_blocks s ! 0)), (20, to_le 4 (ino_blocks s ! 1)),
     (24, to_le 4 (ino_blocks s ! 2)), (28, to_le 4 (ino_blocks s ! 3)),
     (32, to_le 4 (ino_blocks s ! 4)), (36, to_le 4 (ino_blocks s ! 5)),
     (40, to_le 4 (ino_blocks s ! 6)), (44, to_le 4 (ino_blocks s ! 7)),
     (48, to_le 4 (ino_blocks s ! 8)), (52, to_le 4 (ino_blocks s ! 9)),
     (56, to_le 4 (ino_uid s)), (60, to_le 4 (ino_gid s)), (64, to_le 4 (ino_nlink s)),
     (68, to_le 4 (ino_flags s)), (72, to_le 4 (ino_reserved s)), (96, to_le 4 (ino_indirect s)),
     (100, to_le 4 (ino_double_indirect s)), (104, to_le 8 (ino_crtime s)),
     (112, to_le 8 (ino_mtime s)), (120, to_le 8 (ino_atime s))])"
  using assms by (simp add: inode_to_bytes_def inode_wf_def ONYFS_DIRECT_BLKS_def upt_0_10)

lemma inode_to_bytes_length [simp]: "inode_wf s \<Longrightarrow> length (inode_to_bytes s) = 128"
  by (simp add: inode_layout length_blits_eq)

lemma list10_of_nth:
  "length p = 10 \<Longrightarrow> [p ! 0, p ! 1, p ! 2, p ! 3, p ! 4, p ! 5, p ! 6, p ! 7, p ! 8, p ! 9] = p"
  by (rule nth_equalityI) (auto simp: less_Suc_eq numeral_eq_Suc)

lemma inode_roundtrip_raw:
  assumes "inode_wf s"
  shows "inode_from_bytes (inode_to_bytes s) = Some (s\<lparr>ino_ctime := 0\<rparr>)"
  using assms list10_of_nth [of "ino_blocks s"]
  by (simp add: inode_from_bytes_def inode_layout slc_blits length_blits_eq upt_0_10
      inode_wf_def ONYFS_DIRECT_BLKS_def)

text \<open>C24: An inode survives encoding and decoding in every field but \<open>ctime\<close>: the change
  time has no place in the 128-byte layout, so it reads back as 0.\<close>

theorem inode_roundtrip:
  assumes "inode_wf s"
  shows "inode_from_bytes (inode_to_bytes s) = Some (s\<lparr>ino_ctime := 0\<rparr>)"
  using assms by (rule inode_roundtrip_raw)

theorem inode_roundtrip_witness:
  "inode_from_bytes (inode_to_bytes \<lparr>ino_mode = 0x81ED, ino_size = 5000, ino_uid = 1, ino_gid = 2,
      ino_nlink = 1, ino_blocks = [9, 8, 7, 6, 5, 4, 3, 2, 1, 0], ino_indirect = 11,
      ino_double_indirect = 12, ino_crtime = 13, ino_mtime = 14, ino_atime = 15, ino_ctime = 16,
      ino_flags = 4, ino_reserved = 17\<rparr>) =
   Some \<lparr>ino_mode = 0x81ED, ino_size = 5000, ino_uid = 1, ino_gid = 2,
      ino_nlink = 1, ino_blocks = [9, 8, 7, 6, 5, 4, 3, 2, 1, 0], ino_indirect = 11,
      ino_double_indirect = 12, ino_crtime = 13, ino_mtime = 14, ino_atime = 15, ino_ctime = 0,
      ino_flags = 4, ino_reserved = 17\<rparr>"
  by (subst inode_roundtrip) (simp_all add: inode_wf_def ONYFS_DIRECT_BLKS_def)

lemma inode_from_bytes_wf: "inode_from_bytes buf = Some i \<Longrightarrow> inode_wf i"
  by (auto simp: inode_from_bytes_def inode_wf_def split: if_splits)

section \<open>Directory entry\<close>

record onyfs_dirent =
  de_name :: bytes
  de_inode :: u32
  de_dtype :: u8
  de_name_len :: u8
  de_reserved :: bytes

definition dirent_wf :: "onyfs_dirent \<Rightarrow> bool" where
  "dirent_wf d \<longleftrightarrow> length (de_name d) = ONYFS_NAME_MAX \<and> length (de_reserved d) = 2"

definition dirent_from_bytes :: "bytes \<Rightarrow> onyfs_dirent option" where
  "dirent_from_bytes buf =
     (if length buf < 40 then None
      else Some \<lparr>
        de_name = slc buf 0 ONYFS_NAME_MAX,
        de_inode = le32 (slc buf 32 36),
        de_dtype = buf ! 36,
        de_name_len = buf ! 37,
        de_reserved = [buf ! 38, buf ! 39]\<rparr>)"

definition dirent_to_bytes :: "onyfs_dirent \<Rightarrow> bytes" where
  "dirent_to_bytes d = blits 40 [
     (0, de_name d),
     (32, to_le 4 (de_inode d)),
     (36, [de_dtype d]),
     (37, [de_name_len d]),
     (38, [de_reserved d ! 0]),
     (39, [de_reserved d ! 1])]"

definition name_str :: "onyfs_dirent \<Rightarrow> bytes" where
  "name_str d =
     (let n = (if de_name_len d > 0 \<and> unat (de_name_len d) \<le> ONYFS_NAME_MAX
               then unat (de_name_len d)
               else case position (\<lambda>b. b = 0) (de_name d) of Some i \<Rightarrow> i | None \<Rightarrow> ONYFS_NAME_MAX)
      in take n (de_name d))"

lemma dirent_to_bytes_length [simp]: "dirent_wf d \<Longrightarrow> length (dirent_to_bytes d) = 40"
  by (simp add: dirent_to_bytes_def dirent_wf_def ONYFS_NAME_MAX_def length_blits_eq)

lemma list2_of_nth: "length p = 2 \<Longrightarrow> [p ! 0, p ! Suc 0] = p"
  by (rule nth_equalityI) (auto simp: less_Suc_eq numeral_eq_Suc)

lemma dirent_from_bytes_wf: "dirent_from_bytes buf = Some d \<Longrightarrow> dirent_wf d"
  by (auto simp: dirent_from_bytes_def dirent_wf_def ONYFS_NAME_MAX_def split: if_splits)

lemma dirent_decode_encode:
  "dirent_wf d \<Longrightarrow> dirent_from_bytes (dirent_to_bytes d) = Some d"
  using list2_of_nth [of "de_reserved d"]
  by (simp add: dirent_from_bytes_def dirent_to_bytes_def dirent_wf_def ONYFS_NAME_MAX_def
      slc_blits length_blits_eq nth_blits)

lemma until_nul_position:
  "until_nul xs = take (case position (\<lambda>b. b = 0) xs of Some i \<Rightarrow> i | None \<Rightarrow> length xs) xs"
proof (induction xs)
  case Nil
  then show ?case by (simp add: until_nul_def)
next
  case (Cons x xs)
  then show ?case by (cases "position (\<lambda>b. b = 0) xs") (auto simp: until_nul_def)
qed

text \<open>The stored name of an entry made for \<open>name\<close>: the name field padded with zeros and
  \<open>name_len\<close> its length. Both rules of \<open>name_str\<close> then give the name back.\<close>

definition mk_dirent :: "bytes \<Rightarrow> u32 \<Rightarrow> u8 \<Rightarrow> onyfs_dirent" where
  "mk_dirent name ino dt = \<lparr>de_name = name @ replicate (ONYFS_NAME_MAX - length name) 0,
     de_inode = ino, de_dtype = dt, de_name_len = of_nat (length name), de_reserved = [0, 0]\<rparr>"

lemma mk_dirent_wf [simp]: "length name \<le> 32 \<Longrightarrow> dirent_wf (mk_dirent name ino dt)"
  by (simp add: dirent_wf_def mk_dirent_def ONYFS_NAME_MAX_def)

lemma name_str_mk_dirent:
  assumes "length name \<le> 32" and "name \<noteq> []"
  shows "name_str (mk_dirent name ino dt) = name"
proof -
  have "unat (of_nat (length name) :: u8) = length name"
    using assms by (simp add: unat_of_nat take_bit_eq_mod)
  then show ?thesis using assms
    by (simp add: name_str_def mk_dirent_def ONYFS_NAME_MAX_def word_less_nat_alt)
qed

section \<open>Snapshot metadata\<close>

record snapshot_meta =
  sm_id :: u32
  sm_timestamp :: u64
  sm_root_inode_snapshot :: u32
  sm_block_count :: u32
  sm_name :: bytes
  sm_parent_id :: u32
  sm_flags :: u32
  sm_reserved :: "u32 list"

definition snapmeta_from_bytes :: "bytes \<Rightarrow> snapshot_meta option" where
  "snapmeta_from_bytes buf =
     (if length buf < 64 then None
      else Some \<lparr>
        sm_id = le32 (slc buf 0 4),
        sm_timestamp = le64 (slc buf 4 12),
        sm_root_inode_snapshot = le32 (slc buf 12 16),
        sm_block_count = le32 (slc buf 48 52),
        sm_name = slc buf 16 48,
        sm_parent_id = le32 (slc buf 52 56),
        sm_flags = le32 (slc buf 56 60),
        sm_reserved = replicate 4 0\<rparr>)"

definition snapmeta_to_bytes :: "snapshot_meta \<Rightarrow> bytes" where
  "snapmeta_to_bytes s = blits 64 [
     (0, to_le 4 (sm_id s)),
     (4, to_le 8 (sm_timestamp s)),
     (12, to_le 4 (sm_root_inode_snapshot s)),
     (16, sm_name s),
     (48, to_le 4 (sm_block_count s)),
     (52, to_le 4 (sm_parent_id s)),
     (56, to_le 4 (sm_flags s))]"

lemma snapmeta_to_bytes_length [simp]:
  "length (sm_name s) = 32 \<Longrightarrow> length (snapmeta_to_bytes s) = 64"
  by (simp add: snapmeta_to_bytes_def length_blits_eq)

lemma snapmeta_roundtrip:
  "length (sm_name s) = 32 \<Longrightarrow>
   snapmeta_from_bytes (snapmeta_to_bytes s) = Some (s\<lparr>sm_reserved := replicate 4 0\<rparr>)"
  by (simp add: snapmeta_from_bytes_def snapmeta_to_bytes_def slc_blits length_blits_eq)

end
