(* ===== verification/Block_Dev.thy ===== *)
theory Block_Dev
  imports Onyfs_Format
begin

text \<open>
  The state of the OnyxFS driver and its block layer: the globals of
  \<open>kernel/src/fs/onyxfs/mod.rs\<close> (\<open>G_DEV\<close>, \<open>G_LBA_BASE\<close>, \<open>G_VERSION\<close>, \<open>G_SB\<close>, the shared
  block buffer \<open>G_BUF\<close>, \<open>G_JOURNAL_HEAD\<close>), the timer tick they read, and the disk behind
  \<open>kernel/src/drivers/virtio_req.rs\<close>. A virtio request is the boundary to the hardware: request
  number \<open>n\<close> fails when \<open>faults n\<close> holds, and a failed write leaves \<open>torn n\<close> in the sector.
  A failed multi-sector read has already overwritten part of its buffer, as in the code.
  Under \<open>fs_ok\<close> (sectors of 512 bytes, no faults) reading and writing a block are the total
  functions \<open>got_blk\<close> and \<open>put_blk\<close>, and blocks are independent cells.
\<close>

record fs_state =
  fs_dev :: nat
  fs_lba_base :: u32
  fs_version :: u32
  fs_sb :: onyfs_super
  fs_buf :: bytes
  fs_jhead :: u32
  fs_jiffies :: u64
  sectors :: "nat \<Rightarrow> u64 \<Rightarrow> bytes"
  faults :: "nat \<Rightarrow> bool"
  torn :: "nat \<Rightarrow> bytes"
  reqs :: nat

type_synonym 'a fsm = "(fs_state, errno, 'a) kmonad"

definition VIRTIO_BLK_SECTOR :: nat where "VIRTIO_BLK_SECTOR = 512"

section \<open>Sector requests\<close>

definition virtio_read :: "nat \<Rightarrow> u64 \<Rightarrow> bytes fsm" where
  "virtio_read dev lba s =
     (let n = reqs s; s' = s\<lparr>reqs := n + 1\<rparr>
      in if faults s n then (Inl EIo, s') else (Inr (sectors s dev lba), s'))"

definition set_sector :: "nat \<Rightarrow> u64 \<Rightarrow> bytes \<Rightarrow> fs_state \<Rightarrow> fs_state" where
  "set_sector dev lba data s = s\<lparr>sectors := (sectors s)(dev := (sectors s dev)(lba := data))\<rparr>"

definition virtio_write :: "nat \<Rightarrow> u64 \<Rightarrow> bytes \<Rightarrow> unit fsm" where
  "virtio_write dev lba data s =
     (let n = reqs s; s' = s\<lparr>reqs := n + 1\<rparr>
      in if faults s n then (Inl EIo, set_sector dev lba (torn s n) s')
         else (Inr (), set_sector dev lba data s'))"

text \<open>The loops over consecutive sectors. \<open>read_multi_from\<close> returns the buffer as it is left
  in memory also when a request fails.\<close>

fun read_multi_from ::
  "nat \<Rightarrow> u64 \<Rightarrow> nat list \<Rightarrow> bytes \<Rightarrow> fs_state \<Rightarrow> (unit kresult \<times> bytes) \<times> fs_state" where
  "read_multi_from dev lba [] buf s = ((Inr (), buf), s)"
| "read_multi_from dev lba (i # is) buf s =
     (case virtio_read dev (lba + of_nat i) s of
        (Inl e, s') \<Rightarrow> ((Inl e, buf), s')
      | (Inr data, s') \<Rightarrow> read_multi_from dev lba is (blit buf (i * VIRTIO_BLK_SECTOR) data) s')"

definition read_multi ::
  "nat \<Rightarrow> u64 \<Rightarrow> nat \<Rightarrow> bytes \<Rightarrow> fs_state \<Rightarrow> (unit kresult \<times> bytes) \<times> fs_state" where
  "read_multi dev lba n buf s = read_multi_from dev lba [0..<n] buf s"

definition write_multi :: "nat \<Rightarrow> u64 \<Rightarrow> nat \<Rightarrow> bytes \<Rightarrow> unit fsm" where
  "write_multi dev lba n buf =
     kfor [0..<n] (\<lambda>i. virtio_write dev (lba + of_nat i)
       (slc buf (i * VIRTIO_BLK_SECTOR) (i * VIRTIO_BLK_SECTOR + VIRTIO_BLK_SECTOR)))"

section \<open>Blocks\<close>

definition block_lba :: "fs_state \<Rightarrow> u32 \<Rightarrow> u64" where
  "block_lba s blk = ucast (fs_lba_base s) + ucast blk * 8"

definition read_block :: "u32 \<Rightarrow> bytes \<Rightarrow> fs_state \<Rightarrow> (unit kresult \<times> bytes) \<times> fs_state" where
  "read_block blk buf s = read_multi (fs_dev s) (block_lba s blk) 8 buf s"

definition write_block :: "u32 \<Rightarrow> bytes \<Rightarrow> unit fsm" where
  "write_block blk buf s = write_multi (fs_dev s) (block_lba s blk) 8 buf s"

text \<open>\<open>read_gbuf\<close> reads into the global buffer, \<open>read_local\<close> into a local array (the value
  of the array afterwards is its result; on error the caller returns), and \<open>read_ignore\<close> is
  \<open>let _ = read_block(..)\<close>.\<close>

definition read_gbuf :: "u32 \<Rightarrow> unit fsm" where
  "read_gbuf blk s =
     (case read_block blk (fs_buf s) s of ((r, b), s') \<Rightarrow> (r, s'\<lparr>fs_buf := b\<rparr>))"

definition read_local :: "u32 \<Rightarrow> bytes \<Rightarrow> bytes fsm" where
  "read_local blk buf s =
     (case read_block blk buf s of ((Inl e, b), s') \<Rightarrow> (Inl e, s') | ((Inr _, b), s') \<Rightarrow> (Inr b, s'))"

definition read_ignore :: "u32 \<Rightarrow> bytes \<Rightarrow> bytes fsm" where
  "read_ignore blk buf s = (case read_block blk buf s of ((r, b), s') \<Rightarrow> (Inr b, s'))"

definition ONYFS_V1 :: u32 where "ONYFS_V1 = 1"
definition ONYFS_V2 :: u32 where "ONYFS_V2 = 2"

definition inodes_per_block :: "fs_state \<Rightarrow> nat" where
  "inodes_per_block s = (if fs_version s = ONYFS_V1 then ONYFS_BLOCK_SIZE div 64 else ONYFS_BLOCK_SIZE div 128)"

definition dirents_per_block :: "fs_state \<Rightarrow> nat" where
  "dirents_per_block s = (if fs_version s = ONYFS_V1 then ONYFS_BLOCK_SIZE div 36 else ONYFS_BLOCK_SIZE div 40)"

section \<open>The block view\<close>

definition fs_ok :: "fs_state \<Rightarrow> bool" where
  "fs_ok s \<longleftrightarrow> (\<forall>d l. length (sectors s d l) = 512) \<and> length (fs_buf s) = 4096 \<and> (\<forall>n. \<not> faults s n)"

text \<open>The contents of block \<open>b\<close>, and the states after a read into \<open>G_BUF\<close> and a write.\<close>

definition blk :: "fs_state \<Rightarrow> u32 \<Rightarrow> bytes" where
  "blk s b = concat (map (\<lambda>i. sectors s (fs_dev s) (block_lba s b + of_nat i)) [0..<8])"

definition got_blk :: "u32 \<Rightarrow> fs_state \<Rightarrow> fs_state" where
  "got_blk b s = s\<lparr>fs_buf := blk s b, reqs := reqs s + 8\<rparr>"

definition put_blk :: "u32 \<Rightarrow> bytes \<Rightarrow> fs_state \<Rightarrow> fs_state" where
  "put_blk b data s =
     (fold (\<lambda>i s. set_sector (fs_dev s) (block_lba s b + of_nat i) (slc data (i * 512) (i * 512 + 512)) s)
        [0..<8] s)\<lparr>reqs := reqs s + 8\<rparr>"

lemma upt_0_8: "[0..<8] = [0, 1, 2, 3, 4, 5, 6, 7 :: nat]"
  by code_simp

lemma set_sector_fields [simp]:
  "fs_dev (set_sector d l x s) = fs_dev s" "fs_lba_base (set_sector d l x s) = fs_lba_base s"
  "fs_version (set_sector d l x s) = fs_version s" "fs_sb (set_sector d l x s) = fs_sb s"
  "fs_buf (set_sector d l x s) = fs_buf s" "fs_jhead (set_sector d l x s) = fs_jhead s"
  "fs_jiffies (set_sector d l x s) = fs_jiffies s" "faults (set_sector d l x s) = faults s"
  "torn (set_sector d l x s) = torn s" "reqs (set_sector d l x s) = reqs s"
  "block_lba (set_sector d l x s) b = block_lba s b"
  by (simp_all add: set_sector_def block_lba_def)

lemma put_blk_fields [simp]:
  "fs_dev (put_blk b x s) = fs_dev s" "fs_lba_base (put_blk b x s) = fs_lba_base s"
  "fs_version (put_blk b x s) = fs_version s" "fs_sb (put_blk b x s) = fs_sb s"
  "fs_buf (put_blk b x s) = fs_buf s" "fs_jhead (put_blk b x s) = fs_jhead s"
  "fs_jiffies (put_blk b x s) = fs_jiffies s" "faults (put_blk b x s) = faults s"
  "block_lba (put_blk b x s) c = block_lba s c"
  by (simp_all add: put_blk_def upt_0_8 block_lba_def)

lemma got_blk_fields [simp]:
  "fs_dev (got_blk b s) = fs_dev s" "fs_lba_base (got_blk b s) = fs_lba_base s"
  "fs_version (got_blk b s) = fs_version s" "fs_sb (got_blk b s) = fs_sb s"
  "fs_buf (got_blk b s) = blk s b" "fs_jhead (got_blk b s) = fs_jhead s"
  "fs_jiffies (got_blk b s) = fs_jiffies s" "faults (got_blk b s) = faults s"
  "sectors (got_blk b s) = sectors s" "blk (got_blk b s) c = blk s c"
  "block_lba (got_blk b s) c = block_lba s c"
  by (simp_all add: got_blk_def blk_def block_lba_def)

lemma unat_block_sector:
  assumes "i < 8"
  shows "unat (block_lba s b + of_nat i) = unat (fs_lba_base s) + unat b * 8 + i"
proof -
  have "block_lba s b + of_nat i = (of_nat (unat (fs_lba_base s) + unat b * 8 + i) :: u64)"
    by (simp add: block_lba_def of_nat_unat)
  moreover have "unat (fs_lba_base s) < 2 ^ 32" "unat b < 2 ^ 32"
    using unsigned_less [where 'a = nat, of "fs_lba_base s"] unsigned_less [where 'a = nat, of b] by simp_all
  then have "unat (fs_lba_base s) + unat b * 8 + i < 2 ^ 64" using assms by simp
  ultimately show ?thesis by (simp only: unat_of_nat) simp
qed

lemma block_sector_eq_iff:
  assumes "i < 8" "j < 8"
  shows "block_lba s b + of_nat i = block_lba s c + of_nat j \<longleftrightarrow> b = c \<and> i = j"
proof
  assume "block_lba s b + of_nat i = block_lba s c + of_nat j"
  then have "unat b * 8 + i = unat c * 8 + j"
    using unat_block_sector [OF assms(1), of s b] unat_block_sector [OF assms(2), of s c] by simp
  then have "unat b = unat c \<and> i = j" using assms by presburger
  then show "b = c \<and> i = j" by (simp add: word_unat_eq_iff)
qed simp

lemma fold_set_sector_hit:
  "distinct ks \<Longrightarrow> set ks \<subseteq> {0..<8} \<Longrightarrow> j < 8 \<Longrightarrow>
   sectors (fold (\<lambda>i s. set_sector (fs_dev s) (block_lba s b + of_nat i) (f i) s) ks s) (fs_dev s) (block_lba s c + of_nat j) =
     (if c = b \<and> j \<in> set ks then f j else sectors s (fs_dev s) (block_lba s c + of_nat j))"
proof (induction ks arbitrary: s)
  case (Cons i ks)
  let ?s = "set_sector (fs_dev s) (block_lba s b + of_nat i) (f i) s"
  have "sectors ?s (fs_dev s) (block_lba s c + of_nat j) =
      (if c = b \<and> j = i then f i else sectors s (fs_dev s) (block_lba s c + of_nat j))"
    using Cons.prems block_sector_eq_iff [of j i s c b] by (auto simp: set_sector_def)
  moreover have "distinct ks" "set ks \<subseteq> {0..<8}" "i \<notin> set ks" using Cons.prems by auto
  ultimately show ?case using Cons.IH [of ?s] Cons.prems by auto
qed simp

lemma blk_length: "fs_ok s \<Longrightarrow> length (blk s b) = 4096"
  by (simp add: blk_def fs_ok_def length_concat upt_0_8)

lemma sectors_put_blk:
  "sectors (put_blk b data s) = sectors (fold (\<lambda>i s. set_sector (fs_dev s) (block_lba s b + of_nat i)
     (slc data (i * 512) (i * 512 + 512)) s) [0..<8] s)"
  by (simp add: put_blk_def)

lemma concat_slices: "concat (map (\<lambda>j. slc xs (j * k) (j * k + k)) [0..<n]) = take (n * k) xs"
  by (induction n) (simp_all add: slc_def take_add [symmetric] add.commute)

lemma blk_put:
  assumes "length data = 4096"
  shows "blk (put_blk b data s) c = (if c = b then data else blk s c)"
proof -
  have "blk (put_blk b data s) c =
      concat (map (\<lambda>j. if c = b then slc data (j * 512) (j * 512 + 512)
                       else sectors s (fs_dev s) (block_lba s c + of_nat j)) [0..<8])"
    unfolding blk_def
    by (intro arg_cong [where f = concat] map_cong refl)
      (simp add: sectors_put_blk fold_set_sector_hit)
  also have "\<dots> = (if c = b then data else blk s c)"
  proof (cases "c = b")
    case True
    have "concat (map (\<lambda>j. slc data (j * 512) (j * 512 + 512)) [0..<8]) = data"
      using assms by (simp only: concat_slices) simp
    then show ?thesis using True by simp
  qed (simp add: blk_def)
  finally show ?thesis .
qed

lemma fs_ok_put [simp]: "fs_ok s \<Longrightarrow> length data = 4096 \<Longrightarrow> fs_ok (put_blk b data s)"
  by (auto simp: fs_ok_def sectors_put_blk upt_0_8 set_sector_def)

lemma fs_ok_got [simp]: "fs_ok s \<Longrightarrow> fs_ok (got_blk b s)"
  by (auto simp: fs_ok_def blk_def length_concat upt_0_8)

lemma set_sector_reqs: "set_sector d l x (s\<lparr>reqs := n\<rparr>) = (set_sector d l x s)\<lparr>reqs := n\<rparr>"
  by (simp add: set_sector_def)

lemma fold_set_sector_reqs:
  "fold (\<lambda>i. set_sector d (l i) (g i)) ks (s\<lparr>reqs := n\<rparr>) =
   (fold (\<lambda>i. set_sector d (l i) (g i)) ks s)\<lparr>reqs := n\<rparr>"
  by (induction ks arbitrary: s) (simp_all add: set_sector_reqs)

lemma fold_set_sector_dev:
  "fs_dev s = d \<Longrightarrow> (\<And>i. block_lba s b + of_nat i = l i) \<Longrightarrow>
   fold (\<lambda>i s. set_sector (fs_dev s) (block_lba s b + of_nat i) (g i) s) ks s =
   fold (\<lambda>i. set_sector d (l i) (g i)) ks s"
  by (induction ks arbitrary: s) simp_all

lemma kfor_virtio_write:
  "(\<And>n. \<not> faults s n) \<Longrightarrow>
   kfor ks (\<lambda>i. virtio_write d (l i) (g i)) s =
     (Inr (), (fold (\<lambda>i. set_sector d (l i) (g i)) ks s)\<lparr>reqs := reqs s + length ks\<rparr>)"
proof (induction ks arbitrary: s)
  case (Cons i ks)
  have "virtio_write d (l i) (g i) s = (Inr (), set_sector d (l i) (g i) (s\<lparr>reqs := reqs s + 1\<rparr>))"
    using Cons.prems by (simp add: virtio_write_def Let_def)
  then show ?case using Cons.IH [of "set_sector d (l i) (g i) (s\<lparr>reqs := reqs s + 1\<rparr>)"] Cons.prems
    by (simp add: set_sector_reqs fold_set_sector_reqs)
qed simp

lemma write_block_ok: "fs_ok s \<Longrightarrow> write_block b data s = (Inr (), put_blk b data s)"
  by (simp add: write_block_def write_multi_def kfor_virtio_write fs_ok_def put_blk_def
      fold_set_sector_dev [where l = "\<lambda>i. block_lba s b + of_nat i"] VIRTIO_BLK_SECTOR_def)

lemma read_multi_from_ok:
  "(\<And>n. \<not> faults s n) \<Longrightarrow> read_multi_from d l ks buf s =
     ((Inr (), fold (\<lambda>i b. blit b (i * 512) (sectors s d (l + of_nat i))) ks buf), s\<lparr>reqs := reqs s + length ks\<rparr>)"
  by (induction ks arbitrary: buf s) (simp_all add: virtio_read_def Let_def VIRTIO_BLK_SECTOR_def)

lemma fold_blit_sectors:
  "(\<And>i. length (f i) = k) \<Longrightarrow> n * k \<le> length buf \<Longrightarrow>
   fold (\<lambda>i b. blit b (i * k) (f i)) [0..<n] buf = concat (map f [0..<n]) @ drop (n * k) buf"
proof (induction n)
  case (Suc n)
  then have "length (concat (map f [0..<n])) = n * k"
    by (simp add: length_concat o_def sum_list_triv)
  with Suc show ?case by (simp add: blit_def add.commute)
qed simp

lemma read_block_ok:
  assumes "fs_ok s" and "length buf = 4096"
  shows "read_block b buf s = ((Inr (), blk s b), s\<lparr>reqs := reqs s + 8\<rparr>)"
  using assms fold_blit_sectors [of "\<lambda>i. sectors s (fs_dev s) (block_lba s b + of_nat i)" 512 8 buf]
  by (simp add: read_block_def read_multi_def read_multi_from_ok fs_ok_def blk_def)

lemma read_gbuf_ok: "fs_ok s \<Longrightarrow> read_gbuf b s = (Inr (), got_blk b s)"
  by (simp add: read_gbuf_def read_block_ok got_blk_def fs_ok_def [of s])

lemma read_local_ok:
  "fs_ok s \<Longrightarrow> length buf = 4096 \<Longrightarrow> read_local b buf s = (Inr (blk s b), s\<lparr>reqs := reqs s + 8\<rparr>)"
  by (simp add: read_local_def read_block_ok)

lemma read_ignore_ok:
  "fs_ok s \<Longrightarrow> length buf = 4096 \<Longrightarrow> read_ignore b buf s = (Inr (blk s b), s\<lparr>reqs := reqs s + 8\<rparr>)"
  by (simp add: read_ignore_def read_block_ok)

text \<open>Changes of the bookkeeping fields do not affect the blocks.\<close>

lemma blk_bookkeeping [simp]:
  "blk (s\<lparr>reqs := n\<rparr>) b = blk s b" "blk (s\<lparr>fs_buf := x\<rparr>) b = blk s b"
  "blk (s\<lparr>fs_jhead := h\<rparr>) b = blk s b" "blk (s\<lparr>fs_version := v\<rparr>) b = blk s b"
  "blk (s\<lparr>fs_sb := sb\<rparr>) b = blk s b"
  by (simp_all add: blk_def block_lba_def)

lemma fs_ok_bookkeeping [simp]:
  "fs_ok (s\<lparr>reqs := n\<rparr>) = fs_ok s" "fs_ok (s\<lparr>fs_jhead := h\<rparr>) = fs_ok s"
  "fs_ok (s\<lparr>fs_version := v\<rparr>) = fs_ok s" "fs_ok (s\<lparr>fs_sb := sb\<rparr>) = fs_ok s"
  by (simp_all add: fs_ok_def)

lemma fs_ok_buf [simp]: "fs_ok s \<Longrightarrow> length x = 4096 \<Longrightarrow> fs_ok (s\<lparr>fs_buf := x\<rparr>)"
  by (simp add: fs_ok_def)

lemma fs_ok_buf_length: "fs_ok s \<Longrightarrow> length (fs_buf s) = 4096"
  by (simp add: fs_ok_def)

text \<open>The variables of the driver other than the journal head.\<close>

lemma put_blk_reqs: "put_blk b d (s\<lparr>reqs := m\<rparr>) = (put_blk b d s)\<lparr>reqs := m + 8\<rparr>"
  by (simp add: put_blk_def upt_0_8 set_sector_def block_lba_def)

definition meta :: "fs_state \<Rightarrow> nat \<times> u32 \<times> u32 \<times> onyfs_super \<times> bytes \<times> u64" where
  "meta s = (fs_dev s, fs_lba_base s, fs_version s, fs_sb s, fs_buf s, fs_jiffies s)"

lemma meta_simps [simp]:
  "meta (put_blk b d s) = meta s" "meta (s\<lparr>reqs := n\<rparr>) = meta s" "meta (s\<lparr>fs_jhead := h\<rparr>) = meta s"
  by (simp_all add: meta_def)

lemma meta_sb: "meta s' = meta s \<Longrightarrow> fs_sb s' = fs_sb s"
  by (simp add: meta_def)

section \<open>The block store interface\<close>

text \<open>What the file system relies on: blocks are independent cells. The derived lemmas describe
  a whole sequence of block writes.\<close>

locale block_store =
  fixes get :: "'s \<Rightarrow> 'k \<Rightarrow> 'v" and put :: "'k \<Rightarrow> 'v \<Rightarrow> 's \<Rightarrow> 's"
    and inv :: "'s \<Rightarrow> bool" and val :: "'v \<Rightarrow> bool"
  assumes inv_put: "inv s \<Longrightarrow> val v \<Longrightarrow> inv (put k v s)"
    and get_put: "val v \<Longrightarrow> get (put k v s) j = (if j = k then v else get s j)"
    and val_get: "inv s \<Longrightarrow> val (get s k)"
begin

lemma inv_puts:
  "inv s \<Longrightarrow> \<forall>w\<in>set ws. val (snd w) \<Longrightarrow> inv (fold (\<lambda>(k, v). put k v) ws s)"
  by (induction ws arbitrary: s) (auto simp: inv_put)

lemma get_puts:
  "\<forall>w\<in>set ws. val (snd w) \<Longrightarrow>
   get (fold (\<lambda>(k, v). put k v) ws s) j = (case map_of (rev ws) j of Some v \<Rightarrow> v | None \<Rightarrow> get s j)"
proof (induction ws arbitrary: s)
  case (Cons w ws)
  then show ?case
    by (cases w) (auto simp: get_put map_add_def split: option.splits)
qed simp

lemma get_puts_frame:
  assumes "\<forall>w\<in>set ws. val (snd w)" and "j \<notin> fst ` set ws"
  shows "get (fold (\<lambda>(k, v). put k v) ws s) j = get s j"
proof -
  have "map_of (rev ws) j = None" using assms(2) by (simp add: map_of_eq_None_iff)
  then show ?thesis using get_puts [OF assms(1), of s j] by simp
qed

end

interpretation bs: block_store blk put_blk fs_ok "\<lambda>d. length d = 4096"
  by unfold_locales (simp_all add: blk_put blk_length)

lemma kfor_write_blocks:
  "fs_ok s \<Longrightarrow> \<forall>w\<in>set ws. length (snd w) = 4096 \<Longrightarrow>
   kfor ws (\<lambda>w. write_block (fst w) (snd w)) s = (Inr (), fold (\<lambda>(k, v). put_blk k v) ws s)"
  by (induction ws arbitrary: s) (auto simp: write_block_ok)

text \<open>Under faults: whatever the device does, a block write touches no other block, and it
  fails only with \<open>Io\<close>.\<close>

lemma virtio_write_frame:
  assumes "virtio_write d l x s = (r, s')"
  shows "s' = (set_sector d l (sectors s' d l) s)\<lparr>reqs := reqs s + 1\<rparr> \<and> (r = Inr () \<or> r = Inl EIo)"
  using assms by (auto simp: virtio_write_def Let_def set_sector_def split: if_splits)

definition same_but :: "nat \<Rightarrow> u64 set \<Rightarrow> fs_state \<Rightarrow> fs_state \<Rightarrow> bool" where
  "same_but d ls s s' \<longleftrightarrow>
     (\<forall>e l. e \<noteq> d \<or> l \<notin> ls \<longrightarrow> sectors s' e l = sectors s e l) \<and>
     s' = s\<lparr>sectors := sectors s', reqs := reqs s'\<rparr>"

lemma same_but_write: "virtio_write d l x s = (r, s') \<Longrightarrow> l \<in> ls \<Longrightarrow> same_but d ls s s'"
  by (auto simp: virtio_write_def Let_def set_sector_def same_but_def split: if_splits)

lemma same_but_trans: "same_but d ls s t \<Longrightarrow> same_but d ls t u \<Longrightarrow> same_but d ls s u"
  by (cases s; cases t; cases u) (auto simp: same_but_def)

lemma kfor_virtio_write_frame:
  "kfor ks (\<lambda>i. virtio_write d (l i) (g i)) s = (r, s') \<Longrightarrow>
   same_but d (l ` set ks) s s' \<and> (r = Inr () \<or> r = Inl EIo)"
proof (induction ks arbitrary: s)
  case Nil
  then show ?case by (auto simp: same_but_def)
next
  case (Cons k ks)
  obtain q t where q: "virtio_write d (l k) (g k) s = (q, t)" by (cases "virtio_write d (l k) (g k) s")
  then have *: "same_but d (l ` set (k # ks)) s t" "q = Inr () \<or> q = Inl EIo"
    using same_but_write [OF q] virtio_write_frame [OF q] by auto
  show ?case
  proof (cases q)
    case (Inl e)
    then show ?thesis using Cons.prems q * by auto
  next
    case (Inr u)
    then have "kfor ks (\<lambda>i. virtio_write d (l i) (g i)) t = (r, s')" using Cons.prems q by simp
    then have "same_but d (l ` set ks) t s' \<and> (r = Inr () \<or> r = Inl EIo)" by (rule Cons.IH)
    moreover from this have "same_but d (l ` set (k # ks)) t s'" by (auto simp: same_but_def)
    ultimately show ?thesis using same_but_trans [OF *(1)] by blast
  qed
qed

lemma blk_same_but:
  assumes "same_but (fs_dev s) ((\<lambda>i. block_lba s b + of_nat i) ` set [0..<8]) s s'" and "c \<noteq> b"
  shows "blk s' c = blk s c"
proof -
  have e: "s' = s\<lparr>sectors := sectors s', reqs := reqs s'\<rparr>"
    using assms(1) unfolding same_but_def by blast
  have f: "fs_dev s' = fs_dev s" "block_lba s' c = block_lba s c"
    by (subst e, simp add: block_lba_def)+
  have "sectors s' (fs_dev s) (block_lba s c + of_nat j) = sectors s (fs_dev s) (block_lba s c + of_nat j)"
    if "j < 8" for j
    using assms that unfolding same_but_def
    by (metis (no_types, lifting) atLeastLessThan_iff block_sector_eq_iff imageE set_upt)
  then show ?thesis unfolding blk_def f by (intro arg_cong [where f = concat] map_cong) simp_all
qed

text \<open>C22: Block writes are contained and reported: whatever the device does, a block write changes
  no other block and none of the driver's variables, and the only error it returns is \<open>Io\<close>; on
  a device without faults it succeeds and the next read of the block returns the data written.\<close>

theorem block_write_contained:
  assumes "write_block b data s = (r, s')"
  shows "(r = Inr () \<or> r = Inl EIo) \<and> (\<forall>c. c \<noteq> b \<longrightarrow> blk s' c = blk s c) \<and>
    s' = s\<lparr>sectors := sectors s', reqs := reqs s'\<rparr> \<and>
    (fs_ok s \<and> length data = 4096 \<longrightarrow>
       r = Inr () \<and> fs_ok s' \<and> (\<exists>s''. read_gbuf b s' = (Inr (), s'') \<and> fs_buf s'' = data))"
proof -
  have "same_but (fs_dev s) ((\<lambda>i. block_lba s b + of_nat i) ` set [0..<8]) s s' \<and> (r = Inr () \<or> r = Inl EIo)"
    using assms unfolding write_block_def write_multi_def by (rule kfor_virtio_write_frame)
  moreover have "r = Inr () \<and> fs_ok s' \<and> (\<exists>s''. read_gbuf b s' = (Inr (), s'') \<and> fs_buf s'' = data)"
    if "fs_ok s" "length data = 4096"
    using that assms by (auto simp: write_block_ok read_gbuf_ok blk_put)
  ultimately show ?thesis using blk_same_but unfolding same_but_def by blast
qed

section \<open>The driver at boot\<close>

definition zero_super :: onyfs_super where
  "zero_super = \<lparr>sb_magic = 0, sb_version = 0, sb_block_size = 0, sb_total_blocks = 0,
     sb_inode_count = 0, sb_inode_table_start = 0, sb_data_bitmap_start = 0,
     sb_data_blocks_start = 0, sb_root_inode = 0, sb_snapshot_area_start = 0,
     sb_snapshot_count = 0, sb_journal_start = 0, sb_journal_size = 0, sb_feature_flags = 0,
     sb_creation_time = 0, sb_last_mount_time = 0, sb_reserved = replicate 10 0\<rparr>"

definition fs_boot :: "(nat \<Rightarrow> u64 \<Rightarrow> bytes) \<Rightarrow> fs_state" where
  "fs_boot disk = \<lparr>fs_dev = 0, fs_lba_base = 0, fs_version = 0, fs_sb = zero_super,
     fs_buf = replicate ONYFS_BLOCK_SIZE 0, fs_jhead = 0, fs_jiffies = 0, sectors = disk,
     faults = (\<lambda>_. False), torn = (\<lambda>_. []), reqs = 0\<rparr>"

definition blank_disk :: "nat \<Rightarrow> u64 \<Rightarrow> bytes" where
  "blank_disk = (\<lambda>_ _. replicate 512 0)"

lemma fs_ok_boot: "(\<And>d l. length (disk d l) = 512) \<Longrightarrow> fs_ok (fs_boot disk)"
  by (simp add: fs_ok_def fs_boot_def ONYFS_BLOCK_SIZE_def)

lemma fs_ok_blank [simp]: "fs_ok (fs_boot blank_disk)"
  by (simp add: fs_ok_boot blank_disk_def)

theorem block_write_contained_witness:
  "\<exists>s'. write_block 5 (replicate 4096 7) (fs_boot blank_disk) = (Inr (), s') \<and>
     blk s' 6 = blk (fs_boot blank_disk) 6 \<and>
     (\<exists>s''. read_gbuf 5 s' = (Inr (), s'') \<and> fs_buf s'' = replicate 4096 7)"
proof -
  obtain r s' where w: "write_block 5 (replicate 4096 7) (fs_boot blank_disk) = (r, s')" by fastforce
  show ?thesis using block_write_contained [OF w] w by simp
qed

end
