(* ===== verification/Journal.thy ===== *)
theory Journal
  imports Block_Dev
begin

text \<open>
  The redo journal (\<open>kernel/src/fs/onyxfs/journal.rs\<close>): appending \<open>block_write\<close> entries,
  the \<open>commit_end\<close> marker, and the recovery that runs at every mount. The specification is
  on journal slots as lists: \<open>commit_index\<close> is the marker recovery finds and \<open>redo\<close> the
  effect of replaying entries on one block. Theorems: recovery implements this specification
  and leaves everything else alone; after a completed transaction recovery changes no block;
  and two scenarios in which the slots that \<open>journal_commit\<close> leaves behind make a later recovery
  replay an old entry or one that was never committed.
\<close>

definition JOURNAL_TYPE_COMMIT_START :: u32 where "JOURNAL_TYPE_COMMIT_START = 0"
definition JOURNAL_TYPE_BLOCK_WRITE :: u32 where "JOURNAL_TYPE_BLOCK_WRITE = 1"
definition JOURNAL_TYPE_COMMIT_END :: u32 where "JOURNAL_TYPE_COMMIT_END = 2"
definition JOURNAL_DATA_SIZE :: nat where "JOURNAL_DATA_SIZE = ONYFS_BLOCK_SIZE - 8"

lemmas journal_consts = JOURNAL_TYPE_COMMIT_START_def JOURNAL_TYPE_BLOCK_WRITE_def
  JOURNAL_TYPE_COMMIT_END_def JOURNAL_DATA_SIZE_def ONYFS_BLOCK_SIZE_def

section \<open>Operations\<close>

definition no_journal :: "fs_state \<Rightarrow> bool" where
  "no_journal s \<longleftrightarrow> sb_journal_start (fs_sb s) = 0 \<or> sb_journal_size (fs_sb s) = 0"

definition write_entry :: "u32 \<Rightarrow> bytes \<Rightarrow> bytes" where
  "write_entry block_num data = blits ONYFS_BLOCK_SIZE [
     (0, to_le 4 JOURNAL_TYPE_BLOCK_WRITE),
     (4, to_le 4 block_num),
     (8, take (min JOURNAL_DATA_SIZE ONYFS_BLOCK_SIZE) data)]"

definition journal_log :: "u32 \<Rightarrow> bytes \<Rightarrow> unit fsm" where
  "journal_log block_num data s =
     (let journal_start = sb_journal_start (fs_sb s); head = fs_jhead s in
      if no_journal s then (Inr (), s)
      else if head \<ge> sb_journal_size (fs_sb s) then (Inl ENoSpace, s)
      else kseq (write_block (journal_start + head) (write_entry block_num data))
             (kmodify (\<lambda>s. s\<lparr>fs_jhead := head + 1\<rparr>)) s)"

definition commit_entry :: bytes where
  "commit_entry = blits ONYFS_BLOCK_SIZE [(0, to_le 4 JOURNAL_TYPE_COMMIT_END)]"

definition journal_commit :: "unit fsm" where
  "journal_commit s =
     (let journal_start = sb_journal_start (fs_sb s); head = fs_jhead s in
      if no_journal s then (Inr (), s)
      else if head = 0 then (Inr (), s)
      else kseq (kwhen (head < sb_journal_size (fs_sb s)) (write_block (journal_start + head) commit_entry))
             (kmodify (\<lambda>s. s\<lparr>fs_jhead := 0\<rparr>)) s)"

definition entry_type :: "bytes \<Rightarrow> u32" where
  "entry_type e = from_le [e ! 0, e ! 1, e ! 2, e ! 3]"

definition entry_block :: "bytes \<Rightarrow> u32" where
  "entry_block e = from_le [e ! 4, e ! 5, e ! 6, e ! 7]"

definition zero_block :: bytes where
  "zero_block = replicate ONYFS_BLOCK_SIZE 0"

text \<open>The scan over the slots \<open>0..journal_size\<close>: the index of the commit marker it stops at.
  A zeroed slot has type \<open>commit_start\<close>, so the scan passes over it.\<close>

fun journal_scan :: "u32 \<Rightarrow> nat list \<Rightarrow> bytes \<Rightarrow> nat option fsm" where
  "journal_scan journal_start [] entry = kret None"
| "journal_scan journal_start (i # is) entry =
     kbind (read_local (journal_start + of_nat i) entry) (\<lambda>e.
       let ty = entry_type e in
       if ty = JOURNAL_TYPE_COMMIT_START \<or> ty = JOURNAL_TYPE_BLOCK_WRITE
       then journal_scan journal_start is e
       else if ty = JOURNAL_TYPE_COMMIT_END then kret (Some i)
       else kret None)"

definition journal_replay :: "u32 \<Rightarrow> nat \<Rightarrow> unit fsm" where
  "journal_replay journal_start j =
     kbind (read_local (journal_start + of_nat j) zero_block) (\<lambda>e.
       if entry_type e \<noteq> JOURNAL_TYPE_BLOCK_WRITE then kret ()
       else let block_num = entry_block e in
         kbind (read_ignore block_num zero_block) (\<lambda>blk_buf.
           write_block block_num (blit blk_buf 0 (slc e 8 (8 + min JOURNAL_DATA_SIZE ONYFS_BLOCK_SIZE)))))"

definition journal_recover :: "unit fsm" where
  "journal_recover s =
     (let journal_start = sb_journal_start (fs_sb s); journal_size = sb_journal_size (fs_sb s) in
      if no_journal s then (Inr (), s)
      else kbind (journal_scan journal_start [0..<unat journal_size] zero_block) (\<lambda>found.
        case found of
          None \<Rightarrow> kmodify (\<lambda>s. s\<lparr>fs_jhead := 0\<rparr>)
        | Some commit_at \<Rightarrow>
            kseq (kfor [0..<commit_at] (journal_replay journal_start))
            (kseq (kfor [0..<commit_at + 1] (\<lambda>j. write_block (journal_start + of_nat j) zero_block))
              (kmodify (\<lambda>s. s\<lparr>fs_jhead := 0\<rparr>)))) s)"

section \<open>Specification\<close>

definition jslot :: "fs_state \<Rightarrow> nat \<Rightarrow> u32" where
  "jslot s i = sb_journal_start (fs_sb s) + of_nat i"

definition jsize :: "fs_state \<Rightarrow> nat" where
  "jsize s = unat (sb_journal_size (fs_sb s))"

definition in_journal :: "fs_state \<Rightarrow> u32 \<Rightarrow> bool" where
  "in_journal s b \<longleftrightarrow> (\<exists>i<jsize s. b = jslot s i)"

definition jslots :: "fs_state \<Rightarrow> bytes list" where
  "jslots s = map (\<lambda>i. blk s (jslot s i)) [0..<jsize s]"

fun commit_index :: "bytes list \<Rightarrow> nat option" where
  "commit_index [] = None"
| "commit_index (e # es) =
     (if entry_type e = JOURNAL_TYPE_COMMIT_START \<or> entry_type e = JOURNAL_TYPE_BLOCK_WRITE
      then map_option Suc (commit_index es)
      else if entry_type e = JOURNAL_TYPE_COMMIT_END then Some 0 else None)"

text \<open>The contents of block \<open>b\<close> after replaying the entries \<open>es\<close> in order.\<close>

definition redo1 :: "u32 \<Rightarrow> bytes \<Rightarrow> bytes \<Rightarrow> bytes" where
  "redo1 b e d =
     (if entry_type e = JOURNAL_TYPE_BLOCK_WRITE \<and> entry_block e = b then drop 8 e @ drop 4088 d else d)"

definition redo :: "bytes list \<Rightarrow> u32 \<Rightarrow> bytes \<Rightarrow> bytes" where
  "redo es b d = fold (redo1 b) es d"

text \<open>A journal is sane when no entry that recovery replays targets the journal area itself.\<close>

definition outside :: "fs_state \<Rightarrow> bytes \<Rightarrow> bool" where
  "outside s e \<longleftrightarrow> (entry_type e = JOURNAL_TYPE_BLOCK_WRITE \<longrightarrow> \<not> in_journal s (entry_block e))"

definition journal_sane :: "fs_state \<Rightarrow> bool" where
  "journal_sane s \<longleftrightarrow>
     (case commit_index (jslots s) of None \<Rightarrow> True | Some c \<Rightarrow> \<forall>e\<in>set (take c (jslots s)). outside s e)"

lemma length_zero_block [simp]: "length zero_block = 4096"
  by (simp add: zero_block_def ONYFS_BLOCK_SIZE_def)

lemma length_write_entry [simp]: "length data = 4096 \<Longrightarrow> length (write_entry b data) = 4096"
  by (simp add: write_entry_def journal_consts length_blits_eq)

lemma length_commit_entry [simp]: "length commit_entry = 4096"
  by (simp add: commit_entry_def journal_consts length_blits_eq)

lemma entry_type_slc: "length e = 4096 \<Longrightarrow> entry_type e = from_le (slc e 0 4)"
  using list4_of_nth [of e] by (simp add: entry_type_def slc_0)

lemma entry_block_slc: "length e = 4096 \<Longrightarrow> entry_block e = from_le (slc e 4 8)"
  using list4_of_nth [of "drop 4 e"] by (simp add: entry_block_def slc_def)

lemma entry_of_write [simp]:
  assumes "length data = 4096"
  shows "entry_type (write_entry b data) = JOURNAL_TYPE_BLOCK_WRITE"
    and "entry_block (write_entry b data) = b"
    and "drop 8 (write_entry b data) = take 4088 data"
proof -
  show "entry_type (write_entry b data) = JOURNAL_TYPE_BLOCK_WRITE"
    "entry_block (write_entry b data) = b"
    using assms by (simp_all add: entry_type_slc entry_block_slc)
      (simp_all add: write_entry_def slc_blits journal_consts)
  have "slc (write_entry b data) 8 4096 = take 4088 data"
    using assms by (simp add: write_entry_def slc_blits journal_consts)
  then show "drop 8 (write_entry b data) = take 4088 data" using assms by (simp add: slc_def)
qed

lemma entry_type_commit [simp]: "entry_type commit_entry = JOURNAL_TYPE_COMMIT_END"
  by (simp add: entry_type_slc) (simp add: commit_entry_def slc_blits journal_consts)

lemma entry_type_zero [simp]: "entry_type zero_block = JOURNAL_TYPE_COMMIT_START"
  by (simp add: entry_type_def zero_block_def journal_consts)

section \<open>Recovery\<close>

lemma jslot_cong: "fs_sb s' = fs_sb s \<Longrightarrow> jslot s' = jslot s \<and> jsize s' = jsize s \<and> in_journal s' = in_journal s"
  by (auto simp: jslot_def jsize_def in_journal_def fun_eq_iff)

lemma jslot_in_journal [simp]: "i < jsize s \<Longrightarrow> in_journal s (jslot s i)"
  by (auto simp: in_journal_def)

lemma jslots_cong:
  assumes "fs_sb s' = fs_sb s" and "\<And>b. in_journal s b \<Longrightarrow> blk s' b = blk s b"
  shows "jslots s' = jslots s"
  using assms(2) [OF jslot_in_journal] jslot_cong [OF assms(1)] by (simp add: jslots_def)

lemma jslot_eq_iff: "i < jsize s \<Longrightarrow> j < jsize s \<Longrightarrow> jslot s i = jslot s j \<longleftrightarrow> i = j"
proof -
  assume "i < jsize s" "j < jsize s"
  moreover have "jsize s < 2 ^ 32" using unsigned_less [where 'a = nat, of "sb_journal_size (fs_sb s)"]
    by (simp add: jsize_def)
  ultimately have "unat (of_nat i :: u32) = i" "unat (of_nat j :: u32) = j"
    by (simp_all add: unat_of_nat)
  then show ?thesis by (metis add_left_cancel jslot_def)
qed

lemma commit_index_less: "commit_index es = Some k \<Longrightarrow> k < length es"
  by (induction es arbitrary: k) (auto split: if_splits)

lemma journal_scan_ok:
  "fs_ok s \<Longrightarrow> length entry = 4096 \<Longrightarrow>
   \<exists>n. journal_scan js ks entry s =
     (Inr (map_option ((!) ks) (commit_index (map (\<lambda>i. blk s (js + of_nat i)) ks))), s\<lparr>reqs := n\<rparr>)"
proof (induction ks arbitrary: s entry)
  case Nil
  then show ?case by (auto intro: exI [of _ "reqs s"])
next
  case (Cons k ks)
  have r: "read_local (js + of_nat k) entry s = (Inr (blk s (js + of_nat k)), s\<lparr>reqs := reqs s + 8\<rparr>)"
    using Cons.prems by (rule read_local_ok)
  obtain n where "journal_scan js ks (blk s (js + of_nat k)) (s\<lparr>reqs := reqs s + 8\<rparr>) =
      (Inr (map_option ((!) ks) (commit_index (map (\<lambda>i. blk s (js + of_nat i)) ks))), s\<lparr>reqs := n\<rparr>)"
    using Cons.IH [of "s\<lparr>reqs := reqs s + 8\<rparr>" "blk s (js + of_nat k)"] Cons.prems
    by (auto simp: blk_length)
  moreover have "\<exists>m. s\<lparr>reqs := reqs s + 8\<rparr> = s\<lparr>reqs := m\<rparr>" by blast
  ultimately show ?case using r by (auto simp: Let_def option.map_comp o_def journal_consts)
qed

lemma journal_replay_ok:
  assumes "fs_ok s"
  shows "\<exists>n. journal_replay js j s =
    (Inr (), (let e = blk s (js + of_nat j) in
      if entry_type e = JOURNAL_TYPE_BLOCK_WRITE
      then put_blk (entry_block e) (drop 8 e @ drop 4088 (blk s (entry_block e))) s else s)\<lparr>reqs := n\<rparr>)"
proof -
  let ?s = "s\<lparr>reqs := reqs s + 8\<rparr>" and ?e = "blk s (js + of_nat j)"
  let ?b = "entry_block ?e"
  have r: "read_local (js + of_nat j) zero_block s = (Inr ?e, ?s)"
    using assms by (simp add: read_local_ok)
  have i: "read_ignore ?b zero_block ?s = (Inr (blk s ?b), s\<lparr>reqs := reqs s + 16\<rparr>)"
    using assms by (simp add: read_ignore_ok)
  have w: "write_block ?b d (s\<lparr>reqs := reqs s + 16\<rparr>) = (Inr (), put_blk ?b d (s\<lparr>reqs := reqs s + 16\<rparr>))" for d
    using assms by (simp add: write_block_ok)
  have p: "\<exists>n. put_blk ?b d (s\<lparr>reqs := m\<rparr>) = (put_blk ?b d s)\<lparr>reqs := n\<rparr>" for d m
    by (auto simp: put_blk_reqs)
  have d: "blit (blk s ?b) 0 (slc ?e 8 4096) = drop 8 ?e @ drop 4088 (blk s ?b)"
    using assms by (simp add: blit_def slc_def blk_length)
  show ?thesis
  proof (cases "entry_type ?e = JOURNAL_TYPE_BLOCK_WRITE")
    case True
    then have "journal_replay js j s = (Inr (), put_blk ?b (drop 8 ?e @ drop 4088 (blk s ?b)) (s\<lparr>reqs := reqs s + 16\<rparr>))"
      using r i w d by (simp add: journal_replay_def Let_def journal_consts)
    then show ?thesis using p True by (simp add: Let_def)
  next
    case False
    then show ?thesis using r by (auto simp: journal_replay_def)
  qed
qed

lemma redo_Cons: "redo (e # es) b d = redo es b (redo1 b e d)"
  by (simp add: redo_def)

lemma replay_step:
  assumes ok: "fs_ok s" and "outside s (blk s (jslot s j))"
  shows "\<exists>t. journal_replay (sb_journal_start (fs_sb s)) j s = (Inr (), t) \<and> fs_ok t \<and> meta t = meta s \<and>
    (\<forall>b. blk t b = (if in_journal s b then blk s b else redo1 b (blk s (jslot s j)) (blk s b)))"
proof -
  let ?e = "blk s (jslot s j)"
  let ?s = "if entry_type ?e = JOURNAL_TYPE_BLOCK_WRITE
      then put_blk (entry_block ?e) (drop 8 ?e @ drop 4088 (blk s (entry_block ?e))) s else s"
  obtain n where n: "journal_replay (sb_journal_start (fs_sb s)) j s = (Inr (), ?s\<lparr>reqs := n\<rparr>)"
    using journal_replay_ok [OF ok, of "sb_journal_start (fs_sb s)" j]
    unfolding Let_def jslot_def by blast
  have e: "length ?e = 4096" using ok by (rule blk_length)
  have out: "entry_type ?e = JOURNAL_TYPE_BLOCK_WRITE \<Longrightarrow> \<not> in_journal s (entry_block ?e)"
    using assms(2) by (simp add: outside_def)
  have "blk (?s\<lparr>reqs := n\<rparr>) b = (if in_journal s b then blk s b else redo1 b ?e (blk s b))" for b
    using out ok e by (auto simp: redo1_def blk_put blk_length)
  moreover have "fs_ok (?s\<lparr>reqs := n\<rparr>)" "meta (?s\<lparr>reqs := n\<rparr>) = meta s"
    using ok e by (simp_all add: blk_length)
  ultimately show ?thesis using n by blast
qed

lemma replays_ok:
  assumes "fs_ok s" and "\<forall>j\<in>set ks. j < jsize s \<and> outside s (blk s (jslot s j))"
  shows "\<exists>t. kfor ks (journal_replay (sb_journal_start (fs_sb s))) s = (Inr (), t) \<and> fs_ok t \<and>
     meta t = meta s \<and>
     (\<forall>b. blk t b = (if in_journal s b then blk s b
                       else redo (map (\<lambda>j. blk s (jslot s j)) ks) b (blk s b)))"
  using assms
proof (induction ks arbitrary: s)
  case Nil
  then show ?case by (simp add: redo_def)
next
  case (Cons j ks)
  obtain t where t: "journal_replay (sb_journal_start (fs_sb s)) j s = (Inr (), t)" "fs_ok t" "meta t = meta s"
    "\<And>b. blk t b = (if in_journal s b then blk s b else redo1 b (blk s (jslot s j)) (blk s b))"
    using replay_step [OF Cons.prems(1), of j] Cons.prems(2) by auto
  note sb = meta_sb [OF t(3)]
  note cong = jslot_cong [OF sb]
  have out: "\<forall>j\<in>set ks. j < jsize t \<and> outside t (blk t (jslot t j))"
    using t(4) Cons.prems(2) cong by (simp add: outside_def)
  have ks: "map (\<lambda>j. blk t (jslot t j)) ks = map (\<lambda>j. blk s (jslot s j)) ks"
    using t(4) Cons.prems(2) cong by simp
  obtain u where u: "kfor ks (journal_replay (sb_journal_start (fs_sb s))) t = (Inr (), u)"
    "fs_ok u" "meta u = meta t"
    "\<forall>b. blk u b = (if in_journal s b then blk t b
        else redo (map (\<lambda>j. blk s (jslot s j)) ks) b (blk t b))"
    using Cons.IH [OF t(2) out] cong sb unfolding ks by auto
  then show ?case using t by (simp add: redo_Cons)
qed

lemma clear_slots:
  assumes "fs_ok t" and "n \<le> jsize t"
  shows "\<exists>u. kfor [0..<n] (\<lambda>j. write_block (sb_journal_start (fs_sb t) + of_nat j) zero_block) t = (Inr (), u) \<and>
    fs_ok u \<and> meta u = meta t \<and> (\<forall>b. \<not> in_journal t b \<longrightarrow> blk u b = blk t b) \<and>
    (\<forall>i<jsize t. blk u (jslot t i) = (if i < n then zero_block else blk t (jslot t i)))"
  using assms(2)
proof (induction n)
  case 0
  then show ?case using assms(1) by simp
next
  case (Suc n)
  then obtain u where u: "kfor [0..<n] (\<lambda>j. write_block (sb_journal_start (fs_sb t) + of_nat j) zero_block) t = (Inr (), u)"
    "fs_ok u" "meta u = meta t" "\<forall>b. \<not> in_journal t b \<longrightarrow> blk u b = blk t b"
    "\<forall>i<jsize t. blk u (jslot t i) = (if i < n then zero_block else blk t (jslot t i))" by auto
  let ?u = "put_blk (jslot t n) zero_block u"
  have n: "n < jsize t" using Suc.prems by simp
  have "kfor [0..<Suc n] (\<lambda>j. write_block (sb_journal_start (fs_sb t) + of_nat j) zero_block) t = (Inr (), ?u)"
    using u(1,2) by (simp add: kfor_append jslot_def write_block_ok)
  moreover have "\<forall>b. \<not> in_journal t b \<longrightarrow> blk ?u b = blk t b" using u(4) n by (auto simp: blk_put)
  moreover have "blk ?u (jslot t i) = (if i < Suc n then zero_block else blk t (jslot t i))" if "i < jsize t" for i
    using u(5) that n by (auto simp: blk_put jslot_eq_iff)
  ultimately show ?case using u(2,3) by (intro exI [of _ ?u]) simp
qed

lemma take_jslots: "c \<le> jsize s \<Longrightarrow> take c (jslots s) = map (\<lambda>j. blk s (jslot s j)) [0..<c]"
  by (simp add: jslots_def take_map)

lemma recover_spec:
  assumes ok: "fs_ok s" and sane: "journal_sane s" and j: "\<not> no_journal s"
  shows "\<exists>s'. journal_recover s = (Inr (), s') \<and> fs_ok s' \<and> meta s' = meta s \<and> fs_jhead s' = 0 \<and>
    (case commit_index (jslots s) of
       None \<Rightarrow> (\<forall>b. blk s' b = blk s b)
     | Some c \<Rightarrow>
         (\<forall>b. \<not> in_journal s b \<longrightarrow> blk s' b = redo (take c (jslots s)) b (blk s b)) \<and>
         (\<forall>i<jsize s. blk s' (jslot s i) = (if i \<le> c then zero_block else blk s (jslot s i))))"
proof -
  let ?js = "sb_journal_start (fs_sb s)"
  obtain n where scan: "journal_scan ?js [0..<jsize s] zero_block s =
      (Inr (map_option ((!) [0..<jsize s]) (commit_index (jslots s))), s\<lparr>reqs := n\<rparr>)"
    using journal_scan_ok [OF ok length_zero_block, of ?js "[0..<jsize s]"] by (auto simp: jslots_def jslot_def)
  show ?thesis
  proof (cases "commit_index (jslots s)")
    case None
    then show ?thesis using scan ok j by (simp add: journal_recover_def Let_def jsize_def)
  next
    case (Some c)
    then have c: "c < jsize s" using commit_index_less by (fastforce simp: jslots_def)
    let ?s = "s\<lparr>reqs := n\<rparr>"
    have cg: "jslot ?s = jslot s" "jsize ?s = jsize s" "in_journal ?s = in_journal s"
      using jslot_cong [of ?s s] by simp_all
    have out: "\<forall>j\<in>set [0..<c]. j < jsize ?s \<and> outside ?s (blk ?s (jslot ?s j))"
      using sane Some c cg by (simp add: journal_sane_def take_jslots outside_def)
    obtain t where t: "kfor [0..<c] (journal_replay ?js) ?s = (Inr (), t)" "fs_ok t" "meta t = meta s"
      "\<And>b. blk t b = (if in_journal s b then blk s b else redo (take c (jslots s)) b (blk s b))"
      using replays_ok [of ?s "[0..<c]"] ok out c cg by (auto simp: take_jslots)
    have cg': "jslot t = jslot s" "jsize t = jsize s" "in_journal t = in_journal s"
      using jslot_cong [OF meta_sb [OF t(3)]] by simp_all
    obtain u where u: "kfor [0..<c + 1] (\<lambda>j. write_block (?js + of_nat j) zero_block) t = (Inr (), u)"
      "fs_ok u" "meta u = meta s" "\<And>b. \<not> in_journal s b \<Longrightarrow> blk u b = blk t b"
      "\<And>i. i < jsize s \<Longrightarrow> blk u (jslot s i) = (if i < c + 1 then zero_block else blk t (jslot s i))"
      using clear_slots [OF t(2), of "c + 1"] c cg' t(3) meta_sb [OF t(3)] by auto
    have "journal_recover s = (Inr (), u\<lparr>fs_jhead := 0\<rparr>)"
      using scan Some t(1) u(1) j c by (simp add: journal_recover_def Let_def jsize_def)
    then show ?thesis using Some u t(4) by (auto simp: less_Suc_eq_le)
  qed
qed

section \<open>Transactions\<close>

text \<open>The pattern of every metadata update of the driver: log the new contents, then write them;
  a whole operation is a sequence of these followed by \<open>journal_commit\<close>.\<close>

definition logged_write :: "u32 \<Rightarrow> bytes \<Rightarrow> unit fsm" where
  "logged_write b data = kseq (journal_log b data) (write_block b data)"

definition transaction :: "(u32 \<times> bytes) list \<Rightarrow> unit fsm" where
  "transaction ws = kseq (kfor ws (\<lambda>w. logged_write (fst w) (snd w))) journal_commit"

definition writes_ok :: "fs_state \<Rightarrow> (u32 \<times> bytes) list \<Rightarrow> bool" where
  "writes_ok s ws \<longleftrightarrow> (\<forall>w\<in>set ws. length (snd w) = 4096 \<and> \<not> in_journal s (fst w))"

lemma u32_suc_less: "h < (n :: u32) \<Longrightarrow> unat (h + 1) = Suc (unat h)"
  using unat_add_lem [of h 1] unsigned_less [where 'a = nat, of n] by (simp add: word_less_nat_alt)

lemma jslot_unat: "jslot s (unat h) = sb_journal_start (fs_sb s) + h"
  by (simp add: jslot_def)

lemma logged_write_ok:
  assumes ok: "fs_ok s" and j: "\<not> no_journal s" and h: "unat (fs_jhead s) < jsize s"
    and d: "length d = 4096" "\<not> in_journal s b"
  shows "\<exists>t. logged_write b d s = (Inr (), t) \<and> fs_ok t \<and> meta t = meta s \<and>
    unat (fs_jhead t) = Suc (unat (fs_jhead s)) \<and>
    (\<forall>c. blk t c = (if c = b then d else if c = jslot s (unat (fs_jhead s)) then write_entry b d else blk s c))"
proof -
  let ?h = "fs_jhead s" let ?k = "sb_journal_start (fs_sb s) + ?h"
  let ?t = "(put_blk ?k (write_entry b d) s)\<lparr>fs_jhead := ?h + 1\<rparr>"
  have lt: "?h < sb_journal_size (fs_sb s)" using h by (simp add: jsize_def word_less_nat_alt)
  have "journal_log b d s = (Inr (), ?t)"
    using ok j lt by (simp add: journal_log_def write_block_ok Let_def linorder_not_le)
  moreover have "fs_ok ?t" using ok d by simp
  ultimately have "logged_write b d s = (Inr (), put_blk b d ?t)"
    by (simp add: logged_write_def write_block_ok)
  moreover have "b \<noteq> ?k" using d(2) h jslot_unat [of s ?h] by (metis jslot_in_journal)
  ultimately show ?thesis using ok d u32_suc_less [OF lt] jslot_unat [of s ?h]
    by (auto simp: blk_put)
qed

lemma no_journal_cong: "fs_sb t = fs_sb s \<Longrightarrow> no_journal t = no_journal s"
  by (simp add: no_journal_def)

lemma writes_ok_cong: "fs_sb t = fs_sb s \<Longrightarrow> writes_ok t ws = writes_ok s ws"
  using jslot_cong [of t s] by (simp add: writes_ok_def)

lemma logged_writes_ok:
  assumes "fs_ok s" and "\<not> no_journal s" and "unat (fs_jhead s) + length ws \<le> jsize s" and "writes_ok s ws"
  shows "\<exists>t. kfor ws (\<lambda>w. logged_write (fst w) (snd w)) s = (Inr (), t) \<and> fs_ok t \<and> meta t = meta s \<and>
    unat (fs_jhead t) = unat (fs_jhead s) + length ws \<and>
    (\<forall>b. \<not> in_journal s b \<longrightarrow> blk t b = (case map_of (rev ws) b of Some d \<Rightarrow> d | None \<Rightarrow> blk s b)) \<and>
    (\<forall>i<jsize s. blk t (jslot s i) =
       (if unat (fs_jhead s) \<le> i \<and> i < unat (fs_jhead s) + length ws
        then write_entry (fst (ws ! (i - unat (fs_jhead s)))) (snd (ws ! (i - unat (fs_jhead s))))
        else blk s (jslot s i)))"
  using assms
proof (induction ws arbitrary: s)
  case Nil
  then show ?case by auto
next
  case (Cons w ws)
  obtain b d where w: "w = (b, d)" by (cases w)
  let ?h = "unat (fs_jhead s)"
  have d: "length d = 4096" "\<not> in_journal s b" using Cons.prems(4) w by (auto simp: writes_ok_def)
  obtain t where t: "logged_write b d s = (Inr (), t)" "fs_ok t" "meta t = meta s" "unat (fs_jhead t) = Suc ?h"
    "\<And>c. blk t c = (if c = b then d else if c = jslot s ?h then write_entry b d else blk s c)"
    using logged_write_ok [OF Cons.prems(1,2) _ d] Cons.prems(3) by auto
  note sb = meta_sb [OF t(3)]
  note cong = jslot_cong [OF sb, THEN conjunct1] jslot_cong [OF sb, THEN conjunct2, THEN conjunct1]
    jslot_cong [OF sb, THEN conjunct2, THEN conjunct2] no_journal_cong [OF sb] writes_ok_cong [OF sb]
  have pre: "\<not> no_journal t" "unat (fs_jhead t) + length ws \<le> jsize t" "writes_ok t ws"
    using Cons.prems(2-4) t(4) by (auto simp: cong writes_ok_def)
  obtain u where u: "kfor ws (\<lambda>w. logged_write (fst w) (snd w)) t = (Inr (), u)" "fs_ok u" "meta u = meta t"
    "unat (fs_jhead u) = Suc ?h + length ws"
    "\<And>c. \<not> in_journal s c \<Longrightarrow> blk u c = (case map_of (rev ws) c of Some d \<Rightarrow> d | None \<Rightarrow> blk t c)"
    "\<And>i. i < jsize s \<Longrightarrow> blk u (jslot s i) = (if Suc ?h \<le> i \<and> i < Suc ?h + length ws
        then write_entry (fst (ws ! (i - Suc ?h))) (snd (ws ! (i - Suc ?h))) else blk t (jslot s i))"
    using Cons.IH [OF t(2) pre] unfolding cong t(4) by blast
  have h: "?h < jsize s" using Cons.prems(3) by simp
  have "blk u c = (case map_of (rev (w # ws)) c of Some d \<Rightarrow> d | None \<Rightarrow> blk s c)" if "\<not> in_journal s c" for c
    using u(5) [OF that] t(5) [of c] that h w by (auto simp: map_add_def split: option.splits)
  moreover have "blk u (jslot s i) = (if ?h \<le> i \<and> i < ?h + length (w # ws)
        then write_entry (fst ((w # ws) ! (i - ?h))) (snd ((w # ws) ! (i - ?h))) else blk s (jslot s i))"
    if "i < jsize s" for i
  proof -
    have "jslot s i \<noteq> b" using d(2) that by auto
    then have "blk t (jslot s i) = (if i = ?h then write_entry b d else blk s (jslot s i))"
      using t(5) [of "jslot s i"] jslot_eq_iff [OF that h] by simp
    moreover have "(w # ws) ! (i - ?h) = ws ! (i - Suc ?h)" if "Suc ?h \<le> i"
      using that by (simp add: nth_Cons')
    ultimately show ?thesis using u(6) [OF that] w by (cases "i = ?h") auto
  qed
  moreover have "kfor (w # ws) (\<lambda>w. logged_write (fst w) (snd w)) s = (Inr (), u)"
    using t(1) u(1) w by simp
  ultimately show ?case using t(3) u(2-4) by (intro exI [of _ u]) simp
qed

definition after_writes :: "(u32 \<times> bytes) list \<Rightarrow> fs_state \<Rightarrow> u32 \<Rightarrow> bytes" where
  "after_writes ws s b = (case map_of (rev ws) b of Some d \<Rightarrow> d | None \<Rightarrow> blk s b)"

lemma transaction_ok:
  assumes ok: "fs_ok s" and j: "\<not> no_journal s" and h: "fs_jhead s = 0"
    and n: "ws \<noteq> []" "length ws < jsize s" and w: "writes_ok s ws"
  shows "\<exists>t. transaction ws s = (Inr (), t) \<and> fs_ok t \<and> meta t = meta s \<and> fs_jhead t = 0 \<and>
    (\<forall>b. \<not> in_journal s b \<longrightarrow> blk t b = after_writes ws s b) \<and>
    (\<forall>i<jsize s. blk t (jslot s i) =
       (if i < length ws then write_entry (fst (ws ! i)) (snd (ws ! i))
        else if i = length ws then commit_entry else blk s (jslot s i)))"
proof -
  obtain t where t: "kfor ws (\<lambda>w. logged_write (fst w) (snd w)) s = (Inr (), t)" "fs_ok t" "meta t = meta s"
    "unat (fs_jhead t) = length ws"
    "\<And>b. \<not> in_journal s b \<Longrightarrow> blk t b = after_writes ws s b"
    "\<And>i. i < jsize s \<Longrightarrow> blk t (jslot s i) =
       (if i < length ws then write_entry (fst (ws ! i)) (snd (ws ! i)) else blk s (jslot s i))"
    using logged_writes_ok [OF ok j _ w] n h unfolding after_writes_def by auto
  note sb = meta_sb [OF t(3)]
  have c: "\<not> no_journal t" using j no_journal_cong [OF sb] by simp
  have h0: "fs_jhead t \<noteq> 0" using t(4) n(1) by auto
  have lt: "fs_jhead t < sb_journal_size (fs_sb t)"
    using n(2) t(4) sb by (simp add: jsize_def word_less_nat_alt)
  have k: "sb_journal_start (fs_sb t) + fs_jhead t = jslot s (length ws)"
    using sb t(4) jslot_unat [of s "fs_jhead t"] by simp
  let ?u = "(put_blk (jslot s (length ws)) commit_entry t)\<lparr>fs_jhead := 0\<rparr>"
  have "transaction ws s = (Inr (), ?u)"
    using t(1,2) c h0 lt k by (simp add: transaction_def journal_commit_def write_block_ok kwhen_def Let_def)
  moreover have "blk ?u b = after_writes ws s b" if "\<not> in_journal s b" for b
    using t(5) [OF that] that n(2) by (auto simp: blk_put)
  moreover have "blk ?u (jslot s i) = (if i < length ws then write_entry (fst (ws ! i)) (snd (ws ! i))
        else if i = length ws then commit_entry else blk s (jslot s i))" if "i < jsize s" for i
    using t(6) [OF that] that n(2) jslot_eq_iff [of i s "length ws"] by (auto simp: blk_put)
  ultimately show ?thesis using t(2,3) by (intro exI [of _ ?u]) simp
qed

lemma commit_index_tx:
  "\<forall>e\<in>set es. entry_type e = JOURNAL_TYPE_BLOCK_WRITE \<or> entry_type e = JOURNAL_TYPE_COMMIT_START \<Longrightarrow>
   entry_type c = JOURNAL_TYPE_COMMIT_END \<Longrightarrow> commit_index (es @ c # rest) = Some (length es)"
  by (induction es) (auto simp: journal_consts)

lemma redo_entries:
  "\<forall>w\<in>set ws. length (snd w) = 4096 \<Longrightarrow> length x = 4096 \<Longrightarrow>
   redo (map (\<lambda>w. write_entry (fst w) (snd w)) ws) b x =
     (case map_of (rev ws) b of Some d \<Rightarrow> take 4088 d @ drop 4088 x | None \<Rightarrow> x)"
proof (induction ws rule: rev_induct)
  case Nil
  then show ?case by (simp add: redo_def)
next
  case (snoc w ws)
  have "redo (map (\<lambda>w. write_entry (fst w) (snd w)) (ws @ [w])) b x =
      redo1 b (write_entry (fst w) (snd w)) (redo (map (\<lambda>w. write_entry (fst w) (snd w)) ws) b x)"
    by (simp add: redo_def)
  then show ?case using snoc by (cases w) (fastforce simp: redo1_def split: option.splits dest!: map_of_SomeD)
qed

lemma jslots_tx:
  assumes "\<And>i. i < jsize s \<Longrightarrow> blk t (jslot s i) =
       (if i < length ws then write_entry (fst (ws ! i)) (snd (ws ! i))
        else if i = length ws then commit_entry else blk s (jslot s i))"
    and "fs_sb t = fs_sb s" and "length ws < jsize s"
  shows "jslots t = map (\<lambda>w. write_entry (fst w) (snd w)) ws @ commit_entry # drop (Suc (length ws)) (jslots s)"
proof (rule nth_equalityI)
  show "length (jslots t) = length (map (\<lambda>w. write_entry (fst w) (snd w)) ws @ commit_entry # drop (Suc (length ws)) (jslots s))"
    using jslot_cong [OF assms(2)] assms(3) by (simp add: jslots_def)
next
  fix i assume "i < length (jslots t)"
  then have i: "i < jsize s" using jslot_cong [OF assms(2)] by (simp add: jslots_def)
  then show "jslots t ! i =
      (map (\<lambda>w. write_entry (fst w) (snd w)) ws @ commit_entry # drop (Suc (length ws)) (jslots s)) ! i"
    using assms(1) [OF i] jslot_cong [OF assms(2)] assms(3)
    by (auto simp: jslots_def nth_append nth_Cons')
qed


lemma recover_after_tx:
  assumes ok: "fs_ok s" and j: "\<not> no_journal s" and h: "fs_jhead s = 0"
    and n: "ws \<noteq> []" "length ws < jsize s" and w: "writes_ok s ws"
  shows "\<exists>t u. transaction ws s = (Inr (), t) \<and> journal_recover t = (Inr (), u) \<and>
    fs_ok u \<and> meta u = meta s \<and> fs_jhead u = 0 \<and>
    (\<forall>b. \<not> in_journal s b \<longrightarrow> blk t b = after_writes ws s b \<and> blk u b = blk t b) \<and>
    jslots u = replicate (Suc (length ws)) zero_block @ drop (Suc (length ws)) (jslots s)"
proof -
  let ?es = "map (\<lambda>w. write_entry (fst w) (snd w)) ws"
  obtain t where t: "transaction ws s = (Inr (), t)" "fs_ok t" "meta t = meta s" "fs_jhead t = 0"
    "\<And>b. \<not> in_journal s b \<Longrightarrow> blk t b = after_writes ws s b"
    "\<And>i. i < jsize s \<Longrightarrow> blk t (jslot s i) =
       (if i < length ws then write_entry (fst (ws ! i)) (snd (ws ! i))
        else if i = length ws then commit_entry else blk s (jslot s i))"
    using transaction_ok [OF assms] by blast
  note sb = meta_sb [OF t(3)]
  note cg = jslot_cong [OF sb]
  have sl: "jslots t = ?es @ commit_entry # drop (Suc (length ws)) (jslots s)"
    using jslots_tx [OF t(6) sb n(2)] .
  have len: "\<forall>w\<in>set ws. length (snd w) = 4096" using w by (simp add: writes_ok_def)
  have ci: "commit_index (jslots t) = Some (length ws)"
    using commit_index_tx [of ?es commit_entry] len unfolding sl by simp
  have "journal_sane t"
    using w cg ci sl by (auto simp: journal_sane_def outside_def writes_ok_def)
  moreover have "\<not> no_journal t" using j no_journal_cong [OF sb] by simp
  ultimately obtain u where u: "journal_recover t = (Inr (), u)" "fs_ok u" "meta u = meta t" "fs_jhead u = 0"
    "\<And>b. \<not> in_journal s b \<Longrightarrow> blk u b = redo ?es b (blk t b)"
    "\<And>i. i < jsize s \<Longrightarrow> blk u (jslot s i) = (if i \<le> length ws then zero_block else blk t (jslot s i))"
    using recover_spec [OF t(2)] ci sl cg by fastforce
  have "blk u b = blk t b" if b: "\<not> in_journal s b" for b
  proof -
    have "length (blk t b) = 4096" using t(2) by (rule blk_length)
    then show ?thesis using u(5) [OF b] t(5) [OF b] redo_entries [OF len, of "blk t b" b]
      by (auto simp: after_writes_def split: option.splits)
  qed
  moreover have "jslots u = replicate (Suc (length ws)) zero_block @ drop (Suc (length ws)) (jslots s)"
    using u(6) t(6) n(2) jslot_cong [OF meta_sb [OF u(3)]] cg
    by (intro nth_equalityI) (auto simp: jslots_def nth_append simp del: replicate_Suc)
  ultimately show ?thesis using t u by metis
qed

lemma journal_full_wedges:
  "\<not> no_journal s \<Longrightarrow> sb_journal_size (fs_sb s) \<le> fs_jhead s \<Longrightarrow> logged_write b d s = (Inl ENoSpace, s)"
  by (simp add: logged_write_def journal_log_def Let_def)

text \<open>C2: Recovery is a correct redo of the journal up to its first commit marker. On a fault-free device, with a journal
  configured and a sane journal (the entries in front of the marker name blocks outside the journal), \<open>journal_recover\<close>
  always succeeds and resets the head. When it finds no marker, the entries of the incomplete transaction are not replayed:
  no block changes, so these entries also stay in the journal. When the first marker is in slot \<open>c\<close>, every block outside the
  journal holds the result of replaying slots \<open>0..c-1\<close> in order, the slots up to the marker are zeroed, and the slots behind
  it keep what they held. (The comments in the code promise a zeroed journal in both cases; the lemmas on stale slots below
  show what the difference leads to.)\<close>

theorem journal_recover_correct:
  assumes "fs_ok s" and "journal_sane s" and "\<not> no_journal s"
  shows "\<exists>s'. journal_recover s = (Inr (), s') \<and> fs_ok s' \<and> meta s' = meta s \<and> fs_jhead s' = 0 \<and>
    (case commit_index (jslots s) of
       None \<Rightarrow> (\<forall>b. blk s' b = blk s b)
     | Some c \<Rightarrow>
         (\<forall>b. \<not> in_journal s b \<longrightarrow> blk s' b = redo (take c (jslots s)) b (blk s b)) \<and>
         (\<forall>i<jsize s. blk s' (jslot s i) = (if i \<le> c then zero_block else blk s (jslot s i))))"
  using assms by (rule recover_spec)

text \<open>A mounted volume with an empty journal of eight blocks, for the examples.\<close>

definition demo_fs :: fs_state where
  "demo_fs = (fs_boot blank_disk)\<lparr>fs_version := 2,
     fs_sb := zero_super\<lparr>sb_journal_start := 100, sb_journal_size := 8\<rparr>\<rparr>"

lemma demo_fs_ok [simp]: "fs_ok demo_fs" "\<not> no_journal demo_fs" "fs_jhead demo_fs = 0" "jsize demo_fs = 8"
  by (simp_all add: demo_fs_def no_journal_def jsize_def) (simp add: fs_boot_def)

lemma in_journal_set: "in_journal s b \<longleftrightarrow> b \<in> set (map (jslot s) [0..<jsize s])"
  by (auto simp: in_journal_def)

lemma demo_in_journal: "in_journal demo_fs b \<longleftrightarrow> b \<in> {100, 101, 102, 103, 104, 105, 106, 107}"
  by (simp add: in_journal_set upt_0_8) (simp add: jslot_def demo_fs_def)

lemma replicate_6: "replicate 6 x = [x, x, x, x, x, x]"
  by (simp add: numeral_eq_Suc)

lemma replicate_8: "replicate 8 x = [x, x, x, x, x, x, x, x]"
  by (simp add: numeral_eq_Suc)

lemma demo_jslots: "jslots demo_fs = replicate 8 zero_block"
  by (simp add: jslots_def demo_fs_def blk_def fs_boot_def blank_disk_def zero_block_def jsize_def
      ONYFS_BLOCK_SIZE_def upt_0_8 replicate_add [symmetric] replicate_8)

text \<open>The same volume after a crash: one logged write and its marker, the block itself not written yet.\<close>

definition crash_fs :: fs_state where
  "crash_fs = put_blk 101 commit_entry (put_blk 100 (write_entry 5 (replicate 4096 7)) demo_fs)"

lemma crash_fs_ok [simp]: "fs_ok crash_fs" "\<not> no_journal crash_fs" "fs_sb crash_fs = fs_sb demo_fs"
  by (simp_all add: crash_fs_def no_journal_def) (simp add: demo_fs_def)

lemma demo_jslot: "map (jslot demo_fs) [0..<8] = [100, 101, 102, 103, 104, 105, 106, 107]"
  unfolding upt_0_8 by (simp add: jslot_def demo_fs_def)

lemma crash_blk:
  "blk crash_fs b = (if b = 101 then commit_entry else if b = 100 then write_entry 5 (replicate 4096 7) else zero_block)"
proof -
  obtain e where e: "e = write_entry 5 (replicate 4096 7)" "length e = 4096" by simp
  have "blk demo_fs b = zero_block"
    by (simp add: demo_fs_def blk_def fs_boot_def blank_disk_def zero_block_def ONYFS_BLOCK_SIZE_def upt_0_8 replicate_add [symmetric])
  then show ?thesis unfolding crash_fs_def e(1) [symmetric] using e(2) by (simp add: blk_put)
qed

lemma crash_jslots:
  "jslots crash_fs = [write_entry 5 (replicate 4096 7)] @ commit_entry # replicate 6 zero_block"
proof -
  have c: "jslot crash_fs = jslot demo_fs" "jsize crash_fs = 8" using jslot_cong [of crash_fs demo_fs] by simp_all
  have "jslots crash_fs = map (blk crash_fs) (map (jslot demo_fs) [0..<8])" by (simp add: jslots_def c)
  then show ?thesis unfolding demo_jslot replicate_6 by (simp only: list.map crash_blk) simp
qed

theorem journal_recover_correct_witness:
  "(\<exists>s'. journal_recover demo_fs = (Inr (), s') \<and> fs_jhead s' = 0 \<and> (\<forall>b. blk s' b = blk demo_fs b)) \<and>
   (\<exists>s'. journal_recover crash_fs = (Inr (), s') \<and> blk crash_fs 5 = replicate 4096 0 \<and>
      blk s' 5 = replicate 4088 7 @ replicate 8 0 \<and> blk s' 100 = zero_block \<and> blk s' 101 = zero_block)"
proof
  have "commit_index (replicate n zero_block) = None" for n
    by (induction n) simp_all
  then have c: "commit_index (jslots demo_fs) = None" by (simp add: demo_jslots)
  then have "journal_sane demo_fs" by (simp add: journal_sane_def)
  from journal_recover_correct [OF demo_fs_ok(1) this demo_fs_ok(2)] c
  show "\<exists>s'. journal_recover demo_fs = (Inr (), s') \<and> fs_jhead s' = 0 \<and> (\<forall>b. blk s' b = blk demo_fs b)" by auto
next
  have ci: "commit_index (jslots crash_fs) = Some 1" unfolding crash_jslots by (subst commit_index_tx) auto
  have cg: "jslot crash_fs = jslot demo_fs" "jsize crash_fs = 8" "in_journal crash_fs = in_journal demo_fs"
    using jslot_cong [of crash_fs demo_fs] by (simp_all add: fun_eq_iff)
  have "journal_sane crash_fs" by (simp add: journal_sane_def ci) (simp add: crash_jslots outside_def cg demo_in_journal journal_consts)
  from journal_recover_correct [OF crash_fs_ok(1) this crash_fs_ok(2)] ci obtain s' where
    s': "journal_recover crash_fs = (Inr (), s')"
    "\<forall>b. \<not> in_journal demo_fs b \<longrightarrow> blk s' b = redo (take 1 (jslots crash_fs)) b (blk crash_fs b)"
    "\<forall>i<8. blk s' (jslot demo_fs i) = (if i \<le> 1 then zero_block else blk crash_fs (jslot demo_fs i))"
    by (auto simp: cg)
  have z: "blk crash_fs 5 = replicate 4096 0" by (simp add: crash_blk zero_block_def ONYFS_BLOCK_SIZE_def)
  have "blk s' 5 = replicate 4088 7 @ replicate 8 0"
    using s'(2) z by (simp add: demo_in_journal crash_jslots redo_def redo1_def journal_consts)
  moreover have "jslot demo_fs 0 = 100" "jslot demo_fs 1 = 101" by (simp_all add: jslot_def demo_fs_def)
  then have "blk s' 100 = zero_block" "blk s' 101 = zero_block"
    using s'(3) [rule_format, of 0] s'(3) [rule_format, of 1] by simp_all
  ultimately show "\<exists>s'. journal_recover crash_fs = (Inr (), s') \<and> blk crash_fs 5 = replicate 4096 0 \<and>
      blk s' 5 = replicate 4088 7 @ replicate 8 0 \<and> blk s' 100 = zero_block \<and> blk s' 101 = zero_block"
    using s'(1) z by blast
qed

text \<open>C1: A completed transaction is durable and the next recovery is harmless. On a fault-free device, starting with
  an empty journal (head 0) that has more slots than the transaction has writes, the logged writes
  and the commit succeed, every block outside the journal then holds the last data written to it
  (or its old contents), and running recovery at the next mount leaves all these blocks as they
  are, including the last eight bytes that the journal does not store.\<close>

theorem transaction_durable:
  assumes "fs_ok s" and "\<not> no_journal s" and "fs_jhead s = 0"
    and "ws \<noteq> []" and "length ws < jsize s" and "writes_ok s ws"
  shows "\<exists>t u. transaction ws s = (Inr (), t) \<and> journal_recover t = (Inr (), u) \<and> fs_ok u \<and>
    (\<forall>b. \<not> in_journal s b \<longrightarrow> blk t b = after_writes ws s b \<and> blk u b = blk t b)"
  using recover_after_tx [OF assms] by blast

theorem transaction_durable_witness:
  "\<exists>t u. transaction [(5, replicate 4096 7), (5, replicate 4096 9)] demo_fs = (Inr (), t) \<and>
     journal_recover t = (Inr (), u) \<and> blk u 5 = replicate 4096 9 \<and> blk u 6 = blk demo_fs 6"
proof -
  have w: "writes_ok demo_fs [(5, replicate 4096 7), (5, replicate 4096 9)]"
    by (simp add: writes_ok_def demo_in_journal)
  obtain t u where tu: "transaction [(5, replicate 4096 7), (5, replicate 4096 9)] demo_fs = (Inr (), t)"
    "journal_recover t = (Inr (), u)"
    "\<forall>b. \<not> in_journal demo_fs b \<longrightarrow>
       blk t b = after_writes [(5, replicate 4096 7), (5, replicate 4096 9)] demo_fs b \<and> blk u b = blk t b"
    using transaction_durable [OF demo_fs_ok(1-3) _ _ w] by auto
  have "blk u 5 = replicate 4096 9" "blk u 6 = blk demo_fs 6"
    using tu(3) [rule_format, of 5] tu(3) [rule_format, of 6]
    by (simp_all add: demo_in_journal after_writes_def)
  then show ?thesis using tu by blast
qed

section \<open>Stale slots\<close>

text \<open>\<open>journal_commit\<close> does not clear the slots of its transaction and recovery clears only up
  to the first marker. After a long transaction and a shorter one the tail of the long one, with
  its marker, is still in the journal; the second mount finds it (the cleared slots in front of it
  read as \<open>commit_start\<close>) and replays the old entry over the newer, committed data.\<close>

theorem remount_reverts_committed_write:
  assumes ok: "fs_ok s" and j: "\<not> no_journal s" and h: "fs_jhead s = 0" and n: "3 < jsize s"
    and w: "writes_ok s [(x, dx), (y, dy), (a, old)]" and new: "length new = 4096"
  shows "\<exists>s1 s2 s3 s4. transaction [(x, dx), (y, dy), (a, old)] s = (Inr (), s1) \<and>
    transaction [(a, new)] s1 = (Inr (), s2) \<and> blk s2 a = new \<and>
    journal_recover s2 = (Inr (), s3) \<and> blk s3 a = new \<and>
    journal_recover s3 = (Inr (), s4) \<and> blk s4 a = take 4088 old @ drop 4088 new"
proof -
  let ?wa = "[(x, dx), (y, dy), (a, old)]"
  obtain s1 where s1: "transaction ?wa s = (Inr (), s1)" "fs_ok s1" "meta s1 = meta s" "fs_jhead s1 = 0"
    "\<And>i. i < jsize s \<Longrightarrow> blk s1 (jslot s i) =
       (if i < length ?wa then write_entry (fst (?wa ! i)) (snd (?wa ! i))
        else if i = length ?wa then commit_entry else blk s (jslot s i))"
    using transaction_ok [OF ok j h _ _ w] n by auto
  note sb1 = meta_sb [OF s1(3)] note cg1 = jslot_cong [OF sb1]
  have sl1: "jslots s1 = [write_entry x dx, write_entry y dy, write_entry a old, commit_entry] @ drop 4 (jslots s)"
    using jslots_tx [OF s1(5) sb1] n by (simp add: eval_nat_numeral)
  have wb: "writes_ok s1 [(a, new)]" using w new cg1 by (simp add: writes_ok_def)
  have aj: "\<not> in_journal s1 a" "length old = 4096" using w cg1 by (simp_all add: writes_ok_def)
  obtain s2 s3 where s2: "transaction [(a, new)] s1 = (Inr (), s2)" "journal_recover s2 = (Inr (), s3)"
    "fs_ok s3" "meta s3 = meta s1" "blk s2 a = new" "blk s3 a = new"
    "jslots s3 = replicate 2 zero_block @ drop 2 (jslots s1)"
    using recover_after_tx [OF s1(2) _ s1(4) _ _ wb] no_journal_cong [OF sb1] j n cg1 aj
    by (auto simp: after_writes_def numeral_2_eq_2)
  note sb3 = meta_sb [OF s2(4)] note cg3 = jslot_cong [OF sb3]
  have sl3: "jslots s3 = [zero_block, zero_block, write_entry a old] @ commit_entry # drop 4 (jslots s)"
    using s2(7) sl1 by (simp add: numeral_2_eq_2)
  have ci: "commit_index (jslots s3) = Some 3"
    unfolding sl3 using aj(2) by (subst commit_index_tx) auto
  have sane: "journal_sane s3" using ci aj cg3 by (simp add: journal_sane_def sl3 outside_def journal_consts)
  have j3: "\<not> no_journal s3" using j no_journal_cong [OF sb1] no_journal_cong [OF sb3] by simp
  obtain s4 where "journal_recover s3 = (Inr (), s4)" "blk s4 a = redo (take 3 (jslots s3)) a (blk s3 a)"
    using recover_spec [OF s2(3) sane j3] ci aj cg3 by auto
  moreover have "redo (take 3 (jslots s3)) a new = take 4088 old @ drop 4088 new"
    using aj(2) by (simp add: sl3 redo_def redo1_def journal_consts)
  ultimately show ?thesis using s1(1) s2 by auto
qed

text \<open>The marker of a transaction stays behind its entries, so it also closes the next transaction as soon as that has logged
  its first entry. A crash at that point, with nothing committed, makes recovery replay the entry all the same.\<close>

lemma incomplete_transaction_replayed:
  assumes ok: "fs_ok s" and j: "\<not> no_journal s" and h: "fs_jhead s = 0" and n: "2 < jsize s"
    and w: "writes_ok s [(x, dx), (y, dy)]" and a: "writes_ok s [(a, d)]" "a \<noteq> y"
  shows "\<exists>s1 s2 s3. transaction [(x, dx), (y, dy)] s = (Inr (), s1) \<and> journal_log a d s1 = (Inr (), s2) \<and>
    blk s2 a = blk s1 a \<and> journal_recover s2 = (Inr (), s3) \<and> blk s3 a = take 4088 d @ drop 4088 (blk s1 a)"
proof -
  let ?w = "[(x, dx), (y, dy)]"
  obtain s1 where s1: "transaction ?w s = (Inr (), s1)" "fs_ok s1" "meta s1 = meta s" "fs_jhead s1 = 0"
    "\<And>i. i < jsize s \<Longrightarrow> blk s1 (jslot s i) =
       (if i < length ?w then write_entry (fst (?w ! i)) (snd (?w ! i))
        else if i = length ?w then commit_entry else blk s (jslot s i))"
    using transaction_ok [OF ok j h _ _ w] n by auto
  note sb = meta_sb [OF s1(3)] note cg = jslot_cong [OF sb]
  have dl: "length d = 4096" "length dy = 4096" "\<not> in_journal s a" "\<not> in_journal s y" using w a by (simp_all add: writes_ok_def)
  let ?s2 = "(put_blk (jslot s 0) (write_entry a d) s1)\<lparr>fs_jhead := 1\<rparr>"
  have k: "sb_journal_start (fs_sb s1) = jslot s 0" "0 < sb_journal_size (fs_sb s1)"
    using sb n by (simp_all add: jslot_def jsize_def word_less_nat_alt)
  have "journal_log a d s1 = (Inr (), ?s2)"
    using s1(2,4) no_journal_cong [OF sb] j k by (simp add: journal_log_def write_block_ok Let_def linorder_not_le)
  moreover have ok2: "fs_ok ?s2" using s1(2) dl(1) by simp
  moreover have na: "blk ?s2 a = blk s1 a" using s1(2) dl(1,3) n by (auto simp: blk_put)
  moreover have sl: "jslots ?s2 = [write_entry a d, write_entry y dy] @ commit_entry # drop 3 (jslots s)"
  proof (rule nth_equalityI)
    have cg2: "jslot ?s2 = jslot s" "jsize ?s2 = jsize s" using jslot_cong [of ?s2 s] sb by simp_all
    show "length (jslots ?s2) = length ([write_entry a d, write_entry y dy] @ commit_entry # drop 3 (jslots s))"
      using n cg2 by (simp add: jslots_def)
    fix i assume "i < length (jslots ?s2)"
    then have i: "i < jsize s" using cg2 by (simp add: jslots_def)
    then show "jslots ?s2 ! i = ([write_entry a d, write_entry y dy] @ commit_entry # drop 3 (jslots s)) ! i"
      using s1(2) dl(1) s1(5) [OF i] cg2 n jslot_eq_iff [OF i, of 0]
      by (auto simp: jslots_def blk_put nth_append nth_Cons')
  qed
  moreover have ci: "commit_index (jslots ?s2) = Some 2"
    unfolding sl using dl by (subst commit_index_tx) auto
  moreover have ij: "in_journal ?s2 = in_journal s" using jslot_cong [of ?s2 s] sb by simp
  moreover have "journal_sane ?s2" using ci dl ij by (simp add: journal_sane_def sl outside_def journal_consts)
  moreover have "\<not> no_journal ?s2" using j sb by (simp add: no_journal_def)
  ultimately obtain s3 where "journal_recover ?s2 = (Inr (), s3)" "blk s3 a = redo (take 2 (jslots ?s2)) a (blk ?s2 a)"
    using recover_spec [of ?s2] dl(3) by auto
  moreover have "redo (take 2 (jslots ?s2)) a (blk s1 a) = take 4088 d @ drop 4088 (blk s1 a)"
    using dl a(2) by (simp add: sl redo_def redo1_def journal_consts)
  ultimately show ?thesis using s1(1) \<open>journal_log a d s1 = (Inr (), ?s2)\<close> na by auto
qed

end
