(* ===== verification/Onyfs_Alloc.thy ===== *)
theory Onyfs_Alloc
  imports Journal
begin

text \<open>
  The bitmap allocators of OnyxFS (\<open>kernel/src/fs/onyxfs/alloc/bitmap.rs\<close>) and the relation
  \<open>fs_upd\<close> in which the operations of the file system are specified: which blocks outside the
  journal an operation has written, in order, and how many journal slots it used. Theorems: an
  allocator returns the first free bit and sets exactly that bit, fails exactly when the bitmap or
  the journal is full, and no number is returned twice along a run of allocations, journal commits and failures.
\<close>

section \<open>Operations\<close>

definition clear_bit :: "u8 \<Rightarrow> nat option" where
  "clear_bit b = find (\<lambda>k. b AND push_bit k 1 = 0) [0..<8]"

fun bitmap_scan :: "nat \<Rightarrow> bytes \<Rightarrow> (nat \<times> nat) option" where
  "bitmap_scan byte_idx [] = None"
| "bitmap_scan byte_idx (b # bs) =
     (if b = 0xFF then bitmap_scan (byte_idx + 1) bs
      else case clear_bit b of Some k \<Rightarrow> Some (byte_idx, k) | None \<Rightarrow> bitmap_scan (byte_idx + 1) bs)"

definition alloc_bit :: "u32 \<Rightarrow> u32 fsm" where
  "alloc_bit bm_blk =
     kseq (read_gbuf bm_blk) (\<lambda>s.
       case bitmap_scan 0 (fs_buf s) of
         None \<Rightarrow> (Inl ENoSpace, s)
       | Some (byte_idx, k) \<Rightarrow>
           (let buf = (fs_buf s)[byte_idx := fs_buf s ! byte_idx OR push_bit k 1] in
            kseq (kmodify (\<lambda>s. s\<lparr>fs_buf := buf\<rparr>))
            (kseq (logged_write bm_blk buf)
              (kret (of_nat byte_idx * 8 + of_nat k))) s))"

definition alloc_data_block :: "u32 fsm" where
  "alloc_data_block s =
     kbind (alloc_bit (sb_data_bitmap_start (fs_sb s)))
       (\<lambda>bit_index s. (Inr (sb_data_blocks_start (fs_sb s) + bit_index), s)) s"

definition INODE_BITMAP_BLK :: u32 where "INODE_BITMAP_BLK = 1"

definition alloc_inode :: "u32 fsm" where
  "alloc_inode = kbind (alloc_bit INODE_BITMAP_BLK) (\<lambda>bit_index. kret (bit_index + 1))"

section \<open>Effects of file system operations\<close>

definition jarea :: "fs_state \<Rightarrow> u32 \<Rightarrow> bool" where
  "jarea s b \<longleftrightarrow> \<not> no_journal s \<and> in_journal s b"

definition room :: "fs_state \<Rightarrow> nat \<Rightarrow> bool" where
  "room s n \<longleftrightarrow> no_journal s \<or> unat (fs_jhead s) + n \<le> jsize s"

definition core :: "fs_state \<Rightarrow> nat \<times> u32 \<times> u32 \<times> onyfs_super \<times> u64" where
  "core s = (fs_dev s, fs_lba_base s, fs_version s, fs_sb s, fs_jiffies s)"

definition fs_upd :: "fs_state \<Rightarrow> (u32 \<times> bytes) list \<Rightarrow> nat \<Rightarrow> fs_state \<Rightarrow> bool" where
  "fs_upd s ws n t \<longleftrightarrow> fs_ok t \<and> core t = core s \<and>
     (no_journal s \<or> unat (fs_jhead t) = unat (fs_jhead s) + n) \<and>
     (\<forall>b. \<not> jarea s b \<longrightarrow> blk t b = after_writes ws s b)"

lemma core_sb: "core t = core s \<Longrightarrow>
   fs_sb t = fs_sb s \<and> fs_version t = fs_version s \<and> fs_jiffies t = fs_jiffies s"
  by (simp add: core_def)

lemma jarea_cong: "core t = core s \<Longrightarrow>
   jarea t = jarea s \<and> no_journal t = no_journal s \<and> jsize t = jsize s"
  using jslot_cong [of t s] by (simp add: core_def jarea_def no_journal_def fun_eq_iff)

lemma fs_upd_ok: "fs_upd s ws n t \<Longrightarrow> fs_ok t"
  by (simp add: fs_upd_def)

lemma fs_upd_core: "fs_upd s ws n t \<Longrightarrow> core t = core s"
  by (simp add: fs_upd_def)

lemma fs_upd_blk: "fs_upd s ws n t \<Longrightarrow> \<not> jarea s b \<Longrightarrow> blk t b = after_writes ws s b"
  by (simp add: fs_upd_def)

lemma fs_upd_room: "fs_upd s ws n t \<Longrightarrow> room s (n + m) \<Longrightarrow> room t m"
  using jarea_cong [of t s] by (auto simp: fs_upd_def room_def)

lemma after_writes_append:
  "blk t b = after_writes ws s b \<Longrightarrow> after_writes ws' t b = after_writes (ws @ ws') s b"
  by (auto simp: after_writes_def map_add_def split: option.splits)

lemma fs_upd_trans:
  assumes "fs_upd s ws n t" and "fs_upd t ws' m u"
  shows "fs_upd s (ws @ ws') (n + m) u"
proof -
  have c: "core t = core s" using assms(1) by (rule fs_upd_core)
  have "blk u b = after_writes (ws @ ws') s b" if "\<not> jarea s b" for b
    using assms jarea_cong [OF c] that after_writes_append [of t b ws s ws']
    by (auto simp: fs_upd_def)
  then show ?thesis using assms jarea_cong [OF c] by (auto simp: fs_upd_def)
qed

lemma fs_upd_refl: "fs_ok s \<Longrightarrow> fs_upd s [] 0 s"
  by (simp add: fs_upd_def after_writes_def)

lemma fs_upd_got: "fs_ok s \<Longrightarrow> fs_upd s [] 0 (got_blk b s)"
  by (simp add: fs_upd_def core_def after_writes_def)

lemma fs_upd_buf: "fs_ok s \<Longrightarrow> length x = 4096 \<Longrightarrow> fs_upd s [] 0 (s\<lparr>fs_buf := x\<rparr>)"
  by (simp add: fs_upd_def core_def after_writes_def)

lemma logged_write_upd:
  assumes "fs_ok s" and "room s 1" and "length d = 4096" and "\<not> jarea s b"
  shows "\<exists>t. logged_write b d s = (Inr (), t) \<and> fs_upd s [(b, d)] 1 t \<and> fs_buf t = fs_buf s"
proof (cases "no_journal s")
  case True
  then have "logged_write b d s = (Inr (), put_blk b d s)"
    using assms by (simp add: logged_write_def journal_log_def write_block_ok)
  then show ?thesis using True assms
    by (auto simp: fs_upd_def core_def after_writes_def blk_put)
next
  case False
  then have "unat (fs_jhead s) < jsize s" "\<not> in_journal s b" using assms(2,4)
    by (auto simp: room_def jarea_def)
  then obtain t where t: "logged_write b d s = (Inr (), t)" "fs_ok t" "meta t = meta s"
    "unat (fs_jhead t) = Suc (unat (fs_jhead s))"
    "\<And>c. blk t c = (if c = b then d else if c = jslot s (unat (fs_jhead s)) then write_entry b d else blk s c)"
    using logged_write_ok [OF assms(1) False _ assms(3)] by blast
  moreover have "jarea s (jslot s (unat (fs_jhead s)))"
    using False \<open>unat (fs_jhead s) < jsize s\<close> by (simp add: jarea_def)
  ultimately show ?thesis
    by (auto simp: fs_upd_def after_writes_def meta_def core_def)
qed

lemma buffered_write_upd:
  assumes "fs_upd s [] 0 g" and "room s 1" and "\<not> jarea s b" and "length buf = 4096"
  shows "\<exists>u. logged_write b buf (g\<lparr>fs_buf := buf\<rparr>) = (Inr (), u) \<and> fs_upd s [(b, buf)] 1 u"
proof -
  let ?h = "g\<lparr>fs_buf := buf\<rparr>"
  have h: "fs_upd s [] 0 ?h"
    using fs_upd_trans [OF assms(1) fs_upd_buf [OF fs_upd_ok [OF assms(1)] assms(4)]] by simp
  have "room ?h 1" "\<not> jarea ?h b"
    using fs_upd_room [OF h, of 1] jarea_cong [OF fs_upd_core [OF h]] assms(2,3) by simp_all
  then obtain u where u: "logged_write b buf ?h = (Inr (), u)" "fs_upd ?h [(b, buf)] 1 u"
    using logged_write_upd [OF fs_upd_ok [OF h] _ assms(4)] by blast
  then show ?thesis using fs_upd_trans [OF h u(2)] by auto
qed

lemma fs_upd_none_blk: "fs_upd s [] n u \<Longrightarrow> \<not> jarea s b \<Longrightarrow> blk u b = blk s b"
  using fs_upd_blk [of s "[]" n u b] by (simp add: after_writes_def)

text \<open>A commit changes nothing outside the journal.\<close>

definition same_fs :: "fs_state \<Rightarrow> fs_state \<Rightarrow> bool" where
  "same_fs s t \<longleftrightarrow> fs_ok t \<and> core t = core s \<and> (\<forall>b. \<not> jarea s b \<longrightarrow> blk t b = blk s b)"

lemma journal_commit_same:
  assumes "fs_ok s"
  shows "\<exists>t. journal_commit s = (Inr (), t) \<and> same_fs s t"
proof -
  let ?b = "sb_journal_start (fs_sb s) + fs_jhead s"
  consider "no_journal s" | "\<not> no_journal s" "fs_jhead s \<ge> sb_journal_size (fs_sb s)"
    | "\<not> no_journal s" "fs_jhead s < sb_journal_size (fs_sb s)" by fastforce
  then show ?thesis
  proof cases
    case 1
    then show ?thesis using assms by (simp add: journal_commit_def same_fs_def)
  next
    case 2
    then show ?thesis using assms
      by (auto simp: journal_commit_def kwhen_def same_fs_def core_def Let_def linorder_not_less)
  next
    case 3
    have "unat (fs_jhead s) < jsize s" using 3(2) by (simp add: jsize_def word_less_nat_alt)
    then have "jarea s ?b" using 3(1) jslot_in_journal [of "unat (fs_jhead s)" s]
      by (simp add: jarea_def jslot_unat)
    then show ?thesis using assms 3
      by (auto simp: journal_commit_def kwhen_def same_fs_def core_def write_block_ok Let_def blk_put)
  qed
qed

lemma logged_write_full: "\<not> room s 1 \<Longrightarrow> logged_write b d s = (Inl ENoSpace, s)"
  using journal_full_wedges [of s b d] by (auto simp: room_def jsize_def word_le_nat_alt)

lemma same_fs_refl: "fs_ok s \<Longrightarrow> same_fs s s"
  by (simp add: same_fs_def)

section \<open>The bitmap\<close>

lemma clear_bit_Some: "clear_bit b = Some k \<longleftrightarrow> k < 8 \<and> \<not> bit b k \<and> (\<forall>j<k. bit b j)"
  by (auto simp: clear_bit_def find_upt_Some and_exp_eq_0_iff_not_bit)

lemma clear_bit_None: "clear_bit b = None \<longleftrightarrow> (\<forall>k<8. bit b k)"
  by (auto simp: clear_bit_def find_upt_None and_exp_eq_0_iff_not_bit)

lemma byte_full_iff: "b = 0xFF \<longleftrightarrow> clear_bit b = None" for b :: u8
proof -
  have m: "(0xFF :: u8) = - 1" by simp
  show ?thesis unfolding m clear_bit_None by (auto intro!: bit_word_eqI)
qed

lemma bitmap_scan_bits:
  "case bitmap_scan i bs of
     None \<Rightarrow> (\<forall>n<8 * length bs. bm_bit bs n)
   | Some (j, k) \<Rightarrow> i \<le> j \<and> k < 8 \<and> j - i < length bs \<and> \<not> bm_bit bs ((j - i) * 8 + k) \<and>
       (\<forall>n<(j - i) * 8 + k. bm_bit bs n)"
proof (induction i bs rule: bitmap_scan.induct)
  case (1 i)
  then show ?case by simp
next
  case (2 i b bs)
  have shift: "bm_bit (b # bs) n = (if n < 8 then bit b n else bm_bit bs (n - 8))" for n
    by (simp add: bm_bit_def nth_Cons' div_eq_0_iff not_less le_div_geq le_mod_geq)
  show ?case
  proof (cases "clear_bit b")
    case (Some k)
    then have "b \<noteq> 0xFF" using byte_full_iff [of b] by simp
    then show ?thesis using Some clear_bit_Some [of b k] by (simp add: shift)
  next
    case None
    then have full: "\<forall>k<8. bit b k" by (simp add: clear_bit_None)
    have b: "b = 0xFF" using None byte_full_iff [of b] by simp
    then have scan: "bitmap_scan i (b # bs) = bitmap_scan (i + 1) bs" by simp
    show ?thesis
    proof (cases "bitmap_scan (i + 1) bs")
      case N: None
      then have "\<forall>n<8 * length bs. bm_bit bs n" using "2.IH"(1) [OF b] by simp
      then show ?thesis using N full unfolding scan by (simp add: shift)
    next
      case (Some p)
      obtain j k where p: "p = (j, k)" by (cases p)
      have *: "i + 1 \<le> j" "k < 8" "j - (i + 1) < length bs" "\<not> bm_bit bs ((j - (i + 1)) * 8 + k)"
        "\<forall>n<(j - (i + 1)) * 8 + k. bm_bit bs n" using "2.IH"(1) [OF b] Some p by auto
      then have "(j - i) * 8 + k = (j - (i + 1)) * 8 + k + 8" by (simp add: diff_mult_distrib)
      then show ?thesis using * full unfolding scan Some p by (auto simp: shift)
    qed
  qed
qed

lemma bitmap_scan_first:
  "bitmap_scan 0 buf = map_option (\<lambda>n. (n div 8, n mod 8)) (first_clear buf)"
proof (cases "bitmap_scan 0 buf")
  case None
  then have "first_clear buf = None" using bitmap_scan_bits [where i = 0 and bs = buf] by (simp add: first_clear_def find_upt_None)
  then show ?thesis using None by simp
next
  case (Some p)
  obtain j k where p: "p = (j, k)" by (cases p)
  then have *: "k < 8" "j < length buf" "\<not> bm_bit buf (j * 8 + k)" "\<forall>n<j * 8 + k. bm_bit buf n"
    using bitmap_scan_bits [where i = 0 and bs = buf] Some by auto
  then have "first_clear buf = Some (j * 8 + k)" by (auto simp: first_clear_def find_upt_Some)
  then show ?thesis using Some p *(1) by simp
qed

section \<open>Allocation\<close>

lemma alloc_bit_full:
  "fs_ok s \<Longrightarrow> first_clear (blk s bm) = None \<Longrightarrow> alloc_bit bm s = (Inl ENoSpace, got_blk bm s)"
  by (simp add: alloc_bit_def read_gbuf_ok bitmap_scan_first)

lemma alloc_bit_ok:
  assumes "fs_ok s" and "room s 1" and "\<not> jarea s bm" and "first_clear (blk s bm) = Some n"
  shows "\<exists>t. alloc_bit bm s = (Inr (of_nat n), t) \<and> fs_upd s [(bm, bm_put n (blk s bm))] 1 t"
proof -
  let ?g = "got_blk bm s" let ?buf = "bm_put n (blk s bm)"
  have len: "length ?buf = 4096" using assms(1) by (simp add: blk_length)
  obtain t where t: "logged_write bm ?buf (?g\<lparr>fs_buf := ?buf\<rparr>) = (Inr (), t)" "fs_upd s [(bm, ?buf)] 1 t"
    using buffered_write_upd [OF fs_upd_got assms(2,3) len] assms(1) by blast
  have "of_nat (n div 8) * 8 + of_nat (n mod 8) = (of_nat n :: u32)"
    by (metis div_mult_mod_eq of_nat_add of_nat_mult of_nat_numeral)
  then have "alloc_bit bm s = (Inr (of_nat n), t)"
    using assms(1,4) t(1) by (simp add: alloc_bit_def read_gbuf_ok bitmap_scan_first bm_put_def)
  then show ?thesis using t(2) by auto
qed

text \<open>With a full journal the allocator finds a bit but cannot log the new bitmap.\<close>

lemma alloc_bit_no_room:
  assumes "fs_ok s" and "\<not> room s 1" and "first_clear (blk s bm) = Some n"
  shows "\<exists>t. alloc_bit bm s = (Inl ENoSpace, t) \<and> fs_ok t \<and> core t = core s \<and> (\<forall>b. blk t b = blk s b)"
proof -
  let ?h = "(got_blk bm s)\<lparr>fs_buf := bm_put n (blk s bm)\<rparr>"
  have "\<not> room ?h 1" using assms(2) by (simp add: room_def no_journal_def jsize_def)
  then have "alloc_bit bm s = (Inl ENoSpace, ?h)"
    using assms(1,3) by (simp add: alloc_bit_def read_gbuf_ok bitmap_scan_first bm_put_def logged_write_full)
  then show ?thesis using assms(1) by (simp add: core_def blk_length)
qed

lemma alloc_bit_fails:
  assumes "fs_ok s" and "\<not> room s 1 \<or> first_clear (blk s bm) = None"
  shows "\<exists>t. alloc_bit bm s = (Inl ENoSpace, t) \<and> fs_ok t \<and> core t = core s \<and> (\<forall>b. blk t b = blk s b)"
  using alloc_bit_full [OF assms(1), of bm] alloc_bit_no_room [OF assms(1), of bm] assms
  by (cases "first_clear (blk s bm)") (auto simp: core_def)

text \<open>C12: The data block allocator, on a fault-free volume whose data bitmap is outside the journal. When the bitmap has a
  free bit and the journal has a free slot, it returns the block of the first free bit, and in the new bitmap exactly that
  bit is set in addition; no other block outside the journal changes. When every bit is set, and also when the journal is
  full, it fails with \<open>NoSpace\<close> and nothing on the disk changes.\<close>

theorem alloc_data_block_correct:
  assumes "fs_ok s" and "bm = sb_data_bitmap_start (fs_sb s)" and "\<not> jarea s bm"
  shows "if room s 1 \<and> (\<exists>n<32768. \<not> bm_bit (blk s bm) n)
    then \<exists>n t. alloc_data_block s = (Inr (sb_data_blocks_start (fs_sb s) + of_nat n), t) \<and>
      n < 32768 \<and> \<not> bm_bit (blk s bm) n \<and> (\<forall>m<n. bm_bit (blk s bm) m) \<and>
      (\<forall>m. bm_bit (blk t bm) m \<longleftrightarrow> m = n \<or> bm_bit (blk s bm) m) \<and>
      (\<forall>b. b \<noteq> bm \<and> \<not> jarea s b \<longrightarrow> blk t b = blk s b)
    else \<exists>t. alloc_data_block s = (Inl ENoSpace, t) \<and> (\<forall>b. blk t b = blk s b)"
proof (cases "room s 1 \<and> (\<exists>n<32768. \<not> bm_bit (blk s bm) n)")
  case False
  then have "\<not> room s 1 \<or> first_clear (blk s bm) = None" using assms(1) by (auto simp: first_clear_None blk_length)
  from alloc_bit_fails [OF assms(1) this] show ?thesis
    unfolding if_not_P [OF False] using assms(2) by (auto simp: alloc_data_block_def)
next
  case True
  then obtain n where Some: "first_clear (blk s bm) = Some n"
    using assms(1) by (cases "first_clear (blk s bm)") (auto simp: first_clear_None blk_length)
  obtain t where t: "alloc_bit bm s = (Inr (of_nat n), t)" "fs_upd s [(bm, bm_put n (blk s bm))] 1 t"
    using alloc_bit_ok [OF assms(1) _ assms(3) Some] True by blast
  have "alloc_data_block s = (Inr (sb_data_blocks_start (fs_sb s) + of_nat n), t)"
    using t core_sb [OF fs_upd_core [OF t(2)]] assms(2) by (simp add: alloc_data_block_def)
  moreover have "bm_bit (blk t bm) m \<longleftrightarrow> m = n \<or> bm_bit (blk s bm) m" for m
    using Some fs_upd_blk [OF t(2) assms(3)] bm_bit_put [of n "blk s bm"]
    by (simp add: after_writes_def first_clear_Some)
  moreover have "blk t b = blk s b" if "b \<noteq> bm" "\<not> jarea s b" for b
    using fs_upd_blk [OF t(2) that(2)] that(1) by (simp add: after_writes_def)
  ultimately show ?thesis unfolding if_P [OF True] using Some assms(1) by (auto simp: first_clear_Some blk_length)
qed

lemma demo_no_jarea: "b < 100 \<Longrightarrow> \<not> jarea demo_fs b"
  by (auto simp: jarea_def demo_in_journal)

lemma demo_blk: "blk demo_fs b = zero_block"
  by (simp add: demo_fs_def blk_def fs_boot_def blank_disk_def zero_block_def
      ONYFS_BLOCK_SIZE_def upt_0_8 replicate_add [symmetric])

theorem alloc_data_block_correct_witness:
  "\<exists>t. alloc_data_block demo_fs = (Inr 0, t) \<and> bm_bit (blk t 0) 0 \<and> \<not> bm_bit (blk t 0) 1"
proof -
  have b: "\<not> bm_bit (blk demo_fs 0) 0" by (simp add: demo_blk bm_bit_def zero_block_def ONYFS_BLOCK_SIZE_def)
  have sb: "sb_data_bitmap_start (fs_sb demo_fs) = 0" "sb_data_blocks_start (fs_sb demo_fs) = 0"
    by (simp_all add: demo_fs_def zero_super_def)
  have b1: "\<not> bm_bit (blk demo_fs 0) 1" by (simp add: demo_blk bm_bit_def zero_block_def ONYFS_BLOCK_SIZE_def)
  have r: "room demo_fs 1 \<and> (\<exists>n<32768. \<not> bm_bit (blk demo_fs 0) n)" using b by (auto simp: room_def intro!: exI [of _ 0])
  from alloc_data_block_correct [OF demo_fs_ok(1) refl, unfolded sb, OF demo_no_jarea] obtain n t where
    nt: "alloc_data_block demo_fs = (Inr (0 + of_nat n), t)" "\<forall>m<n. bm_bit (blk demo_fs 0) m"
      "\<forall>m. bm_bit (blk t 0) m \<longleftrightarrow> m = n \<or> bm_bit (blk demo_fs 0) m"
    unfolding if_P [OF r] by auto
  then have "n = 0" using b by (cases n) auto
  then show ?thesis using nt b1 by auto
qed

lemma alloc_inode_ok:
  assumes "fs_ok s" and "room s 1" and "\<not> jarea s INODE_BITMAP_BLK"
    and "first_clear (blk s INODE_BITMAP_BLK) = Some n"
  shows "\<exists>t. alloc_inode s = (Inr (of_nat n + 1), t) \<and>
    fs_upd s [(INODE_BITMAP_BLK, bm_put n (blk s INODE_BITMAP_BLK))] 1 t"
  using alloc_bit_ok [OF assms] by (auto simp: alloc_inode_def)

lemma of_nat_u32_inj: "m < 2 ^ 32 \<Longrightarrow> n < 2 ^ 32 \<Longrightarrow> (of_nat m :: u32) = of_nat n \<longleftrightarrow> m = n"
  by (auto dest!: arg_cong [where f = unat] simp: unat_of_nat)

text \<open>What may happen to a mounted volume between two inode allocations, as far as the bitmap is concerned: further allocations,
  logged writes to other blocks and commits, each of them possibly failing. \<open>vol_run\<close> returns the inodes handed out.\<close>

datatype vol_op = AllocInode | AllocBlock | LoggedWrite u32 bytes | Commit

fun vol_step :: "vol_op \<Rightarrow> fs_state \<Rightarrow> u32 list \<times> fs_state" where
  "vol_step AllocInode s = (case alloc_inode s of (Inl _, t) \<Rightarrow> ([], t) | (Inr i, t) \<Rightarrow> ([i], t))"
| "vol_step AllocBlock s = ([], snd (alloc_data_block s))"
| "vol_step (LoggedWrite b d) s = ([], snd (logged_write b d s))"
| "vol_step Commit s = ([], snd (journal_commit s))"

fun vol_run :: "vol_op list \<Rightarrow> fs_state \<Rightarrow> u32 list \<times> fs_state" where
  "vol_run [] s = ([], s)"
| "vol_run (op # ops) s = (let (is, t) = vol_step op s; (js, u) = vol_run ops t in (is @ js, u))"

fun vol_op_ok :: "fs_state \<Rightarrow> vol_op \<Rightarrow> bool" where
  "vol_op_ok s (LoggedWrite b d) \<longleftrightarrow> b \<noteq> INODE_BITMAP_BLK \<and> length d = 4096 \<and> \<not> jarea s b"
| "vol_op_ok s _ \<longleftrightarrow> True"

definition bitmaps_ok :: "fs_state \<Rightarrow> bool" where
  "bitmaps_ok s \<longleftrightarrow> fs_ok s \<and> \<not> jarea s INODE_BITMAP_BLK \<and> \<not> jarea s (sb_data_bitmap_start (fs_sb s))
     \<and> sb_data_bitmap_start (fs_sb s) \<noteq> INODE_BITMAP_BLK"

lemma bitmaps_cong: "fs_ok t \<Longrightarrow> core t = core s \<Longrightarrow> bitmaps_ok s \<Longrightarrow> bitmaps_ok t \<and> vol_op_ok t = vol_op_ok s"
proof -
  assume a: "fs_ok t" "core t = core s" "bitmaps_ok s"
  have "vol_op_ok t op = vol_op_ok s op" for op using jarea_cong [OF a(2)] by (cases op) simp_all
  then show ?thesis using a jarea_cong [OF a(2)] core_sb [OF a(2)] by (auto simp: bitmaps_ok_def)
qed

abbreviation ino_bit :: "fs_state \<Rightarrow> nat \<Rightarrow> bool" where
  "ino_bit s \<equiv> bm_bit (blk s INODE_BITMAP_BLK)"

text \<open>Every step either leaves the inode bitmap alone or hands out an inode and sets its bit.\<close>

lemma alloc_bit_step:
  assumes "fs_ok s" and "\<not> jarea s bm"
  shows "(\<exists>t. alloc_bit bm s = (Inl ENoSpace, t) \<and> fs_ok t \<and> core t = core s \<and> (\<forall>b. blk t b = blk s b)) \<or>
    (\<exists>n t. n < 32768 \<and> \<not> bm_bit (blk s bm) n \<and> alloc_bit bm s = (Inr (of_nat n), t) \<and>
       fs_ok t \<and> core t = core s \<and> (\<forall>m. bm_bit (blk t bm) m \<longleftrightarrow> m = n \<or> bm_bit (blk s bm) m) \<and>
       (\<forall>b. b \<noteq> bm \<and> \<not> jarea s b \<longrightarrow> blk t b = blk s b))"
proof (cases "room s 1 \<and> first_clear (blk s bm) \<noteq> None")
  case True
  then obtain n where n: "room s 1" "first_clear (blk s bm) = Some n" by auto
  obtain t where t: "alloc_bit bm s = (Inr (of_nat n), t)" "fs_upd s [(bm, bm_put n (blk s bm))] 1 t"
    using alloc_bit_ok [OF assms(1) n(1) assms(2) n(2)] by blast
  have "bm_bit (blk t bm) m \<longleftrightarrow> m = n \<or> bm_bit (blk s bm) m" for m
    using n(2) fs_upd_blk [OF t(2) assms(2)] bm_bit_put [of n "blk s bm"] by (simp add: after_writes_def first_clear_Some)
  moreover have "blk t b = blk s b" if "b \<noteq> bm" "\<not> jarea s b" for b
    using fs_upd_blk [OF t(2) that(2)] that(1) by (simp add: after_writes_def)
  ultimately show ?thesis
    using t fs_upd_ok [OF t(2)] fs_upd_core [OF t(2)] n(2) assms(1) by (auto simp: first_clear_Some blk_length)
qed (use alloc_bit_fails [OF assms(1)] in blast)

lemma vol_step_bits:
  assumes "bitmaps_ok s" and "vol_op_ok s op" and "vol_step op s = (is, t)"
  shows "fs_ok t \<and> core t = core s \<and> (is = [] \<and> ino_bit t = ino_bit s \<or>
    (\<exists>n<32768. is = [of_nat n + 1] \<and> \<not> ino_bit s n \<and> (\<forall>m. ino_bit t m \<longleftrightarrow> m = n \<or> ino_bit s m)))"
proof (cases op)
  case AllocInode
  from alloc_bit_step [of s INODE_BITMAP_BLK] assms show ?thesis
    unfolding AllocInode by (auto simp: bitmaps_ok_def alloc_inode_def)
next
  case AllocBlock
  let ?bm = "sb_data_bitmap_start (fs_sb s)"
  have j: "\<not> jarea s INODE_BITMAP_BLK" "INODE_BITMAP_BLK \<noteq> ?bm" using assms(1) by (auto simp: bitmaps_ok_def)
  from alloc_bit_step [of s ?bm] assms j show ?thesis
    unfolding AllocBlock by (auto simp: bitmaps_ok_def alloc_data_block_def)
next
  case (LoggedWrite b d)
  have t: "t = snd (logged_write b d s)" "is = []" and o: "b \<noteq> INODE_BITMAP_BLK" "length d = 4096" "\<not> jarea s b"
    and k: "fs_ok s" "\<not> jarea s INODE_BITMAP_BLK"
    using assms LoggedWrite by (auto simp: bitmaps_ok_def)
  show ?thesis
  proof (cases "room s 1")
    case True
    then obtain u where "logged_write b d s = (Inr (), u)" "fs_upd s [(b, d)] 1 u"
      using logged_write_upd [OF k(1) True o(2,3)] by blast
    then show ?thesis
      using t o(1) fs_upd_blk [of s "[(b, d)]" 1 u, OF _ k(2)] fs_upd_ok fs_upd_core by (auto simp: after_writes_def)
  qed (use t k in \<open>simp add: logged_write_full\<close>)
next
  case Commit
  obtain u where u: "journal_commit s = (Inr (), u)" "same_fs s u"
    using journal_commit_same [of s] assms(1) by (auto simp: bitmaps_ok_def)
  then show ?thesis using assms Commit by (auto simp: same_fs_def bitmaps_ok_def)
qed

lemma vol_run_bits:
  assumes "bitmaps_ok s" and "\<forall>op\<in>set ops. vol_op_ok s op" and "vol_run ops s = (is, t)"
  shows "distinct is \<and> (\<forall>i\<in>set is. i \<noteq> 0 \<and> \<not> ino_bit s (unat i - 1) \<and> ino_bit t (unat i - 1)) \<and>
    (\<forall>m. ino_bit s m \<longrightarrow> ino_bit t m)"
  using assms
proof (induction ops arbitrary: s "is" t)
  case (Cons op ops)
  obtain js u where js: "vol_step op s = (js, u)" by (cases "vol_step op s")
  obtain ks v where ks: "vol_run ops u = (ks, v)" by (cases "vol_run ops u")
  have eq: "is = js @ ks" "t = v" using Cons.prems(3) js ks by auto
  have st: "fs_ok u" "core u = core s" and
    bits: "js = [] \<and> ino_bit u = ino_bit s \<or>
      (\<exists>n<32768. js = [of_nat n + 1] \<and> \<not> ino_bit s n \<and> (\<forall>m. ino_bit u m \<longleftrightarrow> m = n \<or> ino_bit s m))"
    using vol_step_bits [OF Cons.prems(1) _ js] Cons.prems(2) by auto
  have "bitmaps_ok u" "\<forall>op\<in>set ops. vol_op_ok u op" using bitmaps_cong [OF st Cons.prems(1)] Cons.prems(2) by simp_all
  note IH = Cons.IH [OF this ks]
  from bits show ?case
  proof (elim disjE conjE exE)
    assume "js = []" "ino_bit u = ino_bit s"
    then show ?thesis using IH eq by simp
  next
    fix n
    assume n: "n < 32768" "js = [of_nat n + 1]" "\<not> ino_bit s n" "\<forall>m. ino_bit u m \<longleftrightarrow> m = n \<or> ino_bit s m"
    have un: "unat (of_nat n + 1 :: u32) = n + 1"
    proof -
      have "of_nat n + 1 = (of_nat (n + 1) :: u32)" by simp
      then show ?thesis using n(1) by (simp only: unat_of_nat) simp
    qed
    then have "(of_nat n + 1 :: u32) \<noteq> 0" by (metis One_nat_def add_is_0 nat.distinct(1) unat_0)
    moreover have "of_nat n + 1 \<notin> set ks" using IH n(4) un by auto
    ultimately show ?thesis using IH n un eq by auto
  qed
qed simp

text \<open>C13: Inode numbers are handed out once. Along every sequence of inode allocations, data block allocations, logged writes to
  blocks other than the inode bitmap and commits on a mounted, fault-free volume whose bitmaps are apart and outside the
  journal (whichever of these operations fail for lack of space), the inode numbers returned are all different,
  none of them is 0, each was free at the start and is marked as used at the end, and no inode in use is given back.\<close>

theorem alloc_inode_fresh:
  assumes "bitmaps_ok s" and "\<forall>op\<in>set ops. vol_op_ok s op" and "vol_run ops s = (is, t)"
  shows "distinct is \<and> 0 \<notin> set is \<and> (\<forall>i\<in>set is. \<not> ino_bit s (unat i - 1) \<and> ino_bit t (unat i - 1)) \<and>
    (\<forall>m. ino_bit s m \<longrightarrow> ino_bit t m)"
  using vol_run_bits [OF assms] by blast

text \<open>Two creations on an empty volume with a journal, the first one committed before the second begins.\<close>

definition data_fs :: fs_state where
  "data_fs = demo_fs\<lparr>fs_sb := (fs_sb demo_fs)\<lparr>sb_data_bitmap_start := 2\<rparr>\<rparr>"

lemma journal_commit_room:
  assumes "fs_ok s" and "journal_commit s = (Inr (), t)" and "n \<le> jsize s"
  shows "room t n"
proof (cases "no_journal s \<or> fs_jhead s = 0")
  case True
  then have "t = s" using assms(2) by (auto simp: journal_commit_def Let_def split: if_splits)
  then show ?thesis using True assms(3) by (auto simp: room_def)
next
  case False
  then have "fs_jhead t = 0" "fs_sb t = fs_sb s"
    using assms(1,2) by (auto simp: journal_commit_def Let_def kwhen_def write_block_ok split: if_splits)
  then show ?thesis using assms(3) jslot_cong [of t s] by (simp add: room_def)
qed

lemma data_fs_ok:
  "jarea data_fs = jarea demo_fs" "fs_ok data_fs" "jsize data_fs = 8" "fs_jhead data_fs = 0" "blk data_fs b = zero_block"
  using demo_fs_ok demo_blk jslot_cong [of data_fs demo_fs]
  by (simp_all add: data_fs_def jarea_def no_journal_def in_journal_def jslot_def jsize_def fun_eq_iff)

theorem alloc_inode_fresh_witness:
  "\<exists>i j t. vol_run [AllocInode, LoggedWrite 5 (replicate 4096 1), Commit, AllocInode] data_fs = ([i, j], t) \<and> i \<noteq> j"
proof -
  let ?bm = INODE_BITMAP_BLK and ?ops = "[AllocInode, LoggedWrite 5 (replicate 4096 1), Commit, AllocInode]"
  have j: "\<not> jarea data_fs ?bm" "\<not> jarea data_fs 5" "\<not> jarea data_fs 2"
    using demo_no_jarea by (simp_all add: data_fs_ok(1) INODE_BITMAP_BLK_def)
  have ok: "bitmaps_ok data_fs" "\<forall>op\<in>set ?ops. vol_op_ok data_fs op"
    using j data_fs_ok(2) by (simp_all add: bitmaps_ok_def) (simp_all add: data_fs_def INODE_BITMAP_BLK_def)
  have z: "\<not> bm_bit zero_block n" if "n < 32768" for n
    using that by (simp add: bm_bit_def zero_block_def ONYFS_BLOCK_SIZE_def div_less_iff_less_mult)
  have "first_clear (blk data_fs ?bm) = Some 0" by (simp add: data_fs_ok(5) first_clear_Some z)
  then obtain t where t: "alloc_inode data_fs = (Inr 1, t)" "fs_upd data_fs [(?bm, bm_put 0 zero_block)] 1 t"
    using alloc_inode_ok [OF data_fs_ok(2) _ j(1)] by (auto simp: room_def data_fs_ok)
  note ct = fs_upd_core [OF t(2)]
  have "room t 1" using fs_upd_room [OF t(2), of 1] by (simp add: room_def data_fs_ok)
  then obtain u where u: "logged_write 5 (replicate 4096 1) t = (Inr (), u)" "fs_upd t [(5, replicate 4096 1)] 1 u"
    using logged_write_upd [OF fs_upd_ok [OF t(2)], of "replicate 4096 1" 5] jarea_cong [OF ct] j(2) by auto
  note cu = fs_upd_core [OF u(2)]
  obtain v where v: "journal_commit u = (Inr (), v)" "same_fs u v" using journal_commit_same [OF fs_upd_ok [OF u(2)]] by blast
  have jv: "\<not> jarea u ?bm" "\<not> jarea v ?bm" "jsize u = 8"
    using v(2) jarea_cong [OF ct] jarea_cong [OF cu] jarea_cong [of v u] j(1) data_fs_ok(3) by (simp_all add: same_fs_def)
  have bv: "blk v ?bm = bm_put 0 zero_block"
    using v(2) jv fs_upd_blk [OF u(2), of ?bm] fs_upd_blk [OF t(2) j(1)] jarea_cong [OF ct] j(1)
    by (simp add: same_fs_def after_writes_def INODE_BITMAP_BLK_def)
  have "first_clear (blk v ?bm) = Some 1" by (simp add: bv first_clear_Some bm_bit_put z)
  moreover have "room v 1" using journal_commit_room [OF fs_upd_ok [OF u(2)] v(1), of 1] jv(3) by simp
  ultimately obtain w where w: "alloc_inode v = (Inr 2, w)"
    using alloc_inode_ok [of v 1] v(2) jv(2) by (auto simp: same_fs_def)
  have run: "vol_run ?ops data_fs = ([1, 2], w)" using t(1) u(1) v(1) w by simp
  then show ?thesis using alloc_inode_fresh [OF ok run] by auto
qed

end
