(* ===== verification/Onyfs_Inode.thy ===== *)
theory Onyfs_Inode
  imports Onyfs_Alloc
begin

text \<open>
  The inode table (\<open>kernel/src/fs/onyxfs/inode/read.rs\<close>, \<open>write.rs\<close>): reading an inode in
  both on-disk versions, \<open>stat\<close>, writing an inode back under the journal, and the timestamp
  updates. Every access goes through the shared buffer \<open>G_BUF\<close>. The theorem is the table as an
  array: an inode written is the one read back, and all other inodes keep their contents, also
  those in the same block.
\<close>

section \<open>Operations\<close>

record onyfs_stat =
  st_ino :: u32
  st_size :: u64
  st_mode :: u32
  st_mtime :: u64
  st_atime :: u64
  st_ctime :: u64

text \<open>The 64-byte inode of version 1.\<close>

definition inode_from_v1 :: "bytes \<Rightarrow> onyfs_inode" where
  "inode_from_v1 s = \<lparr>
     ino_mode = from_le [s ! 0, s ! 1, s ! 2, s ! 3],
     ino_size = ucast (from_le [s ! 4, s ! 5, s ! 6, s ! 7] :: u32),
     ino_uid = 0, ino_gid = 0, ino_nlink = 0,
     ino_blocks = map (\<lambda>i. let o1 = 8 + i * 4 in from_le [s ! o1, s ! (o1 + 1), s ! (o1 + 2), s ! (o1 + 3)])
       [0..<ONYFS_DIRECT_BLKS],
     ino_indirect = from_le [s ! 48, s ! 49, s ! 50, s ! 51],
     ino_double_indirect = 0, ino_crtime = 0, ino_mtime = 0, ino_atime = 0, ino_ctime = 0,
     ino_flags = 0, ino_reserved = 0\<rparr>"

definition inode_idx :: "u32 \<Rightarrow> nat" where
  "inode_idx ino = unat ino - 1"

definition iblk :: "fs_state \<Rightarrow> u32 \<Rightarrow> u32" where
  "iblk s ino = sb_inode_table_start (fs_sb s) + of_nat (inode_idx ino div inodes_per_block s)"

definition read_inode :: "u32 \<Rightarrow> onyfs_inode fsm" where
  "read_inode ino s =
     (let ipb = inodes_per_block s;
          idx = inode_idx ino;
          blk = of_nat (unat (sb_inode_table_start (fs_sb s)) + idx div ipb);
          slot = idx mod ipb
      in kseq (read_gbuf blk) (\<lambda>s.
           if fs_version s = ONYFS_V1 then
             (let off = slot * 64 in
              if off + 64 > ONYFS_BLOCK_SIZE then (Inl EInval, s)
              else (Inr (inode_from_v1 (slc (fs_buf s) off (off + 64))), s))
           else
             (let off = slot * 128 in
              if off + 128 > ONYFS_BLOCK_SIZE then (Inl EInval, s)
              else case inode_from_bytes (slc (fs_buf s) off (off + 128)) of
                     None \<Rightarrow> (Inl EIo, s) | Some i \<Rightarrow> (Inr i, s))) s)"

definition stat :: "u32 \<Rightarrow> onyfs_stat fsm" where
  "stat ino = kbind (read_inode ino) (\<lambda>i. kret \<lparr>st_ino = ino, st_size = ino_size i,
     st_mode = ino_mode i, st_mtime = ino_mtime i, st_atime = ino_atime i, st_ctime = ino_ctime i\<rparr>)"

definition write_inode :: "u32 \<Rightarrow> onyfs_inode \<Rightarrow> unit fsm" where
  "write_inode ino inode s =
     (if fs_version s = ONYFS_V1 then (Inl ENoSys, s)
      else let ipb = inodes_per_block s;
               idx = inode_idx ino;
               blk = sb_inode_table_start (fs_sb s) + of_nat (idx div ipb);
               slot = idx mod ipb
           in kseq (read_gbuf blk) (\<lambda>s.
                let buf = blit (fs_buf s) (slot * 128) (take 128 (inode_to_bytes inode)) in
                kseq (kmodify (\<lambda>s. s\<lparr>fs_buf := buf\<rparr>)) (logged_write blk buf) s) s)"

definition update_mtime :: "u32 \<Rightarrow> unit fsm" where
  "update_mtime ino = kbind (read_inode ino) (\<lambda>inode s.
     write_inode ino (inode\<lparr>ino_mtime := fs_jiffies s\<rparr>) s)"

definition set_timestamps :: "u32 \<Rightarrow> u64 \<Rightarrow> u64 \<Rightarrow> unit fsm" where
  "set_timestamps ino mtime atime s =
     (if fs_version s = ONYFS_V1 then (Inl ENoSys, s)
      else kbind (read_inode ino) (\<lambda>inode.
        write_inode ino (inode\<lparr>ino_mtime := mtime, ino_atime := atime\<rparr>)) s)"

section \<open>The table as an array\<close>

definition islot :: "u32 \<Rightarrow> nat" where
  "islot ino = inode_idx ino mod 32"

definition inode_at :: "fs_state \<Rightarrow> u32 \<Rightarrow> onyfs_inode" where
  "inode_at s ino =
     the (inode_from_bytes (slc (blk s (iblk s ino)) (islot ino * 128) (islot ino * 128 + 128)))"

lemma ipb_v2: "fs_version s \<noteq> ONYFS_V1 \<Longrightarrow> inodes_per_block s = 32"
  by (simp add: inodes_per_block_def ONYFS_BLOCK_SIZE_def)

lemma islot_less: "islot ino < 32"
  by (simp add: islot_def)

lemma inode_from_bytes_128: "length b = 128 \<Longrightarrow> \<exists>i. inode_from_bytes b = Some i"
  by (simp add: inode_from_bytes_def)

lemma iblk_cong: "core t = core s \<Longrightarrow> iblk t = iblk s"
  by (simp add: core_def iblk_def inodes_per_block_def fun_eq_iff)

lemma inode_at_cong:
  "core t = core s \<Longrightarrow> blk t (iblk s ino) = blk s (iblk s ino) \<Longrightarrow> inode_at t ino = inode_at s ino"
  using iblk_cong [of t s] by (simp add: inode_at_def)

lemma inode_slice_Some:
  assumes "fs_ok s"
  shows "inode_from_bytes (slc (blk s (iblk s ino)) (islot ino * 128) (islot ino * 128 + 128)) =
    Some (inode_at s ino)"
proof -
  have "length (slc (blk s (iblk s ino)) (islot ino * 128) (islot ino * 128 + 128)) = 128"
    using assms islot_less [of ino] by (simp add: blk_length)
  from inode_from_bytes_128 [OF this] show ?thesis by (auto simp: inode_at_def)
qed

lemma inode_at_wf: "fs_ok s \<Longrightarrow> inode_wf (inode_at s ino)"
  using inode_slice_Some inode_from_bytes_wf by blast

lemma read_inode_ok:
  assumes "fs_ok s" and "fs_version s \<noteq> ONYFS_V1"
  shows "read_inode ino s = (Inr (inode_at s ino), got_blk (iblk s ino) s)"
proof -
  have b: "of_nat (unat (sb_inode_table_start (fs_sb s)) + inode_idx ino div 32) = iblk s ino"
    using assms(2) by (simp add: iblk_def ipb_v2)
  have "islot ino * 128 + 128 \<le> 4096" using islot_less [of ino] by simp
  then show ?thesis
    using assms inode_slice_Some [OF assms(1), of ino] unfolding read_inode_def Let_def ipb_v2 [OF assms(2)] b
    by (simp add: read_gbuf_ok islot_def ONYFS_BLOCK_SIZE_def)
qed

lemma write_inode_ok:
  assumes "fs_ok s" and "fs_version s \<noteq> ONYFS_V1" and "room s 1" and "\<not> jarea s (iblk s ino)"
    and "inode_wf i"
  shows "\<exists>t. write_inode ino i s = (Inr (), t) \<and>
    fs_upd s [(iblk s ino, blit (blk s (iblk s ino)) (islot ino * 128) (inode_to_bytes i))] 1 t"
proof -
  let ?b = "iblk s ino"
  let ?buf = "blit (blk s ?b) (islot ino * 128) (inode_to_bytes i)"
  have len: "length ?buf = 4096"
    using assms(1,5) islot_less [of ino] by (subst length_blit) (simp_all add: blk_length)
  obtain t where t: "logged_write ?b ?buf ((got_blk ?b s)\<lparr>fs_buf := ?buf\<rparr>) = (Inr (), t)"
    "fs_upd s [(?b, ?buf)] 1 t"
    using buffered_write_upd [OF fs_upd_got assms(3,4) len] assms(1) by blast
  have "write_inode ino i s = (Inr (), t)"
    using assms(1,2,5) t(1) by (simp add: write_inode_def Let_def ipb_v2 read_gbuf_ok iblk_def islot_def)
  then show ?thesis using t(2) by auto
qed

lemma iblk_slot_inj:
  assumes "fs_version s \<noteq> ONYFS_V1" and "k \<noteq> 0" and "ino \<noteq> 0"
    and "iblk s k = iblk s ino" and "islot k = islot ino"
  shows "k = ino"
proof -
  have lt: "inode_idx x div 32 < 2 ^ 32" for x
    using unsigned_less [where 'a = nat, of x] by (simp add: inode_idx_def div_less_iff_less_mult)
  have "inode_idx k div 32 = inode_idx ino div 32"
    using assms(1,4) of_nat_u32_inj [OF lt lt, of k ino] by (simp add: iblk_def ipb_v2)
  then have "inode_idx k = inode_idx ino"
    using assms(5) by (metis islot_def div_mult_mod_eq)
  moreover have "0 < unat k" "0 < unat ino" using assms(2,3) by (simp_all add: unat_gt_0)
  ultimately have "unat k = unat ino" by (simp add: inode_idx_def)
  then show ?thesis by (simp add: word_unat_eq_iff)
qed

text \<open>After an update of one inode slot: that inode, and every other one.\<close>

lemma inode_at_upd:
  assumes "fs_ok s" and "fs_version s \<noteq> ONYFS_V1" and "\<not> jarea s (iblk s ino)" and "inode_wf i"
    and u: "fs_upd s [(iblk s ino, blit (blk s (iblk s ino)) (islot ino * 128) (inode_to_bytes i))] n t"
  shows "inode_at t ino = i\<lparr>ino_ctime := 0\<rparr>"
    and "k \<noteq> 0 \<Longrightarrow> ino \<noteq> 0 \<Longrightarrow> k \<noteq> ino \<Longrightarrow> \<not> jarea s (iblk s k) \<Longrightarrow> inode_at t k = inode_at s k"
proof -
  let ?b = "iblk s ino"
  have c: "iblk t = iblk s" using iblk_cong [OF fs_upd_core [OF u]] .
  have len: "islot x * 128 + 128 \<le> length (blk s ?b)" for x
    using islot_less [of x] assms(1) by (simp add: blk_length)
  have bt: "blk t ?b = blit (blk s ?b) (islot ino * 128) (inode_to_bytes i)"
    using fs_upd_blk [OF u assms(3)] by (simp add: after_writes_def)
  show "inode_at t ino = i\<lparr>ino_ctime := 0\<rparr>"
    using len [of ino] assms(4) by (simp add: inode_at_def c bt slc_blit_same inode_roundtrip_raw)
  show "inode_at t k = inode_at s k" if k: "k \<noteq> 0" "ino \<noteq> 0" "k \<noteq> ino" "\<not> jarea s (iblk s k)"
  proof (cases "iblk s k = ?b")
    case False
    then have "blk t (iblk s k) = blk s (iblk s k)"
      using fs_upd_blk [OF u k(4)] by (simp add: after_writes_def)
    then show ?thesis by (simp add: inode_at_def c)
  next
    case True
    then have "islot k \<noteq> islot ino" using iblk_slot_inj [OF assms(2) k(1,2)] k(3) by blast
    then have "islot k * 128 + 128 \<le> islot ino * 128 \<or> islot ino * 128 + 128 \<le> islot k * 128" by auto
    then have "slc (blk t ?b) (islot k * 128) (islot k * 128 + 128) =
        slc (blk s ?b) (islot k * 128) (islot k * 128 + 128)"
      using len [of ino] len [of k] assms(4) by (auto simp: bt slc_blit_before slc_blit_after)
    then show ?thesis using True by (simp add: inode_at_def c)
  qed
qed

text \<open>C11: The inode table behaves as an array: writing inode \<open>ino\<close> (not 0, version 2, journal
  space for one entry) succeeds, reading it back returns the inode with \<open>ctime\<close> cleared, and
  every other inode whose block is not part of the journal reads as before, even when it lies in
  the same block.\<close>

theorem inode_write_read:
  assumes "fs_ok s" and "fs_version s \<noteq> ONYFS_V1" and "room s 1" and "ino \<noteq> 0" and "inode_wf i"
    and "\<not> jarea s (iblk s ino)"
  shows "\<exists>t. write_inode ino i s = (Inr (), t) \<and> fs_ok t \<and>
    (\<exists>u. read_inode ino t = (Inr (i\<lparr>ino_ctime := 0\<rparr>), u)) \<and>
    (\<forall>k. k \<noteq> 0 \<and> k \<noteq> ino \<and> \<not> jarea s (iblk s k) \<longrightarrow> fst (read_inode k t) = fst (read_inode k s))"
proof -
  obtain t where t: "write_inode ino i s = (Inr (), t)"
    "fs_upd s [(iblk s ino, blit (blk s (iblk s ino)) (islot ino * 128) (inode_to_bytes i))] 1 t"
    using write_inode_ok [OF assms(1-3) _ assms(5)] assms(6) by blast
  note ok = fs_upd_ok [OF t(2)]
  have v: "fs_version t \<noteq> ONYFS_V1" using assms(2) core_sb [OF fs_upd_core [OF t(2)]] by simp
  note at = inode_at_upd [OF assms(1,2) _ assms(5) t(2)]
  show ?thesis
    using t(1) ok at assms(4,6) read_inode_ok [OF ok v] read_inode_ok [OF assms(1,2)] by auto
qed

definition demo_inode :: onyfs_inode where
  "demo_inode = \<lparr>ino_mode = ONYFS_DT_REG, ino_size = 9, ino_uid = 0, ino_gid = 0, ino_nlink = 1,
     ino_blocks = replicate 10 0, ino_indirect = 0, ino_double_indirect = 0, ino_crtime = 3,
     ino_mtime = 3, ino_atime = 3, ino_ctime = 3, ino_flags = 0, ino_reserved = 0\<rparr>"

text \<open>A volume without a journal, for the examples.\<close>

definition plain_fs :: fs_state where
  "plain_fs = (fs_boot blank_disk)\<lparr>fs_version := 2,
     fs_sb := zero_super\<lparr>sb_inode_count := 64, sb_inode_table_start := 2, sb_data_bitmap_start := 20, sb_data_blocks_start := 30\<rparr>\<rparr>"

lemma plain_fs_ok [simp]:
  "fs_ok plain_fs" "fs_version plain_fs \<noteq> ONYFS_V1" "no_journal plain_fs" "room plain_fs n"
  "\<not> jarea plain_fs b" "sb_inode_table_start (fs_sb plain_fs) = 2" "sb_inode_count (fs_sb plain_fs) = 64"
  by (simp_all add: plain_fs_def no_journal_def room_def jarea_def ONYFS_V1_def zero_super_def)

lemma plain_blk [simp]: "blk plain_fs b = zero_block"
  by (simp add: plain_fs_def blk_def fs_boot_def blank_disk_def zero_block_def
      ONYFS_BLOCK_SIZE_def upt_0_8 replicate_add [symmetric])

theorem inode_write_read_witness:
  "\<exists>t u. write_inode 3 demo_inode plain_fs = (Inr (), t) \<and>
     read_inode 3 t = (Inr (demo_inode\<lparr>ino_ctime := 0\<rparr>), u) \<and>
     fst (read_inode 4 t) = fst (read_inode 4 plain_fs)"
proof -
  have "inode_wf demo_inode" by (simp add: inode_wf_def demo_inode_def ONYFS_DIRECT_BLKS_def)
  from inode_write_read [OF plain_fs_ok(1,2,4) _ this, of 3] show ?thesis by auto
qed

text \<open>\<open>saturating_sub\<close> makes inode number 0 an alias of the root inode 1.\<close>

lemma inode_zero_aliases_root: "iblk s 0 = iblk s 1 \<and> islot 0 = islot 1"
  by (simp add: iblk_def islot_def inode_idx_def)

section \<open>Timestamps\<close>

lemma set_timestamps_ok:
  assumes "fs_ok s" and "fs_version s \<noteq> ONYFS_V1" and "room s 1" and "ino \<noteq> 0"
    and "\<not> jarea s (iblk s ino)"
  shows "\<exists>t. set_timestamps ino m a s = (Inr (), t) \<and>
    inode_at t ino = (inode_at s ino)\<lparr>ino_mtime := m, ino_atime := a, ino_ctime := 0\<rparr>"
proof -
  let ?g = "got_blk (iblk s ino) s" and ?i = "(inode_at s ino)\<lparr>ino_mtime := m, ino_atime := a\<rparr>"
  have g: "fs_upd s [] 0 ?g" using fs_upd_got [OF assms(1)] .
  have cg: "iblk ?g = iblk s" "jarea ?g = jarea s" "fs_version ?g \<noteq> ONYFS_V1"
    using iblk_cong [OF fs_upd_core [OF g]] jarea_cong [OF fs_upd_core [OF g]] assms(2) by simp_all
  have "inode_wf ?i" using inode_at_wf [OF assms(1), of ino] by (simp add: inode_wf_def)
  moreover have "room ?g 1" using fs_upd_room [OF g, of 1] assms(3) by simp
  ultimately obtain t where t: "write_inode ino ?i ?g = (Inr (), t)"
    "fs_upd ?g [(iblk ?g ino, blit (blk ?g (iblk ?g ino)) (islot ino * 128) (inode_to_bytes ?i))] 1 t"
    using write_inode_ok [OF fs_upd_ok [OF g] cg(3), of ino ?i] cg(1,2) assms(5) by auto
  then have "set_timestamps ino m a s = (Inr (), t)"
    using assms(1,2) by (simp add: set_timestamps_def read_inode_ok)
  moreover have "inode_at t ino = ?i\<lparr>ino_ctime := 0\<rparr>"
    using inode_at_upd(1) [OF fs_upd_ok [OF g] cg(3) _ \<open>inode_wf ?i\<close> t(2)] cg assms(5) by simp
  ultimately show ?thesis by simp
qed

end
