(* ===== verification/Onyfs_Dir.thy ===== *)
theory Onyfs_Dir
  imports Onyfs_Inode
begin

text \<open>
  Directories (\<open>kernel/src/fs/onyxfs/lookup.rs\<close>, \<open>alloc/add.rs\<close>, \<open>alloc/remove.rs\<close>,
  \<open>readdir.rs\<close>): a directory is the first data block of its inode, an array of 36-byte
  (version 1) or 40-byte (version 2) entries; inode number 0 marks a free entry. The block is
  modelled as its bytes; \<open>add_entry\<close> and \<open>remove_entry\<close> are the searches and updates of the
  two loops in \<open>add_dirent\<close> and \<open>remove_dirent\<close>. Version 2 blocks in good order refine finite
  maps from names to inode numbers: this is the interface \<open>name_map\<close>, which the block functions
  are proved to implement.
\<close>

section \<open>Operations\<close>

definition entry_size :: "u32 \<Rightarrow> nat" where
  "entry_size v = (if v = ONYFS_V1 then 36 else 40)"

text \<open>The slots a loop \<open>for i in 0..dpb\<close> visits before its bounds check breaks out.\<close>

definition dir_slots :: "nat \<Rightarrow> nat \<Rightarrow> nat list" where
  "dir_slots es n = takeWhile (\<lambda>i. i * es + es \<le> ONYFS_BLOCK_SIZE) [0..<n]"

definition slot_inode :: "nat \<Rightarrow> bytes \<Rightarrow> nat \<Rightarrow> u32" where
  "slot_inode es buf i =
     (let inode_off = i * es + 32
      in from_le [buf ! inode_off, buf ! (inode_off + 1), buf ! (inode_off + 2), buf ! (inode_off + 3)])"

definition slot_name :: "nat \<Rightarrow> bytes \<Rightarrow> nat \<Rightarrow> bytes" where
  "slot_name es buf i = slc buf (i * es) (i * es + ONYFS_NAME_MAX)"

text \<open>The comparison loop: the matched prefix must be the whole name, followed by a NUL byte
  unless it fills the field.\<close>

definition name_match :: "bytes \<Rightarrow> bytes \<Rightarrow> bool" where
  "name_match existing name =
     (let match_len = length (takeWhile (\<lambda>(a, b). a = b) (zip (take ONYFS_NAME_MAX existing) name))
      in match_len = length name \<and> (match_len \<ge> ONYFS_NAME_MAX \<or> existing ! match_len = 0))"

definition find_name :: "nat \<Rightarrow> nat \<Rightarrow> bytes \<Rightarrow> bytes \<Rightarrow> nat option" where
  "find_name es n buf name =
     find (\<lambda>i. slot_inode es buf i \<noteq> 0 \<and> name_match (slot_name es buf i) name) (dir_slots es n)"

definition find_free :: "nat \<Rightarrow> nat \<Rightarrow> bytes \<Rightarrow> nat option" where
  "find_free es n buf = find (\<lambda>i. slot_inode es buf i = 0) (dir_slots es n)"

definition set_entry_inode :: "u32 \<Rightarrow> nat \<Rightarrow> bytes \<Rightarrow> nat \<Rightarrow> u32 \<Rightarrow> u8 \<Rightarrow> bytes" where
  "set_entry_inode v es buf i ino dtype =
     (let b = blit buf (i * es + 32) (to_le 4 ino)
      in if v \<noteq> ONYFS_V1 then b[i * es + 36 := dtype] else b)"

definition new_entry :: "u32 \<Rightarrow> nat \<Rightarrow> bytes \<Rightarrow> nat \<Rightarrow> bytes \<Rightarrow> u32 \<Rightarrow> u8 \<Rightarrow> bytes" where
  "new_entry v es buf i name ino dtype =
     (let n = min (length name) ONYFS_NAME_MAX;
          name_buf = take n name @ replicate (ONYFS_NAME_MAX - n) 0;
          b = blit (blit buf (i * es) name_buf) (i * es + 32) (to_le 4 ino)
      in if v \<noteq> ONYFS_V1 then b[i * es + 36 := dtype, i * es + 37 := of_nat n] else b)"

text \<open>The directory block after adding a name, or \<open>None\<close> when there is no free entry.\<close>

definition add_entry :: "u32 \<Rightarrow> nat \<Rightarrow> nat \<Rightarrow> bytes \<Rightarrow> u32 \<Rightarrow> u8 \<Rightarrow> bytes \<Rightarrow> bytes option" where
  "add_entry v es n name ino dtype buf =
     (case find_name es n buf name of
        Some i \<Rightarrow> Some (set_entry_inode v es buf i ino dtype)
      | None \<Rightarrow> (case find_free es n buf of
          Some i \<Rightarrow> Some (new_entry v es buf i name ino dtype)
        | None \<Rightarrow> None))"

definition remove_entry :: "nat \<Rightarrow> nat \<Rightarrow> bytes \<Rightarrow> bytes \<Rightarrow> bytes option" where
  "remove_entry es n name buf =
     map_option (\<lambda>i. blit buf (i * es + 32) [0, 0, 0, 0]) (find_name es n buf name)"

definition add_dirent :: "u32 \<Rightarrow> bytes \<Rightarrow> u32 \<Rightarrow> u8 \<Rightarrow> unit fsm" where
  "add_dirent dir_ino name target_ino dtype =
     kbind (read_inode dir_ino) (\<lambda>dir_inode.
     kbind (if ino_blocks dir_inode ! 0 = 0 then
              kbind alloc_data_block (\<lambda>dir_blk.
                let dir_inode = dir_inode\<lparr>ino_blocks := (ino_blocks dir_inode)[0 := dir_blk]\<rparr> in
                kseq (kmodify (\<lambda>s. s\<lparr>fs_buf := zero_block\<rparr>))
                (kseq (logged_write dir_blk zero_block)
                (kseq (write_inode dir_ino dir_inode)
                  (kret dir_blk))))
            else kret (ino_blocks dir_inode ! 0)) (\<lambda>dir_blk.
     kseq (read_gbuf dir_blk) (\<lambda>s.
       case add_entry (fs_version s) (entry_size (fs_version s)) (dirents_per_block s)
              name target_ino dtype (fs_buf s) of
         None \<Rightarrow> (Inl ENoSpace, s)
       | Some buf \<Rightarrow> kseq (kmodify (\<lambda>s. s\<lparr>fs_buf := buf\<rparr>)) (logged_write dir_blk buf) s)))"

definition remove_dirent :: "u32 \<Rightarrow> bytes \<Rightarrow> unit fsm" where
  "remove_dirent dir_ino name =
     kbind (read_inode dir_ino) (\<lambda>dir_inode.
       let dir_blk = ino_blocks dir_inode ! 0 in
       if dir_blk = 0 then kthrow ENoEnt
       else kseq (read_gbuf dir_blk) (\<lambda>s.
         case remove_entry (entry_size (fs_version s)) (dirents_per_block s) name (fs_buf s) of
           None \<Rightarrow> (Inl ENoEnt, s)
         | Some buf \<Rightarrow> kseq (kmodify (\<lambda>s. s\<lparr>fs_buf := buf\<rparr>)) (logged_write dir_blk buf) s))"

definition parse_dirent :: "u32 \<Rightarrow> bytes \<Rightarrow> nat \<Rightarrow> onyfs_dirent kresult" where
  "parse_dirent v buf slot =
     (if v = ONYFS_V1 then
        (let off = slot * 36 in
         if off + 36 > ONYFS_BLOCK_SIZE then Inl EInval
         else let s = slc buf off (off + 36); name = slc s 0 ONYFS_NAME_MAX in
           Inr \<lparr>de_name = name, de_inode = from_le [s ! 32, s ! 33, s ! 34, s ! 35], de_dtype = 0,
             de_name_len = of_nat (case position (\<lambda>b. b = 0) name of Some i \<Rightarrow> i | None \<Rightarrow> ONYFS_NAME_MAX),
             de_reserved = [0, 0]\<rparr>)
      else
        (let off = slot * 40 in
         if off + 40 > ONYFS_BLOCK_SIZE then Inl EInval
         else case dirent_from_bytes (slc buf off (off + 40)) of None \<Rightarrow> Inl EIo | Some d \<Rightarrow> Inr d))"

definition dirent_nl :: "onyfs_dirent \<Rightarrow> nat" where
  "dirent_nl d =
     (if de_name_len d > 0 \<and> unat (de_name_len d) \<le> ONYFS_NAME_MAX then unat (de_name_len d)
      else case position (\<lambda>b. b = 0) (de_name d) of Some i \<Rightarrow> i | None \<Rightarrow> ONYFS_NAME_MAX)"

fun search_slots :: "u32 \<Rightarrow> bytes \<Rightarrow> bytes \<Rightarrow> nat list \<Rightarrow> u32 kresult" where
  "search_slots v buf name [] = Inl ENoEnt"
| "search_slots v buf name (i # is) =
     (case parse_dirent v buf i of
        Inl e \<Rightarrow> Inl e
      | Inr d \<Rightarrow>
          if de_inode d = 0 then search_slots v buf name is
          else if dirent_nl d = length name \<and> take (dirent_nl d) (de_name d) = name then Inr (de_inode d)
          else search_slots v buf name is)"

definition lookup_in :: "u32 \<Rightarrow> bytes \<Rightarrow> (u32 \<times> onyfs_stat) fsm" where
  "lookup_in dir_ino name =
     kbind (read_inode dir_ino) (\<lambda>inode.
       let dir_blk = ino_blocks inode ! 0 in
       if dir_blk = 0 then kthrow ENoEnt
       else kseq (read_gbuf dir_blk) (\<lambda>s.
         case search_slots (fs_version s) (fs_buf s) name [0..<dirents_per_block s] of
           Inl e \<Rightarrow> (Inl e, s)
         | Inr found_ino \<Rightarrow> kbind (stat found_ino) (\<lambda>st. kret (found_ino, st)) s))"

text \<open>Path resolution. \<open>SLASH\<close> is the byte of the separator.\<close>

abbreviation SLASH :: u8 where "SLASH \<equiv> 0x2F"

function lookup_walk :: "u32 \<Rightarrow> bytes \<Rightarrow> u32 fsm" where
  "lookup_walk cur_ino path s =
     (let remaining = dropWhile (\<lambda>b. b = SLASH) path in
      if remaining = [] then (Inr cur_ino, s)
      else let component = (case position (\<lambda>b. b = SLASH) remaining of
                              Some idx \<Rightarrow> take idx remaining | None \<Rightarrow> remaining) in
        if component = [] then (Inr cur_ino, s)
        else case lookup_in cur_ino component s of
          (Inl e, s') \<Rightarrow> (Inl e, s')
        | (Inr (ino, st), s') \<Rightarrow>
            (case position (\<lambda>b. b = SLASH) remaining of
               Some idx \<Rightarrow> lookup_walk ino (drop (idx + 1) remaining) s'
             | None \<Rightarrow> (Inr ino, s')))"
  by pat_completeness auto
termination
  by (relation "measure (\<lambda>(cur, path, s). length path)")
    (auto intro: le_less_trans [OF length_dropWhile_le] simp: length_dropWhile_le
       less_le_trans [OF diff_less])

definition lookup :: "bytes \<Rightarrow> (u32 \<times> onyfs_stat) fsm" where
  "lookup path = kbind (lookup_walk ONYFS_ROOT_INO path) (\<lambda>cur_ino.
     kbind (stat cur_ino) (\<lambda>st. kret (cur_ino, st)))"

definition is_dir_mode :: "u32 \<Rightarrow> bool" where
  "is_dir_mode mode \<longleftrightarrow> mode AND 0xF000 = ONYFS_DT_DIR AND 0xF000"

definition resolve_dir :: "bytes \<Rightarrow> u32 fsm" where
  "resolve_dir path = kbind (lookup path) (\<lambda>(ino, st).
     if \<not> is_dir_mode (st_mode st) then kthrow ENotDir else kret ino)"

text \<open>One directory entry; the result carries the bytes stored at \<open>name_out\<close>.\<close>

definition readdir_entry :: "u32 \<Rightarrow> u32 \<Rightarrow> nat \<Rightarrow> (u32 \<times> bytes) option fsm" where
  "readdir_entry dir_ino entry_idx name_len =
     kbind (read_inode dir_ino) (\<lambda>inode.
       if \<not> is_dir_mode (ino_mode inode) then kthrow ENotDir
       else let dir_blk = ino_blocks inode ! 0 in
         if dir_blk = 0 then kret None
         else kseq (read_gbuf dir_blk) (\<lambda>s.
           if unat entry_idx \<ge> dirents_per_block s then (Inr None, s)
           else case parse_dirent (fs_version s) (fs_buf s) (unat entry_idx) of
             Inl e \<Rightarrow> (Inl e, s)
           | Inr d \<Rightarrow>
               if de_inode d = 0 then (Inr None, s)
               else (let copy_n = min (dirent_nl d) (name_len - 1) in
                 (Inr (Some (de_inode d,
                    take copy_n (de_name d) @ (if copy_n < name_len then [0] else []))), s))))"

section \<open>Directory blocks of version 2\<close>

definition valid_name :: "bytes \<Rightarrow> bool" where
  "valid_name name \<longleftrightarrow> name \<noteq> [] \<and> length name \<le> 32 \<and> 0 \<notin> set name"

definition slot_ent :: "bytes \<Rightarrow> nat \<Rightarrow> onyfs_dirent" where
  "slot_ent buf i = the (dirent_from_bytes (slc buf (i * 40) (i * 40 + 40)))"

definition live :: "bytes \<Rightarrow> nat \<Rightarrow> bool" where
  "live buf i \<longleftrightarrow> i < 102 \<and> de_inode (slot_ent buf i) \<noteq> 0"

definition ent_ok :: "onyfs_dirent \<Rightarrow> bool" where
  "ent_ok d \<longleftrightarrow> (let name = until_nul (de_name d) in
     valid_name name \<and> de_name d = name @ replicate (32 - length name) 0 \<and>
     de_name_len d = of_nat (length name))"

definition dir_wf :: "bytes \<Rightarrow> bool" where
  "dir_wf buf \<longleftrightarrow> length buf = 4096 \<and> (\<forall>i. live buf i \<longrightarrow> ent_ok (slot_ent buf i)) \<and>
     (\<forall>i j. live buf i \<and> live buf j \<and> name_str (slot_ent buf i) = name_str (slot_ent buf j) \<longrightarrow> i = j)"

definition dir_get :: "bytes \<Rightarrow> bytes \<Rightarrow> u32 option" where
  "dir_get buf name =
     map_option (\<lambda>i. de_inode (slot_ent buf i))
       (find (\<lambda>i. de_inode (slot_ent buf i) \<noteq> 0 \<and> name_str (slot_ent buf i) = name) [0..<102])"

lemma dir_slots_v2: "dir_slots 40 102 = [0..<102]"
  unfolding dir_slots_def by (rule takeWhile_eq_all_conv [THEN iffD2]) (auto simp: ONYFS_BLOCK_SIZE_def)

lemma name_str_nl: "name_str d = take (dirent_nl d) (de_name d)"
  by (simp add: name_str_def dirent_nl_def)

lemma slot_parse:
  assumes "length buf = 4096" and "i < 102" and "v \<noteq> ONYFS_V1"
  shows "parse_dirent v buf i = Inr (slot_ent buf i)"
proof -
  have "i * 40 + 40 \<le> 4096" using assms(2) by simp
  then show ?thesis using assms
    by (simp add: parse_dirent_def slot_ent_def dirent_from_bytes_def ONYFS_BLOCK_SIZE_def Let_def)
qed

lemma slot_fields:
  assumes "length buf = 4096" and "i < 102"
  shows "slot_inode 40 buf i = de_inode (slot_ent buf i)"
    and "slot_name 40 buf i = de_name (slot_ent buf i)"
    and "length (de_name (slot_ent buf i)) = 32"
proof -
  have le: "i * 40 + 40 \<le> 4096" using assms(2) by simp
  let ?e = "slc buf (i * 40) (i * 40 + 40)"
  have "slot_ent buf i = \<lparr>de_name = slc ?e 0 32, de_inode = le32 (slc ?e 32 36), de_dtype = ?e ! 36,
      de_name_len = ?e ! 37, de_reserved = [?e ! 38, ?e ! 39]\<rparr>"
    using le assms(1) by (simp add: slot_ent_def dirent_from_bytes_def ONYFS_NAME_MAX_def)
  moreover have "slc ?e 32 36 = slc buf (i * 40 + 32) (i * 40 + 36)" "slc ?e 0 32 = slc buf (i * 40) (i * 40 + 32)"
    using slc_slc [of 36 "i * 40 + 40" "i * 40" buf 32] slc_slc [of 32 "i * 40 + 40" "i * 40" buf 0]
    by simp_all
  moreover have "le32 (slc buf (i * 40 + 32) (i * 40 + 36)) = slot_inode 40 buf i"
    using le assms(1) by (simp add: le32_def slot_inode_def add.assoc)
  ultimately show "slot_inode 40 buf i = de_inode (slot_ent buf i)"
    "slot_name 40 buf i = de_name (slot_ent buf i)" "length (de_name (slot_ent buf i)) = 32"
    using le assms(1) by (simp_all add: slot_name_def ONYFS_NAME_MAX_def)
qed

lemma zip_match_length:
  "length (takeWhile (\<lambda>(a, b). a = b) (zip xs ys)) = length ys \<longleftrightarrow>
     length ys \<le> length xs \<and> take (length ys) xs = ys"
proof (induction ys arbitrary: xs)
  case (Cons y ys)
  then show ?case by (cases xs) auto
qed simp

lemma name_match_iff:
  "length existing = 32 \<Longrightarrow> name_match existing name \<longleftrightarrow>
     length name \<le> 32 \<and> take (length name) existing = name \<and>
     (length name = 32 \<or> existing ! length name = 0)"
  using zip_match_length [of existing name] by (auto simp: name_match_def Let_def ONYFS_NAME_MAX_def)

lemma ent_ok_name:
  assumes "ent_ok d"
  shows "name_str d = until_nul (de_name d)" and "valid_name (name_str d)"
    and "de_name d = name_str d @ replicate (32 - length (name_str d)) 0"
proof -
  let ?n = "until_nul (de_name d)"
  have v: "valid_name ?n" "de_name d = ?n @ replicate (32 - length ?n) 0" "de_name_len d = of_nat (length ?n)"
    using assms by (simp_all add: ent_ok_def Let_def)
  have "unat (de_name_len d) = length ?n" using v(1,3) by (simp add: valid_name_def unat_of_nat)
  then have "name_str d = take (length ?n) (de_name d)"
    using v(1) by (simp add: name_str_def valid_name_def ONYFS_NAME_MAX_def word_less_nat_alt Let_def)
  then show n: "name_str d = ?n" using v(2) by (metis append_eq_conv_conj)
  show "valid_name (name_str d)" "de_name d = name_str d @ replicate (32 - length (name_str d)) 0"
    using v n by simp_all
qed

lemma padded_match:
  assumes "length n \<le> 32" and "0 \<notin> set n" and "0 \<notin> set name"
  shows "name_match (n @ replicate (32 - length n) 0) name \<longleftrightarrow> n = (name :: bytes)"
proof -
  let ?e = "n @ replicate (32 - length n) (0 :: u8)"
  have len: "length ?e = 32" using assms(1) by simp
  have "n = name" if "length name \<le> 32" and t: "take (length name) ?e = name"
    and z: "length name = 32 \<or> ?e ! length name = 0"
  proof (rule ccontr)
    assume "n \<noteq> name"
    then consider "length name < length n" | "length n < length name"
      using t by (metis append_eq_conv_conj linorder_neqE_nat)
    then show False
    proof cases
      case 1
      then have "?e ! length name = n ! length name" by (simp add: nth_append)
      then have "n ! length name = 0" using z 1 assms(1) by simp
      then show False using 1 assms(2) nth_mem by fastforce
    next
      case 2
      have "name ! length n = take (length name) ?e ! length n" using t by simp
      also have "\<dots> = 0" using 2 \<open>length name \<le> 32\<close> by (simp add: nth_append)
      finally show False using 2 assms(3) nth_mem by fastforce
    qed
  qed
  moreover have "name_match ?e n"
    using assms(1) by (cases "length n = 32") (simp_all add: name_match_iff nth_append)
  ultimately show ?thesis using name_match_iff [OF len, of name] by auto
qed

lemma name_match_ent:
  assumes "ent_ok d" and "valid_name name"
  shows "name_match (de_name d) name \<longleftrightarrow> name_str d = name"
  using ent_ok_name [OF assms(1)] assms(2) padded_match [of "name_str d" name]
  unfolding valid_name_def by metis

lemma slot_ent_eq:
  assumes "length buf = 4096" and "i < 102"
  shows "slot_ent buf i = \<lparr>de_name = slc buf (i * 40) (i * 40 + 32),
    de_inode = from_le (slc buf (i * 40 + 32) (i * 40 + 36)), de_dtype = buf ! (i * 40 + 36),
    de_name_len = buf ! (i * 40 + 37), de_reserved = [buf ! (i * 40 + 38), buf ! (i * 40 + 39)]\<rparr>"
proof -
  have le: "i * 40 + 40 \<le> 4096" using assms(2) by simp
  let ?e = "slc buf (i * 40) (i * 40 + 40)"
  have s: "slc ?e 32 36 = slc buf (i * 40 + 32) (i * 40 + 36)" "slc ?e 0 32 = slc buf (i * 40) (i * 40 + 32)"
    using slc_slc [of 36 "i * 40 + 40" "i * 40" buf 32] slc_slc [of 32 "i * 40 + 40" "i * 40" buf 0]
    by simp_all
  have "le32 (slc buf (i * 40 + 32) (i * 40 + 36)) = from_le (slc buf (i * 40 + 32) (i * 40 + 36))"
    using le assms(1) list4_of_nth [of "slc buf (i * 40 + 32) (i * 40 + 36)"] by (simp add: le32_def)
  moreover have "?e ! k = buf ! (i * 40 + k)" if "k < 40" for k using that le assms(1) by simp
  ultimately show ?thesis
    using le assms(1) by (simp add: slot_ent_def dirent_from_bytes_def ONYFS_NAME_MAX_def s)
qed

lemma list_update_blit: "i < length xs \<Longrightarrow> xs[i := v] = blit xs i [v]"
  by (simp add: blit_def upd_conv_take_nth_drop)


text \<open>An update inside one slot leaves the other slots alone.\<close>

lemma slot_ent_blit_other:
  assumes "length buf = 4096" and "i < 102" and "j < 102" and "j \<noteq> i" and "c + length ys \<le> 40"
  shows "slot_ent (blit buf (i * 40 + c) ys) j = slot_ent buf j"
proof -
  have "j * 40 + 40 \<le> i * 40 + c \<or> i * 40 + c + length ys \<le> j * 40" using assms(4,5) by auto
  then have "slc (blit buf (i * 40 + c) ys) (j * 40) (j * 40 + 40) = slc buf (j * 40) (j * 40 + 40)"
    using assms(1-3,5) by (auto simp: slc_blit_before slc_blit_after)
  then show ?thesis by (simp add: slot_ent_def)
qed

definition slot_upd :: "bytes \<Rightarrow> nat \<Rightarrow> onyfs_dirent \<Rightarrow> bytes \<Rightarrow> bool" where
  "slot_upd buf i d buf' \<longleftrightarrow> length buf' = 4096 \<and> slot_ent buf' i = d \<and>
     (\<forall>j<102. j \<noteq> i \<longrightarrow> slot_ent buf' j = slot_ent buf j)"

lemma slot_upd_blit:
  assumes "length buf = 4096" and "i < 102" and "c + length ys \<le> 40"
  shows "slot_upd buf i (slot_ent (blit buf (i * 40 + c) ys) i) (blit buf (i * 40 + c) ys)"
  using assms by (simp add: slot_upd_def slot_ent_blit_other)

lemma slot_upd_trans:
  "slot_upd buf i d buf' \<Longrightarrow> slot_upd buf' i d' buf'' \<Longrightarrow> slot_upd buf i d' buf''"
  by (simp add: slot_upd_def)

lemma slot_upd_inode:
  assumes "length buf = 4096" and "i < 102" and "length bs = 4"
  shows "slot_upd buf i ((slot_ent buf i)\<lparr>de_inode := from_le bs\<rparr>) (blit buf (i * 40 + 32) bs)"
  using slot_upd_blit [OF assms(1,2), of 32 bs] assms
  by (simp add: slot_ent_eq slice_laws)

lemma slot_upd_byte36:
  assumes "length buf = 4096" and "i < 102"
  shows "slot_upd buf i ((slot_ent buf i)\<lparr>de_dtype := t\<rparr>) (buf[i * 40 + 36 := t])"
  using slot_upd_blit [OF assms, of 36 "[t]"] assms
  by (simp add: slot_ent_eq slice_laws nth_blit list_update_blit)

lemma slot_upd_byte37:
  assumes "length buf = 4096" and "i < 102"
  shows "slot_upd buf i ((slot_ent buf i)\<lparr>de_name_len := n\<rparr>) (buf[i * 40 + 37 := n])"
  using slot_upd_blit [OF assms, of 37 "[n]"] assms
  by (simp add: slot_ent_eq slice_laws nth_blit list_update_blit)

lemma slot_upd_name:
  assumes "length buf = 4096" and "i < 102" and "length nm = 32"
  shows "slot_upd buf i ((slot_ent buf i)\<lparr>de_name := nm\<rparr>) (blit buf (i * 40) nm)"
  using slot_upd_blit [OF assms(1,2), of 0 nm] assms
  by (simp add: slot_ent_eq slice_laws)

lemma slot_upd_comp:
  assumes "slot_upd buf i d b" and "\<And>b. length b = 4096 \<Longrightarrow> slot_upd b i (f (slot_ent b i)) (g b)"
  shows "slot_upd buf i (f d) (g b)"
  using assms slot_upd_trans unfolding slot_upd_def by metis

lemma set_entry_upd:
  assumes "length buf = 4096" and "i < 102" and "v \<noteq> ONYFS_V1"
  shows "slot_upd buf i ((slot_ent buf i)\<lparr>de_inode := ino, de_dtype := t\<rparr>) (set_entry_inode v 40 buf i ino t)"
  using slot_upd_comp [OF slot_upd_inode [OF assms(1,2), of "to_le 4 ino"] slot_upd_byte36 [OF _ assms(2)]] assms(3)
  by (simp add: set_entry_inode_def)

lemma new_entry_upd:
  assumes "length buf = 4096" and "i < 102" and "v \<noteq> ONYFS_V1" and "length name \<le> 32"
  shows "slot_upd buf i ((slot_ent buf i)\<lparr>de_name := name @ replicate (32 - length name) 0, de_inode := ino,
      de_dtype := t, de_name_len := of_nat (length name)\<rparr>) (new_entry v 40 buf i name ino t)"
proof -
  let ?nm = "name @ replicate (32 - length name) 0"
  have "slot_upd buf i ((slot_ent buf i)\<lparr>de_name := ?nm\<rparr>) (blit buf (i * 40) ?nm)"
    using assms by (intro slot_upd_name) simp_all
  from slot_upd_comp [OF slot_upd_comp [OF slot_upd_comp [OF this
      slot_upd_inode [OF _ assms(2), of _ "to_le 4 ino"]] slot_upd_byte36 [OF _ assms(2), of _ t]]
      slot_upd_byte37 [OF _ assms(2), of _ "of_nat (length name)"]]
  show ?thesis using assms(3,4) by (simp add: new_entry_def Let_def min_absorb1 ONYFS_NAME_MAX_def)
qed

section \<open>Well-formed directory blocks as maps\<close>

lemma dir_wf_uniq:
  "dir_wf buf \<Longrightarrow> live buf i \<Longrightarrow> live buf j \<Longrightarrow> name_str (slot_ent buf i) = name_str (slot_ent buf j) \<Longrightarrow> i = j"
  by (simp add: dir_wf_def)

lemma dir_get_None:
  "dir_get buf n = None \<longleftrightarrow> (\<forall>i. live buf i \<longrightarrow> name_str (slot_ent buf i) \<noteq> n)"
  by (auto simp: dir_get_def find_upt_None live_def)

lemma dir_get_SomeD:
  "dir_get buf n = Some ino \<Longrightarrow>
    \<exists>i. live buf i \<and> name_str (slot_ent buf i) = n \<and> de_inode (slot_ent buf i) = ino"
  by (auto simp: dir_get_def find_upt_Some live_def)

lemma dir_get_live:
  assumes "dir_wf buf" and "live buf i" and "name_str (slot_ent buf i) = n"
  shows "dir_get buf n = Some (de_inode (slot_ent buf i))"
proof -
  obtain ino where "dir_get buf n = Some ino" using dir_get_None [of buf n] assms(2,3) by fastforce
  moreover from dir_get_SomeD [OF this] obtain j where
    "live buf j" "name_str (slot_ent buf j) = n" "de_inode (slot_ent buf j) = ino" by blast
  moreover from this have "j = i" using dir_wf_uniq [OF assms(1)] assms(2,3) by blast
  ultimately show ?thesis by simp
qed

lemma live_less: "live buf i \<Longrightarrow> i < 102"
  by (simp add: live_def)

lemma dir_upd:
  assumes wf: "dir_wf buf" and "i < 102" and u: "slot_upd buf i d buf'"
    and d: "de_inode d \<noteq> 0 \<Longrightarrow> ent_ok d \<and> name_str d = n"
    and old: "live buf i \<Longrightarrow> name_str (slot_ent buf i) = n"
    and uniq: "\<And>j. live buf j \<Longrightarrow> name_str (slot_ent buf j) = n \<Longrightarrow> j = i"
  shows "dir_wf buf' \<and> dir_get buf' = (dir_get buf)(n := if de_inode d = 0 then None else Some (de_inode d))"
proof -
  have li: "live buf' i \<longleftrightarrow> de_inode d \<noteq> 0" and ei: "slot_ent buf' i = d"
    and lj: "j \<noteq> i \<Longrightarrow> live buf' j \<longleftrightarrow> live buf j"
    and ej: "live buf j \<Longrightarrow> j \<noteq> i \<Longrightarrow> slot_ent buf' j = slot_ent buf j" for j
    using u assms(2) by (auto simp: slot_upd_def live_def)
  have ok: "ent_ok (slot_ent buf' j)" if "live buf' j" for j
    using that wf d by (cases "j = i") (simp_all add: li ei lj ej dir_wf_def)
  have nj: "name_str (slot_ent buf' j) \<noteq> n" if "live buf' j" "j \<noteq> i" for j
    using that uniq [of j] by (auto simp: lj ej)
  have inj: "j = k" if l: "live buf' j" "live buf' k"
    and e: "name_str (slot_ent buf' j) = name_str (slot_ent buf' k)" for j k
  proof -
    consider "j = i" "k = i" | "j = i" "k \<noteq> i" | "j \<noteq> i" "k = i" | "j \<noteq> i" "k \<noteq> i" by blast
    then show ?thesis
    proof cases
      case 2
      then show ?thesis using l e d nj [of k] by (simp add: li ei)
    next
      case 3
      then show ?thesis using l e d nj [of j] by (simp add: li ei)
    next
      case 4
      then show ?thesis using l e dir_wf_uniq [OF wf, of j k] by (simp add: lj ej)
    qed simp
  qed
  have wf': "dir_wf buf'" using ok inj u by (simp add: dir_wf_def slot_upd_def)
  have "dir_get buf' n = (if de_inode d = 0 then None else Some (de_inode d))"
  proof (cases "de_inode d = 0")
    case True
    then have "name_str (slot_ent buf' j) \<noteq> n" if "live buf' j" for j
      using that nj [of j] by (cases "j = i") (simp_all add: li)
    then show ?thesis using True by (simp add: dir_get_None)
  next
    case False
    then show ?thesis using dir_get_live [OF wf', of i n] d by (simp add: li ei)
  qed
  moreover have "dir_get buf' m = dir_get buf m" if m: "m \<noteq> n" for m
  proof (cases "dir_get buf m")
    case None
    then have "\<And>j. live buf j \<Longrightarrow> name_str (slot_ent buf j) \<noteq> m" by (simp add: dir_get_None)
    then have "name_str (slot_ent buf' j) \<noteq> m" if "live buf' j" for j
      using that m d by (cases "j = i") (simp_all add: li ei lj ej)
    then have "dir_get buf' m = None" by (simp add: dir_get_None)
    then show ?thesis using None by simp
  next
    case (Some k)
    then obtain j where j: "live buf j" "name_str (slot_ent buf j) = m" "de_inode (slot_ent buf j) = k"
      using dir_get_SomeD by blast
    then have "j \<noteq> i" using old m by auto
    then show ?thesis using Some j dir_get_live [OF wf', of j m] by (simp add: lj ej)
  qed
  ultimately show ?thesis using wf' by auto
qed


lemma ent_ok_intro:
  assumes "valid_name n" and "de_name d = n @ replicate (32 - length n) 0" and "de_name_len d = of_nat (length n)"
  shows "ent_ok d \<and> name_str d = n"
proof -
  have "until_nul (de_name d) = n"
    using assms(1,2) by (cases "32 - length n") (auto simp: valid_name_def until_nul_def takeWhile_tail takeWhile_eq_all_conv)
  then have "ent_ok d" using assms by (simp add: ent_ok_def)
  then show ?thesis using ent_ok_name(1) \<open>until_nul (de_name d) = n\<close> by simp
qed

lemma ent_ok_cong: "de_name d = de_name e \<Longrightarrow> de_name_len d = de_name_len e \<Longrightarrow>
  ent_ok d = ent_ok e \<and> name_str d = name_str e"
  by (simp add: ent_ok_def name_str_def)

lemma find_name_v2:
  assumes "dir_wf buf" and "valid_name n"
  shows "find_name 40 102 buf n = find (\<lambda>i. de_inode (slot_ent buf i) \<noteq> 0 \<and> name_str (slot_ent buf i) = n) [0..<102]"
proof -
  have len: "length buf = 4096" using assms(1) by (simp add: dir_wf_def)
  have "slot_inode 40 buf i \<noteq> 0 \<and> name_match (slot_name 40 buf i) n \<longleftrightarrow>
      de_inode (slot_ent buf i) \<noteq> 0 \<and> name_str (slot_ent buf i) = n" if "i < 102" for i
    using that assms slot_fields [OF len that] name_match_ent [of "slot_ent buf i" n]
    by (auto simp: dir_wf_def live_def)
  then show ?thesis unfolding find_name_def dir_slots_v2 by (intro find_cong) auto
qed

lemma find_name_Some:
  assumes "dir_wf buf" and "valid_name n" and "find_name 40 102 buf n = Some i"
  shows "live buf i" and "name_str (slot_ent buf i) = n"
    and "live buf j \<Longrightarrow> name_str (slot_ent buf j) = n \<Longrightarrow> j = i"
proof -
  show i: "live buf i" "name_str (slot_ent buf i) = n"
    using assms(3) unfolding find_name_v2 [OF assms(1,2)] find_upt_Some by (simp_all add: live_def)
  show "live buf j \<Longrightarrow> name_str (slot_ent buf j) = n \<Longrightarrow> j = i"
    using dir_wf_uniq [OF assms(1)] i by simp
qed

lemma find_name_None:
  assumes "dir_wf buf" and "valid_name n"
  shows "find_name 40 102 buf n = None \<longleftrightarrow> dir_get buf n = None"
  unfolding find_name_v2 [OF assms] dir_get_def by simp

lemma find_free_v2:
  assumes "length buf = 4096"
  shows "find_free 40 102 buf = find (\<lambda>i. \<not> live buf i) [0..<102]"
  unfolding find_free_def dir_slots_v2
  by (intro find_cong) (auto simp: slot_fields(1) [OF assms] live_def)

text \<open>The number of names a block holds.\<close>

definition dir_full :: "bytes \<Rightarrow> bool" where
  "dir_full buf \<longleftrightarrow> (\<forall>i<102. live buf i)"

lemma add_entry_Some:
  assumes "dir_wf buf" and "valid_name n" and "ino \<noteq> 0" and "v \<noteq> ONYFS_V1"
    and "add_entry v 40 102 n ino t buf = Some buf'"
  shows "dir_wf buf' \<and> dir_get buf' = (dir_get buf)(n \<mapsto> ino)"
proof -
  have len: "length buf = 4096" using assms(1) by (simp add: dir_wf_def)
  show ?thesis
  proof (cases "find_name 40 102 buf n")
    case (Some i)
    note f = find_name_Some [OF assms(1,2) Some]
    let ?d = "(slot_ent buf i)\<lparr>de_inode := ino, de_dtype := t\<rparr>"
    have ok: "ent_ok (slot_ent buf i)" using assms(1) f(1) by (simp add: dir_wf_def)
    have "buf' = set_entry_inode v 40 buf i ino t" using assms(5) Some by (simp add: add_entry_def)
    then have "slot_upd buf i ?d buf'" using set_entry_upd [OF len live_less [OF f(1)] assms(4)] by simp
    moreover have "ent_ok ?d \<and> name_str ?d = n" using ent_ok_cong [of ?d "slot_ent buf i"] ok f(2) by simp
    ultimately have "dir_wf buf' \<and>
        dir_get buf' = (dir_get buf)(n := if de_inode ?d = 0 then None else Some (de_inode ?d))"
      using dir_upd [OF assms(1) live_less [OF f(1)]] f(2,3) by blast
    then show ?thesis using assms(3) by simp
  next
    case None
    then obtain i where i: "find_free 40 102 buf = Some i" and b: "buf' = new_entry v 40 buf i n ino t"
      using assms(5) by (auto simp: add_entry_def split: option.splits)
    have l: "i < 102" "\<not> live buf i" using i unfolding find_free_v2 [OF len] find_upt_Some by auto
    have nn: "live buf j \<Longrightarrow> name_str (slot_ent buf j) \<noteq> n" for j
      using None find_name_None [OF assms(1,2)] by (simp add: dir_get_None)
    let ?d = "(slot_ent buf i)\<lparr>de_name := n @ replicate (32 - length n) 0, de_inode := ino,
      de_dtype := t, de_name_len := of_nat (length n)\<rparr>"
    have "slot_upd buf i ?d buf'"
      using new_entry_upd [OF len l(1) assms(4)] assms(2) b by (simp add: valid_name_def)
    moreover have "ent_ok ?d \<and> name_str ?d = n" by (rule ent_ok_intro [OF assms(2)]) simp_all
    ultimately have "dir_wf buf' \<and>
        dir_get buf' = (dir_get buf)(n := if de_inode ?d = 0 then None else Some (de_inode ?d))"
      using dir_upd [OF assms(1) l(1)] nn l(2) by blast
    then show ?thesis using assms(3) by simp
  qed
qed

lemma add_entry_None:
  assumes "dir_wf buf" and "valid_name n"
  shows "add_entry v 40 102 n ino t buf = None \<longleftrightarrow> dir_get buf n = None \<and> dir_full buf"
proof -
  have len: "length buf = 4096" using assms(1) by (simp add: dir_wf_def)
  have "find_free 40 102 buf = None \<longleftrightarrow> dir_full buf"
    unfolding find_free_v2 [OF len] find_upt_None dir_full_def by auto
  then show ?thesis using find_name_None [OF assms] by (auto simp: add_entry_def split: option.splits)
qed

lemma remove_entry_Some:
  assumes "dir_wf buf" and "valid_name n" and "remove_entry 40 102 n buf = Some buf'"
  shows "dir_wf buf' \<and> dir_get buf' = (dir_get buf)(n := None)"
proof -
  obtain i where i: "find_name 40 102 buf n = Some i" and b: "buf' = blit buf (i * 40 + 32) [0, 0, 0, 0]"
    using assms(3) by (auto simp: remove_entry_def)
  note f = find_name_Some [OF assms(1,2) i]
  have "from_le [0, 0, 0, 0 :: u8] = (0 :: u32)" by simp
  then have "slot_upd buf i ((slot_ent buf i)\<lparr>de_inode := 0\<rparr>) buf'"
    using slot_upd_inode [of buf i "[0, 0, 0, 0]"] assms(1) live_less [OF f(1)] b by (simp add: dir_wf_def)
  from dir_upd [OF assms(1) live_less [OF f(1)] this _ f(2)] f(3) show ?thesis by simp
qed

lemma remove_entry_None:
  assumes "dir_wf buf" and "valid_name n"
  shows "remove_entry 40 102 n buf = None \<longleftrightarrow> dir_get buf n = None"
  using find_name_None [OF assms] by (simp add: remove_entry_def)

lemma search_slots_get:
  assumes "length buf = 4096" and "v \<noteq> ONYFS_V1"
  shows "search_slots v buf n [0..<102] = (case dir_get buf n of None \<Rightarrow> Inl ENoEnt | Some ino \<Rightarrow> Inr ino)"
proof -
  have "search_slots v buf n is = (case find (\<lambda>i. de_inode (slot_ent buf i) \<noteq> 0 \<and> name_str (slot_ent buf i) = n) is of
      None \<Rightarrow> Inl ENoEnt | Some i \<Rightarrow> Inr (de_inode (slot_ent buf i)))" if "set is \<subseteq> {..<102}" for "is"
    using that
  proof (induction "is")
    case (Cons i "is")
    then have p: "parse_dirent v buf i = Inr (slot_ent buf i)" using slot_parse [OF assms(1) _ assms(2)] by simp
    have "length (name_str (slot_ent buf i)) = dirent_nl (slot_ent buf i)"
      using slot_fields(3) [OF assms(1), of i] Cons.prems
      by (auto simp: name_str_nl dirent_nl_def ONYFS_NAME_MAX_def position_Some split: option.splits)
    then show ?case using Cons p by (auto simp: name_str_nl)
  qed simp
  from this [of "[0..<102]"] show ?thesis
    by (auto simp: dir_get_def lessThan_atLeast0 split: option.splits)
qed


section \<open>The interface of a directory\<close>

text \<open>What the file operations rely on: a directory is a finite map with bounded room.\<close>

locale name_map =
  fixes inv :: "'d \<Rightarrow> bool" and get :: "'d \<Rightarrow> bytes \<Rightarrow> u32 option" and full :: "'d \<Rightarrow> bool"
    and add :: "bytes \<Rightarrow> u32 \<Rightarrow> u8 \<Rightarrow> 'd \<Rightarrow> 'd option" and del :: "bytes \<Rightarrow> 'd \<Rightarrow> 'd option"
  assumes add_Some: "inv d \<Longrightarrow> valid_name n \<Longrightarrow> ino \<noteq> 0 \<Longrightarrow> add n ino t d = Some d' \<Longrightarrow>
      inv d' \<and> get d' = (get d)(n \<mapsto> ino)"
    and add_None: "inv d \<Longrightarrow> valid_name n \<Longrightarrow> add n ino t d = None \<longleftrightarrow> get d n = None \<and> full d"
    and del_Some: "inv d \<Longrightarrow> valid_name n \<Longrightarrow> del n d = Some d' \<Longrightarrow> inv d' \<and> get d' = (get d)(n := None)"
    and del_None: "inv d \<Longrightarrow> valid_name n \<Longrightarrow> del n d = None \<longleftrightarrow> get d n = None"
begin

lemma del_ex:
  assumes "inv d" and "valid_name n" and "get d n = Some k"
  shows "\<exists>d'. del n d = Some d' \<and> inv d' \<and> get d' = (get d)(n := None)"
  using del_None [OF assms(1,2)] del_Some [OF assms(1,2)] assms(3) by (cases "del n d") auto

text \<open>Adding the new name and then deleting the old one moves the entry, unless the names agree.\<close>

lemma move_entry:
  assumes "inv d" and "valid_name old" and "valid_name new" and "get d old = Some k" and "ino \<noteq> 0"
    and "add new ino t d = Some d'"
  shows "\<exists>d''. del old d' = Some d'' \<and> inv d'' \<and> get d'' = (get d)(new \<mapsto> ino, old := None)"
proof -
  have d': "inv d'" "get d' = (get d)(new \<mapsto> ino)" using add_Some [OF assms(1,3,5,6)] by simp_all
  have "\<exists>k. get d' old = Some k" using d'(2) assms(4) by auto
  then show ?thesis using del_ex [OF d'(1) assms(2)] d'(2) by auto
qed

end

lemma V2_not_V1: "ONYFS_V2 \<noteq> ONYFS_V1"
  by (simp add: ONYFS_V2_def ONYFS_V1_def)

lemma add_entry_version: "v \<noteq> ONYFS_V1 \<Longrightarrow> add_entry v = add_entry ONYFS_V2"
proof -
  assume "v \<noteq> ONYFS_V1"
  then have "set_entry_inode v = set_entry_inode ONYFS_V2" "new_entry v = new_entry ONYFS_V2"
    using V2_not_V1 by (simp_all add: set_entry_inode_def new_entry_def fun_eq_iff Let_def)
  then show ?thesis by (intro ext) (simp only: add_entry_def)
qed

interpretation dm: name_map dir_wf dir_get dir_full "add_entry ONYFS_V2 40 102" "remove_entry 40 102"
proof unfold_locales
  show "\<And>d n ino t d'. dir_wf d \<Longrightarrow> valid_name n \<Longrightarrow> ino \<noteq> 0 \<Longrightarrow>
      add_entry ONYFS_V2 40 102 n ino t d = Some d' \<Longrightarrow> dir_wf d' \<and> dir_get d' = (dir_get d)(n \<mapsto> ino)"
    using add_entry_Some [OF _ _ _ V2_not_V1] by blast
qed (use add_entry_None remove_entry_Some remove_entry_None in blast)+

end
