(* ===== verification/Onyfs_Tree.thy ===== *)
theory Onyfs_Tree
  imports Onyfs_Dir
begin

text \<open>
  Directories on a mounted version 2 volume: the directory operations of \<open>Onyfs_Dir\<close> seen as
  changes of the maps \<open>dir_map s d\<close> from names to inode numbers, one per directory inode \<open>d\<close>,
  and path lookup as a walk along those maps. \<open>fs_v2\<close> says that the volume is in good order,
  \<open>dir_ok\<close> that a directory is. The demonstration volume \<open>dir_fs\<close> has an empty root directory.
\<close>

section \<open>Directories on the disk\<close>

definition dir_blk :: "fs_state \<Rightarrow> u32 \<Rightarrow> u32" where
  "dir_blk s d = ino_blocks (inode_at s d) ! 0"

definition dir_map :: "fs_state \<Rightarrow> u32 \<Rightarrow> bytes \<Rightarrow> u32 option" where
  "dir_map s d = dir_get (blk s (dir_blk s d))"

text \<open>The blocks of the inode table, as \<open>mount.rs\<close> counts them from the inode count of the superblock (rounded up), and the
  inodes that have a slot in one of them.\<close>

definition inode_table_block_count :: "fs_state \<Rightarrow> u32" where
  "inode_table_block_count s =
     (let ipb = of_nat (inodes_per_block s); cnt = sb_inode_count (fs_sb s)
      in if cnt = 0 then 1 else (cnt + ipb - 1) div ipb)"

definition valid_ino :: "fs_state \<Rightarrow> u32 \<Rightarrow> bool" where
  "valid_ino s k \<longleftrightarrow> k \<noteq> 0 \<and> unat k \<le> inodes_per_block s * unat (inode_table_block_count s)"

text \<open>A mounted version 2 volume in good order, and a directory inode with a block that is in
  good order and lies neither in the journal nor in the inode table.\<close>

definition fs_v2 :: "fs_state \<Rightarrow> bool" where
  "fs_v2 s \<longleftrightarrow> fs_ok s \<and> fs_version s \<noteq> ONYFS_V1 \<and> (\<forall>k. valid_ino s k \<longrightarrow> \<not> jarea s (iblk s k))"

definition dir_ok :: "fs_state \<Rightarrow> u32 \<Rightarrow> bool" where
  "dir_ok s d \<longleftrightarrow> valid_ino s d \<and> dir_blk s d \<noteq> 0 \<and> \<not> jarea s (dir_blk s d) \<and>
     dir_wf (blk s (dir_blk s d)) \<and> (\<forall>k. valid_ino s k \<longrightarrow> dir_blk s d \<noteq> iblk s k) \<and>
     (\<forall>n i. dir_map s d n = Some i \<longrightarrow> valid_ino s i)"

definition stat_of :: "u32 \<Rightarrow> onyfs_inode \<Rightarrow> onyfs_stat" where
  "stat_of ino i = \<lparr>st_ino = ino, st_size = ino_size i, st_mode = ino_mode i, st_mtime = ino_mtime i,
     st_atime = ino_atime i, st_ctime = ino_ctime i\<rparr>"

lemma dpb_v2: "fs_version s \<noteq> ONYFS_V1 \<Longrightarrow> dirents_per_block s = 102"
  by (simp add: dirents_per_block_def ONYFS_BLOCK_SIZE_def)

lemma valid_ino_cong: "core t = core s \<Longrightarrow> valid_ino t = valid_ino s"
  using core_sb [of t s] by (simp add: valid_ino_def inode_table_block_count_def inodes_per_block_def fun_eq_iff)

lemma fs_v2_upd: "fs_v2 s \<Longrightarrow> fs_upd s ws n t \<Longrightarrow> fs_v2 t"
  using jarea_cong [OF fs_upd_core] iblk_cong [OF fs_upd_core] core_sb [OF fs_upd_core] fs_upd_ok
    valid_ino_cong [OF fs_upd_core]
  by (metis fs_v2_def)

lemma stat_ok: "fs_v2 s \<Longrightarrow> stat ino s = (Inr (stat_of ino (inode_at s ino)), got_blk (iblk s ino) s)"
  by (simp add: stat_def fs_v2_def read_inode_ok stat_of_def)

text \<open>A write outside the inode table keeps every inode.\<close>

lemma inode_at_frame:
  assumes "fs_v2 s" and "fs_upd s ws n t" and "valid_ino s k" and "iblk s k \<notin> fst ` set ws"
  shows "inode_at t k = inode_at s k"
proof (rule inode_at_cong [OF fs_upd_core [OF assms(2)]])
  have "map_of (rev ws) (iblk s k) = None" using assms(4) by (simp add: map_of_eq_None_iff)
  then show "blk t (iblk s k) = blk s (iblk s k)"
    using fs_upd_blk [OF assms(2), of "iblk s k"] assms(1,3) by (simp add: fs_v2_def after_writes_def)
qed

lemma dir_ok_get: "fs_v2 s \<Longrightarrow> dir_ok s d \<Longrightarrow>
   read_inode d s = (Inr (inode_at s d), got_blk (iblk s d) s) \<and> ino_blocks (inode_at s d) ! 0 = dir_blk s d \<and>
   dir_blk s d \<noteq> 0"
  by (simp add: fs_v2_def read_inode_ok dir_ok_def dir_blk_def)

lemma lookup_in_ok:
  assumes "fs_v2 s" and "dir_ok s d"
  shows "\<exists>t. fs_upd s [] 0 t \<and> lookup_in d n s =
    (case dir_map s d n of None \<Rightarrow> Inl ENoEnt | Some ino \<Rightarrow> Inr (ino, stat_of ino (inode_at s ino)), t)"
proof -
  let ?g = "got_blk (dir_blk s d) (got_blk (iblk s d) s)"
  have ok: "fs_ok s" "fs_version s \<noteq> ONYFS_V1" using assms(1) by (simp_all add: fs_v2_def)
  have g: "fs_upd s [] 0 ?g" using fs_upd_trans [OF fs_upd_got fs_upd_got] ok(1) by fastforce
  note v = fs_v2_upd [OF assms(1) g]
  have at: "inode_at ?g ino = inode_at s ino" if "valid_ino s ino" for ino
    using inode_at_frame [OF assms(1) g that] by simp
  have h: "fs_upd s [] 0 (got_blk (iblk ?g ino) ?g)" for ino
    using fs_upd_trans [OF g fs_upd_got] fs_upd_ok [OF g] by fastforce
  have len: "length (blk s (dir_blk s d)) = 4096" using ok(1) by (simp add: blk_length)
  note run = lookup_in_def dir_ok_get [OF assms] read_gbuf_ok dpb_v2 search_slots_get [OF len ok(2)] dir_map_def
  show ?thesis
  proof (cases "dir_map s d n")
    case None
    then show ?thesis using g ok by (auto simp: run intro!: exI [of _ ?g])
  next
    case (Some ino)
    then have "valid_ino s ino" using assms(2) by (simp add: dir_ok_def)
    then show ?thesis using Some h [of ino] ok stat_ok [OF v, of ino] at [of ino]
      by (auto simp: run intro!: exI [of _ "got_blk (iblk ?g ino) ?g"])
  qed
qed

lemma dir_read_upd: "fs_v2 s \<Longrightarrow> fs_upd s [] 0 (got_blk b (got_blk c s))"
  using fs_upd_trans [OF fs_upd_got fs_upd_got, of s c b] by (simp add: fs_v2_def)

lemma add_dirent_ok:
  assumes "fs_v2 s" and "dir_ok s d" and "room s 1" and "valid_name n" and "ino \<noteq> 0"
  shows "case add_entry ONYFS_V2 40 102 n ino t (blk s (dir_blk s d)) of
      None \<Rightarrow> \<exists>u. fs_upd s [] 0 u \<and> add_dirent d n ino t s = (Inl ENoSpace, u)
    | Some buf \<Rightarrow> \<exists>u. fs_upd s [(dir_blk s d, buf)] 1 u \<and> add_dirent d n ino t s = (Inr (), u)"
proof -
  let ?b = "dir_blk s d"
  note g = dir_read_upd [OF assms(1), of ?b "iblk s d"]
  have ok: "fs_ok s" "fs_version s \<noteq> ONYFS_V1" "\<not> jarea s ?b" "dir_wf (blk s ?b)"
    using assms(1,2) by (simp_all add: fs_v2_def dir_ok_def)
  note run = add_dirent_def dir_ok_get [OF assms(1,2)] read_gbuf_ok dpb_v2 entry_size_def
    add_entry_version [OF ok(2)]
  show ?thesis
  proof (cases "add_entry ONYFS_V2 40 102 n ino t (blk s ?b)")
    case None
    then show ?thesis using g ok by (simp add: run)
  next
    case (Some buf)
    then have "length buf = 4096" using dm.add_Some [OF ok(4) assms(4,5)] by (simp add: dir_wf_def)
    from buffered_write_upd [OF g assms(3) ok(3) this] show ?thesis using Some ok by (auto simp: run)
  qed
qed

lemma remove_dirent_ok:
  assumes "fs_v2 s" and "dir_ok s d" and "room s 1" and "valid_name n"
  shows "case remove_entry 40 102 n (blk s (dir_blk s d)) of
      None \<Rightarrow> \<exists>u. fs_upd s [] 0 u \<and> remove_dirent d n s = (Inl ENoEnt, u)
    | Some buf \<Rightarrow> \<exists>u. fs_upd s [(dir_blk s d, buf)] 1 u \<and> remove_dirent d n s = (Inr (), u)"
proof -
  let ?b = "dir_blk s d"
  note g = dir_read_upd [OF assms(1), of ?b "iblk s d"]
  have ok: "fs_ok s" "fs_version s \<noteq> ONYFS_V1" "\<not> jarea s ?b" "dir_wf (blk s ?b)"
    using assms(1,2) by (simp_all add: fs_v2_def dir_ok_def)
  note run = remove_dirent_def Let_def dir_ok_get [OF assms(1,2)] read_gbuf_ok dpb_v2 entry_size_def
  show ?thesis
  proof (cases "remove_entry 40 102 n (blk s ?b)")
    case None
    then show ?thesis using g ok by (simp add: run)
  next
    case (Some buf)
    then have "length buf = 4096" using dm.del_Some [OF ok(4) assms(4)] by (simp add: dir_wf_def)
    from buffered_write_upd [OF g assms(3) ok(3) this] show ?thesis using Some ok by (auto simp: run)
  qed
qed

lemma remove_dirent_absent:
  assumes "fs_v2 s" and "dir_ok s d" and "remove_entry 40 102 n (blk s (dir_blk s d)) = None"
  shows "\<exists>u. fs_upd s [] 0 u \<and> remove_dirent d n s = (Inl ENoEnt, u)"
  using dir_read_upd [OF assms(1), of "dir_blk s d" "iblk s d"] assms
  by (simp add: remove_dirent_def Let_def dir_ok_get [OF assms(1,2)] read_gbuf_ok dpb_v2 entry_size_def fs_v2_def)

lemma remove_dirent_full:
  assumes "fs_v2 s" and "dir_ok s d" and "valid_name n" and "\<not> room s 1" and "remove_entry 40 102 n (blk s (dir_blk s d)) = Some buf"
  shows "\<exists>u. fs_upd s [] 0 u \<and> remove_dirent d n s = (Inl ENoSpace, u)"
proof -
  let ?b = "dir_blk s d" let ?g = "got_blk ?b (got_blk (iblk s d) s)"
  have ok: "fs_ok s" "fs_version s \<noteq> ONYFS_V1" "dir_wf (blk s ?b)"
    using assms(1,2) by (simp_all add: fs_v2_def dir_ok_def)
  have len: "length buf = 4096" using dm.del_Some [OF ok(3) assms(3,5)] by (simp add: dir_wf_def)
  have u: "fs_upd s [] 0 (?g\<lparr>fs_buf := buf\<rparr>)"
    using fs_upd_trans [OF dir_read_upd [OF assms(1)] fs_upd_buf [OF _ len]] fs_upd_ok [OF dir_read_upd [OF assms(1)]] by fastforce
  have "\<not> room (?g\<lparr>fs_buf := buf\<rparr>) 1" using assms(4) by (simp add: room_def no_journal_def jsize_def)
  then show ?thesis
    using u ok assms(5) logged_write_full
    by (simp add: remove_dirent_def Let_def dir_ok_get [OF assms(1,2)] read_gbuf_ok dpb_v2 entry_size_def)
qed

text \<open>What a write of one directory's block does to every directory.\<close>

lemma dir_write_upd:
  assumes "fs_v2 s" and "dir_ok s d" and "fs_upd s [(dir_blk s d, buf)] n u" and "dir_wf buf"
    and "\<forall>n i. dir_get buf n = Some i \<longrightarrow> valid_ino s i"
  shows "fs_v2 u" and "\<And>k. valid_ino s k \<Longrightarrow> inode_at u k = inode_at s k"
    and "\<And>e. valid_ino s e \<Longrightarrow> dir_blk u e = dir_blk s e"
    and "dir_map u d = dir_get buf" and "\<And>e. dir_ok s e \<Longrightarrow> dir_ok u e"
    and "\<And>e. dir_ok s e \<Longrightarrow> dir_blk s e \<noteq> dir_blk s d \<Longrightarrow> dir_map u e = dir_map s e"
proof -
  note c = fs_upd_core [OF assms(3)]
  show "fs_v2 u" using fs_v2_upd [OF assms(1,3)] .
  show at: "inode_at u k = inode_at s k" if "valid_ino s k" for k
  proof -
    have "iblk s k \<noteq> dir_blk s d" using assms(2) that unfolding dir_ok_def by metis
    then show ?thesis using inode_at_frame [OF assms(1,3) that] by simp
  qed
  then show b: "dir_blk u e = dir_blk s e" if "valid_ino s e" for e using that by (simp add: dir_blk_def)
  have bu: "blk u b = (if b = dir_blk s d then buf else blk s b)" if "\<not> jarea s b" for b
    using fs_upd_blk [OF assms(3) that] by (simp add: after_writes_def)
  then show d: "dir_map u d = dir_get buf" using assms(2) b by (simp add: dir_map_def dir_ok_def)
  show o: "dir_map u e = dir_map s e" if "dir_ok s e" "dir_blk s e \<noteq> dir_blk s d" for e
    using bu b that by (simp add: dir_map_def dir_ok_def)
  show "dir_ok u e" if e: "dir_ok s e" for e
  proof -
    have e': "dir_blk u e = dir_blk s e" "\<not> jarea s (dir_blk s e)" using b e by (simp_all add: dir_ok_def)
    have "dir_map u e = (if dir_blk s e = dir_blk s d then dir_get buf else dir_map s e)"
      using bu e' by (simp add: dir_map_def)
    then show ?thesis
      using e e' bu assms(4,5) jarea_cong [OF c] iblk_cong [OF c] valid_ino_cong [OF c]
      by (auto simp: dir_ok_def)
  qed
qed

lemma dir_add_upd:
  assumes "fs_v2 s" and "dir_ok s d" and "room s 1" and "valid_name n" and "valid_ino s ino"
    and "\<not> (dir_map s d n = None \<and> dir_full (blk s (dir_blk s d)))"
  shows "\<exists>u buf. add_dirent d n ino t s = (Inr (), u) \<and> fs_upd s [(dir_blk s d, buf)] 1 u \<and> fs_v2 u \<and>
    dir_map u d = (dir_map s d)(n \<mapsto> ino) \<and> (\<forall>k. valid_ino s k \<longrightarrow> inode_at u k = inode_at s k) \<and>
    (\<forall>e. dir_ok s e \<longrightarrow> dir_ok u e) \<and>
    (\<forall>e. dir_ok s e \<and> dir_blk s e \<noteq> dir_blk s d \<longrightarrow> dir_map u e = dir_map s e)"
proof -
  have wf: "dir_wf (blk s (dir_blk s d))" and ino: "ino \<noteq> 0"
    using assms(2,5) by (simp_all add: dir_ok_def valid_ino_def)
  obtain buf where buf: "add_entry ONYFS_V2 40 102 n ino t (blk s (dir_blk s d)) = Some buf"
    using dm.add_None [OF wf assms(4), of ino t] assms(6) by (auto simp: dir_map_def)
  have b: "dir_wf buf" "dir_get buf = (dir_map s d)(n \<mapsto> ino)"
    using dm.add_Some [OF wf assms(4) ino buf] by (simp_all add: dir_map_def)
  have vi: "\<forall>m i. dir_get buf m = Some i \<longrightarrow> valid_ino s i"
    using b(2) assms(2,5) by (auto simp: dir_ok_def split: if_splits)
  obtain u where u: "fs_upd s [(dir_blk s d, buf)] 1 u" "add_dirent d n ino t s = (Inr (), u)"
    using add_dirent_ok [OF assms(1-4) ino, of t] buf by auto
  show ?thesis using u dir_write_upd [OF assms(1,2) u(1) b(1) vi] b(2)
    by (intro exI [of _ u] exI [of _ buf]) simp
qed

lemma dir_remove_upd:
  assumes "fs_v2 s" and "dir_ok s d" and "room s 1" and "valid_name n" and "dir_map s d n \<noteq> None"
  shows "\<exists>u buf. remove_dirent d n s = (Inr (), u) \<and> fs_upd s [(dir_blk s d, buf)] 1 u \<and> fs_v2 u \<and>
    dir_map u d = (dir_map s d)(n := None) \<and> (\<forall>k. valid_ino s k \<longrightarrow> inode_at u k = inode_at s k) \<and>
    (\<forall>e. dir_ok s e \<longrightarrow> dir_ok u e) \<and>
    (\<forall>e. dir_ok s e \<and> dir_blk s e \<noteq> dir_blk s d \<longrightarrow> dir_map u e = dir_map s e)"
proof -
  have wf: "dir_wf (blk s (dir_blk s d))" using assms(2) by (simp add: dir_ok_def)
  obtain buf where buf: "remove_entry 40 102 n (blk s (dir_blk s d)) = Some buf"
    using dm.del_None [OF wf assms(4)] assms(5) by (auto simp: dir_map_def)
  have b: "dir_wf buf" "dir_get buf = (dir_map s d)(n := None)"
    using dm.del_Some [OF wf assms(4) buf] by (simp_all add: dir_map_def)
  have vi: "\<forall>m i. dir_get buf m = Some i \<longrightarrow> valid_ino s i"
    using b(2) assms(2) by (auto simp: dir_ok_def split: if_splits)
  obtain u where u: "fs_upd s [(dir_blk s d, buf)] 1 u" "remove_dirent d n s = (Inr (), u)"
    using remove_dirent_ok [OF assms(1-4)] buf by auto
  show ?thesis using u dir_write_upd [OF assms(1,2) u(1) b(1) vi] b(2)
    by (intro exI [of _ u] exI [of _ buf]) simp
qed

text \<open>C19: Adding a name to a directory. With journal space for one entry, a valid name and inode number and a directory block in
  good order, \<open>add_dirent\<close> succeeds unless the name is new and all 102 entries are in use, when it
  fails with \<open>NoSpace\<close>; on success the directory maps the name to the inode and every other name as
  before, whether the name was already there or not, all inodes and all other directories are
  unchanged, and the directory is again in good order.\<close>

theorem dir_add_correct:
  assumes "fs_v2 s" and "dir_ok s d" and "room s 1" and "valid_name n" and "valid_ino s ino"
  shows "if dir_map s d n = None \<and> dir_full (blk s (dir_blk s d))
    then \<exists>u. add_dirent d n ino t s = (Inl ENoSpace, u) \<and> (\<forall>b. \<not> jarea s b \<longrightarrow> blk u b = blk s b)
    else \<exists>u. add_dirent d n ino t s = (Inr (), u) \<and> fs_v2 u \<and> dir_ok u d \<and>
      dir_map u d = (dir_map s d)(n \<mapsto> ino) \<and> (\<forall>k. valid_ino s k \<longrightarrow> inode_at u k = inode_at s k) \<and>
      (\<forall>e. dir_ok s e \<and> dir_blk s e \<noteq> dir_blk s d \<longrightarrow> dir_ok u e \<and> dir_map u e = dir_map s e)"
proof (cases "dir_map s d n = None \<and> dir_full (blk s (dir_blk s d))")
  case True
  have wf: "dir_wf (blk s (dir_blk s d))" and "ino \<noteq> 0"
    using assms(2,5) by (simp_all add: dir_ok_def valid_ino_def)
  moreover have "add_entry ONYFS_V2 40 102 n ino t (blk s (dir_blk s d)) = None"
    using dm.add_None [OF wf assms(4)] True by (simp add: dir_map_def)
  ultimately show ?thesis using True add_dirent_ok [OF assms(1-4), of ino t] fs_upd_none_blk by auto
next
  case False
  show ?thesis using False dir_add_upd [OF assms False, of t] assms(2) by auto
qed

text \<open>C20: Removing a valid name (1 to 32 bytes, none of them 0) from a directory in good order on a version 2 volume.
  When the directory has the name and the journal has a free slot, \<open>remove_dirent\<close> succeeds: the directory loses exactly
  that name, every inode and every other directory stays as it was, and looking the name up afterwards fails with
  \<open>NoEnt\<close>. When the directory does not have the name it fails with \<open>NoEnt\<close>, and when it has the name but the journal is full with
  \<open>NoSpace\<close>; in both cases no block outside the journal changes.\<close>

theorem dir_remove_correct:
  assumes "fs_v2 s" and "dir_ok s d" and "valid_name n"
  shows "if dir_map s d n = None
    then \<exists>u. remove_dirent d n s = (Inl ENoEnt, u) \<and> (\<forall>b. \<not> jarea s b \<longrightarrow> blk u b = blk s b)
    else if \<not> room s 1
    then \<exists>u. remove_dirent d n s = (Inl ENoSpace, u) \<and> (\<forall>b. \<not> jarea s b \<longrightarrow> blk u b = blk s b)
    else \<exists>u. remove_dirent d n s = (Inr (), u) \<and> fs_v2 u \<and> dir_ok u d \<and>
      dir_map u d = (dir_map s d)(n := None) \<and> (\<forall>k. valid_ino s k \<longrightarrow> inode_at u k = inode_at s k) \<and>
      (\<forall>e. dir_ok s e \<and> dir_blk s e \<noteq> dir_blk s d \<longrightarrow> dir_ok u e \<and> dir_map u e = dir_map s e) \<and>
      fst (lookup_in d n u) = Inl ENoEnt"
proof -
  have wf: "dir_wf (blk s (dir_blk s d))" using assms(2) by (simp add: dir_ok_def)
  have none: "remove_entry 40 102 n (blk s (dir_blk s d)) = None \<longleftrightarrow> dir_map s d n = None"
    using dm.del_None [OF wf assms(3)] by (simp add: dir_map_def)
  consider (absent) "dir_map s d n = None" | (full) "dir_map s d n \<noteq> None" "\<not> room s 1"
    | (ok) "dir_map s d n \<noteq> None" "room s 1" by blast
  then show ?thesis
  proof cases
    case absent
    then obtain u where "fs_upd s [] 0 u" "remove_dirent d n s = (Inl ENoEnt, u)"
      using remove_dirent_absent [OF assms(1,2)] none by blast
    then show ?thesis using absent fs_upd_none_blk by auto
  next
    case full
    then obtain u where "fs_upd s [] 0 u" "remove_dirent d n s = (Inl ENoSpace, u)"
      using remove_dirent_full [OF assms full(2)] none by fastforce
    then show ?thesis using full fs_upd_none_blk by auto
  next
    case ok
    obtain u where u: "remove_dirent d n s = (Inr (), u)" "fs_v2 u" "dir_map u d = (dir_map s d)(n := None)"
      "\<forall>k. valid_ino s k \<longrightarrow> inode_at u k = inode_at s k" "dir_ok u d" "\<forall>e. dir_ok s e \<longrightarrow> dir_ok u e"
      "\<forall>e. dir_ok s e \<and> dir_blk s e \<noteq> dir_blk s d \<longrightarrow> dir_map u e = dir_map s e"
      using dir_remove_upd [OF assms(1,2) ok(2) assms(3) ok(1)] assms(2) by blast
    moreover have "fst (lookup_in d n u) = Inl ENoEnt" using lookup_in_ok [OF u(2,5), of n] u(3) by auto
    ultimately show ?thesis using ok by simp
  qed
qed

section \<open>Path resolution\<close>

text \<open>The components of a path, and the walk along the directory maps.\<close>

lemma dropWhile_slashes_less:
  assumes "dropWhile (\<lambda>b. b = SLASH) path \<noteq> []"
  shows "length (dropWhile (\<lambda>b. b \<noteq> SLASH) (dropWhile (\<lambda>b. b = SLASH) path)) < length path"
proof -
  let ?r = "dropWhile (\<lambda>b. b = SLASH) path"
  have "hd ?r \<noteq> SLASH" using assms hd_dropWhile by blast
  then have "length (dropWhile (\<lambda>b. b \<noteq> SLASH) ?r) < length ?r"
    using assms by (cases ?r) (auto simp: less_Suc_eq_le length_dropWhile_le)
  also have "\<dots> \<le> length path" by (rule length_dropWhile_le)
  finally show ?thesis .
qed

function path_comps :: "bytes \<Rightarrow> bytes list" where
  "path_comps path =
     (let r = dropWhile (\<lambda>b. b = SLASH) path in
      if r = [] then [] else takeWhile (\<lambda>b. b \<noteq> SLASH) r # path_comps (dropWhile (\<lambda>b. b \<noteq> SLASH) r))"
  by pat_completeness auto
termination
  by (relation "measure length") (simp_all add: dropWhile_slashes_less del: dropWhile_eq_Nil_conv)

declare path_comps.simps [simp del] lookup_walk.simps [simp del]

fun resolve :: "fs_state \<Rightarrow> u32 \<Rightarrow> bytes list \<Rightarrow> u32 option" where
  "resolve s cur [] = Some cur"
| "resolve s cur (c # cs) = (case dir_map s cur c of None \<Rightarrow> None | Some i \<Rightarrow> resolve s i cs)"

fun resolve_ok :: "fs_state \<Rightarrow> u32 \<Rightarrow> bytes list \<Rightarrow> bool" where
  "resolve_ok s cur [] = True"
| "resolve_ok s cur (c # cs) = (dir_ok s cur \<and>
     (case dir_map s cur c of None \<Rightarrow> True | Some i \<Rightarrow> resolve_ok s i cs))"

lemma position_split:
  "position p xs = (if \<exists>x\<in>set xs. p x then Some (length (takeWhile (\<lambda>x. \<not> p x) xs)) else None)"
  by (induction xs) auto

lemma path_comps_Nil [simp]: "path_comps [] = []"
  by (subst path_comps.simps) simp

lemma path_comps_slash: "path_comps (SLASH # xs) = path_comps xs"
  by (subst (1 2) path_comps.simps) simp

lemma path_comps_split:
  assumes "r \<noteq> []" and "hd r \<noteq> SLASH"
  shows "path_comps r = (case position (\<lambda>b. b = SLASH) r of
    Some idx \<Rightarrow> take idx r # path_comps (drop (idx + 1) r) | None \<Rightarrow> [r])"
proof -
  have r: "dropWhile (\<lambda>b. b = SLASH) r = r" using assms by (cases r) auto
  have c: "path_comps r = takeWhile (\<lambda>b. b \<noteq> SLASH) r # path_comps (dropWhile (\<lambda>b. b \<noteq> SLASH) r)"
    using assms(1) by (subst path_comps.simps) (simp add: r)
  show ?thesis
  proof (cases "SLASH \<in> set r")
    case True
    then obtain t where t: "dropWhile (\<lambda>b. b \<noteq> SLASH) r = SLASH # t"
      by (metis (mono_tags, lifting) dropWhile_eq_Nil_conv hd_dropWhile list.exhaust_sel)
    then have "drop (length (takeWhile (\<lambda>b. b \<noteq> SLASH) r) + 1) r = t"
      by (metis add.commute drop_drop dropWhile_eq_drop drop_Suc_Cons drop0 plus_1_eq_Suc)
    then show ?thesis using True t c
      by (auto simp: position_split path_comps_slash takeWhile_eq_take [symmetric])
  next
    case False
    then have w: "takeWhile (\<lambda>b. b \<noteq> SLASH) r = r" "dropWhile (\<lambda>b. b \<noteq> SLASH) r = []"
      by (auto simp: takeWhile_eq_all_conv)
    have "path_comps r = [r]" unfolding c w by simp
    then show ?thesis using False by (auto simp: position_split)
  qed
qed

lemma path_comps_drop: "path_comps (dropWhile (\<lambda>b. b = SLASH) path) = path_comps path"
  by (subst (1 2) path_comps.simps) (simp add: dropWhile_idem)


lemma path_comps_slashes: "dropWhile (\<lambda>b. b = SLASH) path = [] \<Longrightarrow> path_comps path = []"
  by (subst path_comps.simps) simp

lemma dir_map_read:
  assumes "fs_v2 s" and "fs_upd s [] n t" and "dir_ok s d"
  shows "dir_ok t d" and "dir_map t d = dir_map s d"
proof -
  have b: "dir_blk t d = dir_blk s d" using inode_at_frame [OF assms(1,2), of d] assms(3) by (simp add: dir_blk_def dir_ok_def)
  then have "blk t (dir_blk t d) = blk s (dir_blk s d)"
    using fs_upd_blk [OF assms(2)] assms(3) by (simp add: dir_ok_def after_writes_def)
  then show "dir_ok t d" "dir_map t d = dir_map s d"
    using b assms(3) jarea_cong [OF fs_upd_core [OF assms(2)]] iblk_cong [OF fs_upd_core [OF assms(2)]]
      valid_ino_cong [OF fs_upd_core [OF assms(2)]]
    by (simp_all add: dir_map_def dir_ok_def)
qed

lemma resolve_read:
  assumes "fs_v2 s" and "fs_upd s [] n t"
  shows "resolve_ok s cur cs \<Longrightarrow> resolve_ok t cur cs \<and> resolve t cur cs = resolve s cur cs"
  using dir_map_read [OF assms]
  by (induction cs arbitrary: cur) (auto split: option.splits)

text \<open>One round of the walk: the first component, and the rest of the path when there is one.\<close>

lemma lookup_walk_round:
  assumes "dropWhile (\<lambda>b. b = SLASH) path \<noteq> []"
  obtains c cs rest where "path_comps path = c # cs"
    and "\<forall>cur s. lookup_walk cur path s = (case lookup_in cur c s of (Inl e, t) \<Rightarrow> (Inl e, t)
      | (Inr (i, st), t) \<Rightarrow> (case rest of None \<Rightarrow> (Inr i, t) | Some p \<Rightarrow> lookup_walk i p t))"
    and "case rest of None \<Rightarrow> cs = [] | Some p \<Rightarrow> path_comps p = cs \<and> length p < length path"
proof -
  let ?r = "dropWhile (\<lambda>b. b = SLASH) path"
  note [simp del] = dropWhile_eq_Nil_conv
  have hd: "hd ?r \<noteq> SLASH" using assms hd_dropWhile by blast
  have pc: "path_comps path = (case position (\<lambda>b. b = SLASH) ?r of
      Some idx \<Rightarrow> take idx ?r # path_comps (drop (idx + 1) ?r) | None \<Rightarrow> [?r])"
    using path_comps_split [OF assms hd] by (simp add: path_comps_drop)
  note step = lookup_walk.simps [of _ path]
  show ?thesis
  proof (cases "position (\<lambda>b. b = SLASH) ?r")
    case None
    show ?thesis
      by (rule that [of ?r "[]" None]) (use assms None pc in \<open>simp_all add: step Let_def split: prod.split sum.split\<close>)
  next
    case (Some idx)
    have "idx \<noteq> 0" using Some hd assms by (cases ?r) auto
    moreover have "length (drop (idx + 1) ?r) < length path"
      using assms length_dropWhile_le [of "\<lambda>b. b = SLASH" path] by (cases ?r) auto
    ultimately show ?thesis
      by (intro that [of "take idx ?r" "path_comps (drop (idx + 1) ?r)" "Some (drop (idx + 1) ?r)"])
        (use assms Some pc in \<open>simp_all add: step Let_def split: prod.split sum.split\<close>)
  qed
qed

lemma lookup_walk_resolve:
  "fs_v2 s \<Longrightarrow> resolve_ok s cur (path_comps path) \<Longrightarrow>
    \<exists>t. fs_upd s [] 0 t \<and> lookup_walk cur path s =
      (case resolve s cur (path_comps path) of None \<Rightarrow> Inl ENoEnt | Some i \<Rightarrow> Inr i, t)"
proof (induction "length path" arbitrary: path cur s rule: less_induct)
  case less
  have ok: "fs_ok s" using less.prems(1) by (simp add: fs_v2_def)
  show ?case
  proof (cases "dropWhile (\<lambda>b. b = SLASH) path = []")
    case True
    then show ?thesis using path_comps_slashes [OF True] fs_upd_refl [OF ok]
      by (subst lookup_walk.simps) auto
  next
    case False
    obtain c cs rest where pc: "path_comps path = c # cs"
      and step: "\<forall>cur s. lookup_walk cur path s = (case lookup_in cur c s of (Inl e, t) \<Rightarrow> (Inl e, t)
        | (Inr (i, st), t) \<Rightarrow> (case rest of None \<Rightarrow> (Inr i, t) | Some p \<Rightarrow> lookup_walk i p t))"
      and rest: "case rest of None \<Rightarrow> cs = [] | Some p \<Rightarrow> path_comps p = cs \<and> length p < length path"
      by (rule lookup_walk_round [OF False]) blast
    have d: "dir_ok s cur" using less.prems(2) by (simp add: pc)
    obtain t where t: "fs_upd s [] 0 t" "lookup_in cur c s = (case dir_map s cur c of None \<Rightarrow> Inl ENoEnt
        | Some ino \<Rightarrow> Inr (ino, stat_of ino (inode_at s ino)), t)"
      using lookup_in_ok [OF less.prems(1) d, of c] by blast
    note v = fs_v2_upd [OF less.prems(1) t(1)]
    show ?thesis
    proof (cases "dir_map s cur c")
      case None
      then show ?thesis using t by (auto simp: step pc)
    next
      case (Some i)
      have rk: "resolve_ok t i cs" "resolve t i cs = resolve s i cs"
        using resolve_read [OF less.prems(1) t(1), of i cs] less.prems(2) Some by (simp_all add: pc)
      show ?thesis
      proof (cases rest)
        case N: None
        then show ?thesis using Some t rest by (auto simp: step pc)
      next
        case S: (Some p)
        then obtain u where u: "fs_upd t [] 0 u"
          "lookup_walk i p t = (case resolve t i cs of None \<Rightarrow> Inl ENoEnt | Some i \<Rightarrow> Inr i, u)"
          using less.hyps [OF _ v, of p i] rk(1) rest by auto
        then show ?thesis using Some S t rk(2) fs_upd_trans [OF t(1) u(1)] by (auto simp: step pc)
      qed
    qed
  qed
qed

text \<open>The inode a path resolves to is one of the table.\<close>

lemma resolve_valid:
  "resolve_ok s cur cs \<Longrightarrow> valid_ino s cur \<Longrightarrow> resolve s cur cs = Some i \<Longrightarrow> valid_ino s i"
proof (induction cs arbitrary: cur)
  case (Cons c cs)
  then obtain k where "dir_map s cur c = Some k" by (cases "dir_map s cur c") auto
  then show ?case using Cons by (auto simp: dir_ok_def)
qed simp

lemma lookup_ok:
  assumes "fs_v2 s" and "resolve_ok s ONYFS_ROOT_INO (path_comps path)" and "valid_ino s ONYFS_ROOT_INO"
  shows "\<exists>t. fs_upd s [] 0 t \<and> lookup path s = (case resolve s ONYFS_ROOT_INO (path_comps path) of
      None \<Rightarrow> Inl ENoEnt | Some i \<Rightarrow> Inr (i, stat_of i (inode_at s i)), t)"
proof -
  obtain t where t: "fs_upd s [] 0 t" "lookup_walk ONYFS_ROOT_INO path s =
      (case resolve s ONYFS_ROOT_INO (path_comps path) of None \<Rightarrow> Inl ENoEnt | Some i \<Rightarrow> Inr i, t)"
    using lookup_walk_resolve [OF assms(1,2)] by blast
  show ?thesis
  proof (cases "resolve s ONYFS_ROOT_INO (path_comps path)")
    case None
    then show ?thesis using t by (auto simp: lookup_def)
  next
    case (Some i)
    let ?u = "got_blk (iblk t i) t"
    have "inode_at t i = inode_at s i"
      using inode_at_frame [OF assms(1) t(1) resolve_valid [OF assms(2,3) Some]] by simp
    moreover have "fs_upd s [] 0 ?u" using fs_upd_trans [OF t(1) fs_upd_got [OF fs_upd_ok [OF t(1)]]] by simp
    ultimately show ?thesis
      using Some t(2) stat_ok [OF fs_v2_upd [OF assms(1) t(1)]] by (auto simp: lookup_def)
  qed
qed

text \<open>C18: Path lookup. On a volume in good order, \<open>lookup\<close> of a path walks the directory maps along
  the components of the path (empty components, from repeated slashes, are skipped) starting at the
  root: it returns the inode number reached and its \<open>stat\<close>, or \<open>NoEnt\<close> when a component is
  missing. No block outside the journal changes.\<close>

theorem lookup_correct:
  assumes "fs_v2 s" and "resolve_ok s ONYFS_ROOT_INO (path_comps path)" and "valid_ino s ONYFS_ROOT_INO"
  shows "\<exists>t. lookup path s = (case resolve s ONYFS_ROOT_INO (path_comps path) of
      None \<Rightarrow> Inl ENoEnt | Some i \<Rightarrow> Inr (i, stat_of i (inode_at s i)), t) \<and>
    (\<forall>b. \<not> jarea s b \<longrightarrow> blk t b = blk s b)"
  using lookup_ok [OF assms] fs_upd_none_blk by blast

text \<open>The last component of a path.\<close>

lemma path_comps_append: "path_comps (xs @ SLASH # ys) = path_comps xs @ path_comps ys"
proof (induction "length xs" arbitrary: xs rule: less_induct)
  case less
  let ?r = "dropWhile (\<lambda>b. b = SLASH) xs"
  note [simp del] = dropWhile_eq_Nil_conv
  show ?case
  proof (cases "?r = []")
    case True
    then have "dropWhile (\<lambda>b. b = SLASH) (xs @ SLASH # ys) = dropWhile (\<lambda>b. b = SLASH) ys"
      by (simp add: dropWhile_append dropWhile_eq_Nil_conv)
    then show ?thesis using path_comps_slashes [OF True] path_comps_drop [of "xs @ SLASH # ys"] path_comps_drop [of ys]
      by simp
  next
    case False
    have hd: "hd ?r \<noteq> SLASH" using False hd_dropWhile by blast
    have "dropWhile (\<lambda>b. b = SLASH) (xs @ SLASH # ys) = ?r @ SLASH # ys"
      using False by (auto simp: dropWhile_append dropWhile_eq_Nil_conv)
    then have x: "path_comps (xs @ SLASH # ys) = path_comps (?r @ SLASH # ys)"
      using path_comps_drop [of "xs @ SLASH # ys"] by simp
    have "path_comps (?r @ SLASH # ys) = path_comps ?r @ path_comps ys"
    proof (cases "position (\<lambda>b. b = SLASH) ?r")
      case None
      then show ?thesis using False hd path_comps_split [of "?r @ SLASH # ys"] path_comps_split [of ?r]
        by (simp add: position_append)
    next
      case (Some idx)
      have "idx < length ?r" using Some by (simp add: position_Some)
      moreover from this have "length (drop (idx + 1) ?r) < length xs"
        using length_dropWhile_le [of "\<lambda>b. b = SLASH" xs] by simp
      note less [OF this]
      ultimately show ?thesis using Some False hd path_comps_split [of "?r @ SLASH # ys"] path_comps_split [of ?r]
        by (simp add: position_append)
    qed
    then show ?thesis using x path_comps_drop [of xs] by simp
  qed
qed

lemma path_comps_plain:
  assumes "SLASH \<notin> set n" and "n \<noteq> []"
  shows "path_comps n = [n]"
proof -
  have "position (\<lambda>b. b = SLASH) n = None" using assms(1) by (auto simp: position_None)
  moreover have "hd n \<noteq> SLASH" using assms by (cases n) auto
  ultimately show ?thesis using path_comps_split [OF assms(2)] by simp
qed

lemma resolve_snoc: "resolve s cur (cs @ [n]) = (case resolve s cur cs of None \<Rightarrow> None | Some p \<Rightarrow> dir_map s p n)"
  by (induction cs arbitrary: cur) (auto split: option.splits)

lemma resolve_ok_snoc: "resolve_ok s cur cs \<Longrightarrow> (\<And>p. resolve s cur cs = Some p \<Longrightarrow> dir_ok s p) \<Longrightarrow>
    resolve_ok s cur (cs @ [n])"
  by (induction cs arbitrary: cur) (auto split: option.splits)

definition demo_dir :: onyfs_inode where
  "demo_dir = demo_inode\<lparr>ino_mode := ONYFS_DT_DIR, ino_blocks := 30 # replicate 9 0\<rparr>"

definition dir_fs :: fs_state where
  "dir_fs = put_blk 2 (blit zero_block 0 (inode_to_bytes demo_dir)) plain_fs"

lemma live_zero: "\<not> live zero_block i"
proof
  assume l: "live zero_block i"
  then have "i < 102" by (simp add: live_def)
  then have "slot_inode 40 zero_block i = 0"
    by (simp add: slot_inode_def zero_block_def ONYFS_BLOCK_SIZE_def)
  then show False using l slot_fields(1) [of zero_block i] \<open>i < 102\<close> by (simp add: live_def)
qed

lemma dir_get_zero: "dir_get zero_block n = None"
  by (simp add: dir_get_None live_zero)

lemma demo_dir_wf: "inode_wf demo_dir"
  by (simp add: inode_wf_def demo_dir_def demo_inode_def ONYFS_DIRECT_BLKS_def)

lemma dir_fs_upd: "fs_upd plain_fs [(2, blit zero_block 0 (inode_to_bytes demo_dir))] 1 dir_fs"
  using demo_dir_wf by (simp add: fs_upd_def dir_fs_def core_def after_writes_def blk_put)


lemma dir_fs_ok [simp]: "fs_v2 dir_fs" "room dir_fs n" "\<not> jarea dir_fs b" "valid_ino dir_fs k \<longleftrightarrow> k \<noteq> 0 \<and> k \<le> 64"
proof -
  have c: "core dir_fs = core plain_fs" using fs_upd_core [OF dir_fs_upd] .
  show "fs_v2 dir_fs" using fs_v2_upd [OF _ dir_fs_upd] by (simp add: fs_v2_def)
  show "room dir_fs n" "\<not> jarea dir_fs b" using jarea_cong [OF c] by (simp_all add: room_def)
  show "valid_ino dir_fs k \<longleftrightarrow> k \<noteq> 0 \<and> k \<le> 64" using core_sb [OF c]
    by (simp add: valid_ino_def inode_table_block_count_def inodes_per_block_def ONYFS_BLOCK_SIZE_def word_le_nat_alt)
qed

lemma dir_fs_iblk: "k \<noteq> 0 \<Longrightarrow> k \<le> 64 \<Longrightarrow> iblk dir_fs k \<in> {2, 3}"
proof -
  assume k: "k \<noteq> 0" "k \<le> 64"
  have "iblk dir_fs k = iblk plain_fs k" using iblk_cong [OF fs_upd_core [OF dir_fs_upd]] by simp
  moreover have "unat k - 1 < 64" using k by (simp add: word_le_nat_alt unat_gt_0)
  then have "inode_idx k div 32 = 0 \<or> inode_idx k div 32 = 1" by (auto simp: inode_idx_def)
  ultimately show ?thesis by (auto simp: iblk_def ipb_v2)
qed

lemma dir_fs_root: "inode_at dir_fs 1 = demo_dir\<lparr>ino_ctime := 0\<rparr>"
proof -
  have i: "iblk plain_fs 1 = 2" "islot 1 = 0" by (simp_all add: iblk_def islot_def inode_idx_def)
  show ?thesis
    using inode_at_upd(1) [OF plain_fs_ok(1,2,5) demo_dir_wf, of 1 1 dir_fs] dir_fs_upd by (simp add: i)
qed

lemma dir_fs_dir: "dir_blk dir_fs 1 = 30" "blk dir_fs 30 = zero_block" "dir_ok dir_fs 1" "dir_map dir_fs 1 n = None"
proof -
  show b: "dir_blk dir_fs 1 = 30" by (simp add: dir_blk_def dir_fs_root demo_dir_def)
  show z: "blk dir_fs 30 = zero_block"
    using fs_upd_blk [OF dir_fs_upd, of 30] by (simp add: after_writes_def)
  then show m: "dir_map dir_fs 1 n = None" for n using b by (simp add: dir_map_def dir_get_zero)
  have "30 \<noteq> iblk dir_fs k" if "valid_ino dir_fs k" for k using dir_fs_iblk [of k] that by auto
  moreover have "dir_wf zero_block" by (simp add: dir_wf_def live_zero)
  ultimately show "dir_ok dir_fs 1" using m by (simp add: dir_ok_def b z)
qed

theorem dir_add_correct_witness:
  "\<exists>u. add_dirent 1 [0x61] 5 0 dir_fs = (Inr (), u) \<and> dir_map u 1 = [[0x61] \<mapsto> 5]"
proof -
  have "\<not> dir_full zero_block" by (simp add: dir_full_def live_zero exI [of _ 0])
  moreover have "dir_map dir_fs 1 = Map.empty" using dir_fs_dir(4) by auto
  ultimately show ?thesis
    using dir_add_correct [OF dir_fs_ok(1) dir_fs_dir(3) dir_fs_ok(2), of "[0x61]" 5 0]
    by (auto simp: valid_name_def dir_fs_dir)
qed

theorem dir_remove_correct_witness:
  "(\<exists>u. remove_dirent 1 [0x61] dir_fs = (Inl ENoEnt, u) \<and> blk u 30 = zero_block) \<and>
   (\<exists>s u. dir_map s 1 [0x61] = Some 5 \<and> remove_dirent 1 [0x61] s = (Inr (), u) \<and> dir_map u 1 = Map.empty)"
proof
  show "\<exists>u. remove_dirent 1 [0x61] dir_fs = (Inl ENoEnt, u) \<and> blk u 30 = zero_block"
    using dir_remove_correct [OF dir_fs_ok(1) dir_fs_dir(3), of "[0x61]"] by (auto simp: valid_name_def dir_fs_dir)
  have n: "valid_name [0x61]" by (simp add: valid_name_def)
  have "\<not> dir_full zero_block" by (simp add: dir_full_def live_zero exI [of _ 0])
  then obtain s buf where s: "fs_upd dir_fs [(30, buf)] 1 s" "fs_v2 s" "dir_map s 1 = (dir_map dir_fs 1)([0x61] \<mapsto> 5)" "dir_ok s 1"
    using dir_add_upd [OF dir_fs_ok(1) dir_fs_dir(3) dir_fs_ok(2) n, of 5 0] dir_fs_dir by auto
  have m: "dir_map s 1 = [[0x61] \<mapsto> 5]" using s(3) dir_fs_dir(4) by auto
  have "no_journal dir_fs" using jarea_cong [OF fs_upd_core [OF dir_fs_upd]] by simp
  then have "room s 1" using jarea_cong [OF fs_upd_core [OF s(1)]] by (simp add: room_def)
  then obtain u where "remove_dirent 1 [0x61] s = (Inr (), u)" "dir_map u 1 = (dir_map s 1)([0x61] := None)"
    using dir_remove_correct [OF s(2,4) n] m by auto
  moreover have "(dir_map s 1)([0x61] := None) = Map.empty" using m by auto
  ultimately show "\<exists>s u. dir_map s 1 [0x61] = Some 5 \<and> remove_dirent 1 [0x61] s = (Inr (), u) \<and> dir_map u 1 = Map.empty"
    using m by (intro exI [of _ s] exI [of _ u]) simp
qed

theorem lookup_correct_witness:
  "fst (lookup [SLASH, 0x61] dir_fs) = Inl ENoEnt \<and>
   fst (lookup [SLASH] dir_fs) = Inr (1, stat_of 1 (demo_dir\<lparr>ino_ctime := 0\<rparr>))"
proof -
  have p: "path_comps [SLASH] = []" "path_comps [SLASH, 0x61] = [[0x61]]"
    by (simp_all add: path_comps.simps)
  show ?thesis
    using lookup_correct [of dir_fs "[SLASH]"] lookup_correct [of dir_fs "[SLASH, 0x61]"]
    by (auto simp: p ONYFS_ROOT_INO_def dir_fs_dir dir_fs_root)
qed

end
