(* ===== verification/Onyfs_File.thy ===== *)
theory Onyfs_File
  imports Onyfs_Tree
begin

text \<open>
  The file operations of OnyxFS: \<open>mount.rs\<close>, \<open>read.rs\<close>, \<open>write.rs\<close>, \<open>unlink.rs\<close>,
  \<open>rename.rs\<close>, \<open>mkdir.rs\<close>. User buffers are byte lists: \<open>read\<close> returns the bytes it copies
  out, \<open>write\<close> takes the \<open>len\<close> bytes at \<open>buf\<close>. A file in good order (\<open>file_ok\<close>) has distinct
  data blocks that are marked in the bitmap; its contents \<open>fcontent\<close> are its ten direct blocks,
  an unmapped one reading as zeros.
\<close>

section \<open>Mounting\<close>

definition mount :: "nat \<Rightarrow> u32 \<Rightarrow> unit fsm" where
  "mount dev lba_offset =
     kseq (kmodify (\<lambda>s. s\<lparr>fs_dev := dev, fs_lba_base := lba_offset\<rparr>))
     (kseq (read_gbuf 0) (\<lambda>s.
       case super_from_bytes (fs_buf s) of
         None \<Rightarrow> (Inl EInval, s)
       | Some sb_val \<Rightarrow>
           if sb_block_size sb_val \<noteq> of_nat ONYFS_BLOCK_SIZE then (Inl EInval, s)
           else if sb_magic sb_val = ONYFS_MAGIC then
             kseq (kmodify (\<lambda>s. s\<lparr>fs_version := ONYFS_V2, fs_sb := sb_val\<rparr>)) journal_recover s
           else if sb_magic sb_val = ONYFS_MAGIC_V1 then
             kseq (kmodify (\<lambda>s. s\<lparr>fs_version := ONYFS_V1, fs_sb := sb_val\<rparr>)) journal_recover s
           else (Inl EInval, s)))"

definition persist_superblock :: "unit fsm" where
  "persist_superblock s =
     (let buf = blit zero_block 0 (super_to_bytes (fs_sb s))
      in kseq (kmodify (\<lambda>s. s\<lparr>fs_buf := buf\<rparr>)) (write_block 0 buf) s)"

section \<open>Reading\<close>

fun read_loop :: "u32 list \<Rightarrow> u32 \<Rightarrow> u32 \<Rightarrow> bytes \<Rightarrow> bytes fsm" where
  "read_loop [] off remaining out = kret out"
| "read_loop (b # blks) off remaining out =
     (if remaining = 0 \<or> b = 0 then kret out
      else kseq (read_gbuf b) (\<lambda>s.
        let chunk_off = unat (off mod of_nat ONYFS_BLOCK_SIZE);
            chunk = min (of_nat ONYFS_BLOCK_SIZE - off mod of_nat ONYFS_BLOCK_SIZE) remaining
        in read_loop blks (off + chunk) (remaining - chunk)
             (out @ slc (fs_buf s) chunk_off (chunk_off + unat chunk)) s))"

definition file_size :: "onyfs_inode \<Rightarrow> u32" where
  "file_size inode = ucast (min (ino_size inode) 0xFFFFFFFF)"

definition read_file :: "u32 \<Rightarrow> u32 \<Rightarrow> u32 \<Rightarrow> bytes fsm" where
  "read_file ino off len =
     kbind (read_inode ino) (\<lambda>inode.
       let avail = (if off \<le> file_size inode then file_size inode - off else 0)
       in read_loop (ino_blocks inode) off (min len avail) [])"

section \<open>Writing\<close>

text \<open>The block of the file that holds index \<open>blk_idx\<close>, allocated and zeroed when unmapped.\<close>

definition touch_block :: "onyfs_inode \<Rightarrow> nat \<Rightarrow> (onyfs_inode \<times> u32) fsm" where
  "touch_block inode blk_idx =
     (if ino_blocks inode ! blk_idx = 0 then
        kbind alloc_data_block (\<lambda>blk.
          kseq (kmodify (\<lambda>s. s\<lparr>fs_buf := zero_block\<rparr>))
          (kseq (logged_write blk zero_block)
            (kret (inode\<lparr>ino_blocks := (ino_blocks inode)[blk_idx := blk]\<rparr>, blk))))
      else kret (inode, ino_blocks inode ! blk_idx))"

definition put_chunk :: "u32 \<Rightarrow> nat \<Rightarrow> bytes \<Rightarrow> unit fsm" where
  "put_chunk b chunk_off data =
     kseq (read_gbuf b) (\<lambda>s.
       let buf = blit (fs_buf s) chunk_off data
       in kseq (kmodify (\<lambda>s. s\<lparr>fs_buf := buf\<rparr>)) (logged_write b buf) s)"

text \<open>The loop: \<open>rest\<close> is the part of the user buffer still to be written, so that its length
  is \<open>remaining\<close>.\<close>

function write_loop :: "onyfs_inode \<Rightarrow> u32 \<Rightarrow> bytes \<Rightarrow> u32 \<Rightarrow> (onyfs_inode \<times> u32) fsm" where
  "write_loop inode cur_off rest written s =
     (if rest = [] then (Inr (inode, written), s)
      else let blk_idx = unat (cur_off div of_nat ONYFS_BLOCK_SIZE) in
        if blk_idx \<ge> ONYFS_DIRECT_BLKS then (Inr (inode, written), s)
        else case touch_block inode blk_idx s of
          (Inl e, s') \<Rightarrow> (Inl e, s')
        | (Inr (inode', b), s') \<Rightarrow>
            let chunk_off = unat (cur_off mod of_nat ONYFS_BLOCK_SIZE);
                chunk = min (ONYFS_BLOCK_SIZE - chunk_off) (length rest)
            in case put_chunk b chunk_off (take chunk rest) s' of
                 (Inl e, s'') \<Rightarrow> (Inl e, s'')
               | (Inr _, s'') \<Rightarrow>
                   write_loop inode' (cur_off + of_nat chunk) (drop chunk rest) (written + of_nat chunk) s'')"
  by pat_completeness auto
termination
proof (relation "measure (\<lambda>(inode, off, rest, w, s). length rest)", simp, clarsimp)
  fix cur_off :: u32 and rest :: bytes
  assume "rest \<noteq> []"
  moreover have "unat (cur_off mod of_nat ONYFS_BLOCK_SIZE) < ONYFS_BLOCK_SIZE"
    by (simp add: ONYFS_BLOCK_SIZE_def unat_mod)
  ultimately show "length rest - min (ONYFS_BLOCK_SIZE - unat (cur_off mod word_of_nat ONYFS_BLOCK_SIZE)) (length rest) < length rest"
    by simp
qed

definition write_file :: "u32 \<Rightarrow> bytes \<Rightarrow> u32 \<Rightarrow> u32 fsm" where
  "write_file ino buf off s =
     (if fs_version s = ONYFS_V1 then (Inl ENoSys, s)
      else kbind (read_inode ino) (\<lambda>inode.
        kbind (write_loop inode off buf 0) (\<lambda>(inode, written) s.
          let end_off = off + written;
              inode = (if ucast end_off > ino_size inode then inode\<lparr>ino_size := ucast end_off\<rparr> else inode);
              inode = inode\<lparr>ino_mtime := fs_jiffies s\<rparr>
          in kseq (write_inode ino inode) (kseq journal_commit (kret written)) s)) s)"

definition fresh_inode :: "u32 \<Rightarrow> u32 \<Rightarrow> u64 \<Rightarrow> onyfs_inode" where
  "fresh_inode mode nlink now = \<lparr>ino_mode = mode, ino_size = 0, ino_uid = 0, ino_gid = 0, ino_nlink = nlink,
     ino_blocks = replicate ONYFS_DIRECT_BLKS 0, ino_indirect = 0, ino_double_indirect = 0,
     ino_crtime = now, ino_mtime = now, ino_atime = now, ino_ctime = now, ino_flags = 0, ino_reserved = 0\<rparr>"

definition create :: "u32 \<Rightarrow> bytes \<Rightarrow> u32 \<Rightarrow> u32 fsm" where
  "create dir_ino name mode s =
     (if fs_version s = ONYFS_V1 then (Inl ENoSys, s)
      else if name = [] \<or> length name > ONYFS_NAME_MAX then (Inl EInval, s)
      else kbind alloc_inode (\<lambda>new_ino s.
        kseq (write_inode new_ino (fresh_inode mode 1 (fs_jiffies s)))
        (kseq (add_dirent dir_ino name new_ino 8)
        (kseq journal_commit (kret new_ino))) s) s)"

definition truncate :: "u32 \<Rightarrow> unit fsm" where
  "truncate ino s =
     (if fs_version s = ONYFS_V1 then (Inl ENoSys, s)
      else kbind (read_inode ino) (\<lambda>inode.
        kseq (write_inode ino (inode\<lparr>ino_size := 0, ino_blocks := replicate ONYFS_DIRECT_BLKS 0,
            ino_indirect := 0, ino_double_indirect := 0\<rparr>))
          journal_commit) s)"

section \<open>Directories: mkdir, unlink, rename\<close>

definition mk_entry :: "bytes \<Rightarrow> u32 \<Rightarrow> onyfs_dirent" where
  "mk_entry name ino = \<lparr>de_name = name @ replicate (ONYFS_NAME_MAX - length name) 0, de_inode = ino,
     de_dtype = 4, de_name_len = of_nat (length name), de_reserved = [0, 0]\<rparr>"

abbreviation DOT :: u8 where "DOT \<equiv> 0x2E"

definition dot_block :: "u32 \<Rightarrow> u32 \<Rightarrow> bytes" where
  "dot_block new_ino dir_ino =
     blit (blit zero_block 0 (dirent_to_bytes (mk_entry [DOT] new_ino))) 40
       (dirent_to_bytes (mk_entry [DOT, DOT] dir_ino))"

definition mkdir :: "u32 \<Rightarrow> bytes \<Rightarrow> u32 fsm" where
  "mkdir dir_ino name s =
     (if fs_version s = ONYFS_V1 then (Inl ENoSys, s)
      else if name = [] \<or> length name > ONYFS_NAME_MAX then (Inl EInval, s)
      else kbind alloc_inode (\<lambda>new_ino s.
        let inode = fresh_inode ONYFS_DT_DIR 2 (fs_jiffies s) in
        kbind alloc_data_block (\<lambda>dir_blk.
          let inode = inode\<lparr>ino_blocks := (ino_blocks inode)[0 := dir_blk]\<rparr>;
              buf = dot_block new_ino dir_ino
          in kseq (kmodify (\<lambda>s. s\<lparr>fs_buf := buf\<rparr>))
            (kseq (logged_write dir_blk buf)
            (kseq (write_inode new_ino inode)
            (kseq (add_dirent dir_ino name new_ino 4)
            (kseq journal_commit (kret new_ino)))))) s) s)"

text \<open>The parent path and the last component.\<close>

definition split_path :: "bytes \<Rightarrow> bytes \<times> bytes" where
  "split_path path =
     (let trimmed = tl path
      in case rposition (\<lambda>b. b = SLASH) trimmed of
           Some pos \<Rightarrow> (take pos trimmed, drop (pos + 1) trimmed)
         | None \<Rightarrow> ([], trimmed))"

definition parent_ino :: "bytes \<Rightarrow> u32 fsm" where
  "parent_ino parent_path =
     (if parent_path = [] then kret ONYFS_ROOT_INO
      else kbind (lookup parent_path) (\<lambda>(ino, st). kret (st_ino st)))"

definition unlink :: "bytes \<Rightarrow> unit fsm" where
  "unlink path =
     (if path = [] \<or> hd path \<noteq> SLASH then kthrow EInval
      else if length path = 1 then kthrow EPerm
      else let (parent_path, filename) = split_path path in
        if filename = [] then kthrow EInval
        else kbind (parent_ino parent_path) (\<lambda>parent.
          kseq (remove_dirent parent filename) journal_commit))"

definition rename :: "bytes \<Rightarrow> bytes \<Rightarrow> unit fsm" where
  "rename old_path new_path =
     (if old_path = [] \<or> hd old_path \<noteq> SLASH \<or> new_path = [] \<or> hd new_path \<noteq> SLASH then kthrow EInval
      else kbind (lookup old_path) (\<lambda>(old_ino, st).
        let dtype = ucast (drop_bit 12 (st_mode st) AND 0xF);
            (old_parent_path, old_filename) = split_path old_path;
            (new_parent_path, new_filename) = split_path new_path
        in if old_filename = [] \<or> new_filename = [] then kthrow EInval
           else kbind (parent_ino old_parent_path) (\<lambda>old_parent.
             kbind (parent_ino new_parent_path) (\<lambda>new_parent.
               kseq (add_dirent new_parent new_filename old_ino dtype)
               (kseq (remove_dirent old_parent old_filename) journal_commit)))))"

section \<open>Commit\<close>

lemma same_fs_cong:
  assumes "same_fs s t"
  shows "fs_ok t" and "core t = core s" and "jarea t = jarea s" and "iblk t = iblk s"
    and "valid_ino t = valid_ino s" and "\<not> jarea s b \<Longrightarrow> blk t b = blk s b"
  using assms jarea_cong [of t s] iblk_cong [of t s] valid_ino_cong [of t s] by (simp_all add: same_fs_def)

lemma same_fs_inode: "fs_v2 s \<Longrightarrow> same_fs s t \<Longrightarrow> valid_ino s k \<Longrightarrow> inode_at t k = inode_at s k"
  using same_fs_cong [of s t] by (auto simp: fs_v2_def intro!: inode_at_cong)

lemma same_fs_v2: "fs_v2 s \<Longrightarrow> same_fs s t \<Longrightarrow> fs_v2 t"
  using same_fs_cong [of s t] core_sb [of t s] by (simp add: fs_v2_def)

lemma same_fs_dir:
  assumes "fs_v2 s" and "same_fs s t" and "dir_ok s d"
  shows "dir_blk t d = dir_blk s d" and "dir_map t d = dir_map s d" and "dir_ok t d"
proof -
  note c = same_fs_cong [OF assms(2)]
  show b: "dir_blk t d = dir_blk s d"
    using same_fs_inode [OF assms(1,2)] assms(3) by (simp add: dir_blk_def dir_ok_def)
  have e: "blk t (dir_blk s d) = blk s (dir_blk s d)" using c(6) assms(3) by (simp add: dir_ok_def)
  then show m: "dir_map t d = dir_map s d" by (simp add: dir_map_def b)
  show "dir_ok t d" using assms(3) b e m c by (simp add: dir_ok_def)
qed

section \<open>Reading\<close>

definition mapped_bytes :: "fs_state \<Rightarrow> u32 list \<Rightarrow> bytes" where
  "mapped_bytes s bs = concat (map (blk s) (takeWhile (\<lambda>b. b \<noteq> 0) bs))"

lemma mapped_bytes_simps [simp]:
  "mapped_bytes s [] = []" "mapped_bytes s (b # bs) = (if b = 0 then [] else blk s b @ mapped_bytes s bs)"
  by (simp_all add: mapped_bytes_def)

lemma mapped_bytes_got [simp]: "mapped_bytes (got_blk b s) bs = mapped_bytes s bs"
  by (simp add: mapped_bytes_def cong: map_cong)

lemma unat_mod_block: "unat ((off :: u32) mod of_nat ONYFS_BLOCK_SIZE) = unat off mod 4096"
  by (simp add: ONYFS_BLOCK_SIZE_def unat_mod)

lemma unat_block_rest: "unat (of_nat ONYFS_BLOCK_SIZE - (off :: u32) mod of_nat ONYFS_BLOCK_SIZE) = 4096 - unat off mod 4096"
proof -
  have "(off mod 4096 :: u32) \<le> 4096"
    by (simp add: word_le_nat_alt unat_mod)
  then show ?thesis by (simp add: ONYFS_BLOCK_SIZE_def unat_sub unat_mod)
qed

lemma unat_min: "unat (min a b) = min (unat a) (unat b)"
  by (simp add: min_def word_le_nat_alt)

lemma of_nat_unat_id: "of_nat (unat w) = (w :: 'a :: len word)"
  by simp

lemma round_up_block: "n + (4096 - n mod 4096) = 4096 * (n div 4096 + 1)" for n :: nat
proof -
  define q r where "q = n div 4096" and "r = n mod 4096"
  have "n = q * 4096 + r" "r < 4096" by (simp_all add: q_def r_def)
  then have "n + (4096 - r) = 4096 * (q + 1)" by simp
  then show ?thesis by (simp only: q_def r_def)
qed

lemma add_of_nat_word: "w + of_nat x = (of_nat (unat w + x) :: 'a :: len word)"
  by simp

lemma unat_mod_mult: "unat (of_nat (4096 * k) :: u32) mod 4096 = 0"
proof -
  have "4096 * k mod 2 ^ 32 mod 4096 = 4096 * k mod 4096" by (rule mod_mod_cancel) simp
  then show ?thesis by (simp only: unat_of_nat) simp
qed

lemma mod_add_block: "unat ((off :: u32) + of_nat (4096 - unat off mod 4096)) mod 4096 = 0"
  by (simp only: add_of_nat_word round_up_block unat_mod_mult)

lemma take_drop_chunk:
  "length xs = 4096 \<Longrightarrow> a < 4096 \<Longrightarrow> c = min (4096 - a) n \<Longrightarrow>
   slc xs a (a + c) @ take (n - c) ys = take n (drop a (xs @ ys))"
  by (cases "n \<le> 4096 - a") (simp_all add: slc_def)

lemma read_loop_ok:
  "fs_ok s \<Longrightarrow> \<exists>t. fs_upd s [] 0 t \<and> read_loop bs off rem out s =
     (Inr (out @ take (unat rem) (drop (unat off mod 4096) (mapped_bytes s bs))), t)"
proof (induction bs arbitrary: off rem out s)
  case Nil
  then show ?case using fs_upd_refl by auto
next
  case (Cons b bs)
  show ?case
  proof (cases "rem = 0 \<or> b = 0")
    case True
    then show ?thesis using fs_upd_refl [OF Cons.prems] by auto
  next
    case False
    define c where "c = min (of_nat ONYFS_BLOCK_SIZE - off mod of_nat ONYFS_BLOCK_SIZE) rem"
    define a where "a = unat off mod 4096"
    define out' where "out' = out @ slc (blk s b) a (a + unat c)"
    let ?g = "got_blk b s" and ?m = "mapped_bytes s bs"
    have uc: "unat c = min (4096 - a) (unat rem)" by (simp add: c_def a_def unat_min unat_block_rest)
    have ok: "fs_ok ?g" using Cons.prems by simp
    have rm: "unat (rem - c) = unat rem - unat c" by (rule unat_sub) (simp add: c_def)
    obtain t where t: "fs_upd ?g [] 0 t" "read_loop bs (off + c) (rem - c) out' ?g =
        (Inr (out' @ take (unat (rem - c)) (drop (unat (off + c) mod 4096) ?m)), t)"
      using Cons.IH [OF ok, of "off + c" "rem - c" out'] by auto
    have "take (unat (rem - c)) (drop (unat (off + c) mod 4096) ?m) = take (unat rem - unat c) ?m"
    proof (cases "unat c = unat rem")
      case False
      then have "unat c = 4096 - a" using uc by (simp add: min_def split: if_splits)
      then have "c = of_nat (4096 - unat off mod 4096)" using of_nat_unat_id [of c] by (simp only: a_def)
      then show ?thesis using rm mod_add_block [of off] by simp
    qed (simp add: rm)
    moreover have "slc (blk s b) a (a + unat c) @ take (unat rem - unat c) ?m =
        take (unat rem) (drop a (blk s b @ ?m))"
      by (rule take_drop_chunk [OF blk_length [OF Cons.prems] _ uc]) (simp add: a_def)
    ultimately have "out' @ take (unat (rem - c)) (drop (unat (off + c) mod 4096) ?m) =
        out @ take (unat rem) (drop a (blk s b @ ?m))"
      by (simp add: out'_def)
    moreover have "fs_upd s [] 0 t" using fs_upd_trans [OF fs_upd_got [OF Cons.prems] t(1)] by simp
    moreover have "read_loop (b # bs) off rem out s = read_loop bs (off + c) (rem - c) out' ?g"
      using False Cons.prems by (simp add: read_gbuf_ok Let_def c_def a_def out'_def unat_mod_block)
    ultimately show ?thesis using t(2) False by (auto simp: a_def)
  qed
qed


definition fsize :: "onyfs_inode \<Rightarrow> nat" where
  "fsize i = min (unat (ino_size i)) (2 ^ 32 - 1)"

lemma unat_file_size: "unat (file_size i) = fsize i"
proof -
  have "unat (min (ino_size i) 0xFFFFFFFF) = min (unat (ino_size i)) (2 ^ 32 - 1)" by (simp add: unat_min)
  then show ?thesis by (simp add: file_size_def fsize_def unsigned_ucast_eq take_bit_eq_mod)
qed

lemma read_file_ok:
  assumes "fs_v2 s"
  shows "\<exists>t. fs_upd s [] 0 t \<and> read_file ino off len s =
    (Inr (take (min (unat len) (fsize (inode_at s ino) - unat off))
       (drop (unat off mod 4096) (mapped_bytes s (ino_blocks (inode_at s ino))))), t)"
proof -
  let ?i = "inode_at s ino" and ?g = "got_blk (iblk s ino) s"
  let ?av = "if off \<le> file_size ?i then file_size ?i - off else 0"
  have ok: "fs_ok s" "fs_version s \<noteq> ONYFS_V1" using assms by (simp_all add: fs_v2_def)
  have "unat ?av = fsize ?i - unat off"
    by (simp add: unat_sub unat_file_size word_le_nat_alt)
  then have av: "unat (min len ?av) = min (unat len) (fsize ?i - unat off)" by (simp only: unat_min)
  obtain t where t: "fs_upd ?g [] 0 t" "read_loop (ino_blocks ?i) off (min len ?av) [] ?g =
      (Inr (take (unat (min len ?av)) (drop (unat off mod 4096) (mapped_bytes s (ino_blocks ?i)))), t)"
    using read_loop_ok [of ?g "ino_blocks ?i" off "min len ?av" "[]"] ok by auto
  have "read_file ino off len s = read_loop (ino_blocks ?i) off (min len ?av) [] ?g"
    using ok by (simp add: read_file_def read_inode_ok Let_def)
  then show ?thesis using t fs_upd_trans [OF fs_upd_got [OF ok(1)] t(1)] unfolding av by auto
qed

text \<open>C4: Reading a file. At an offset in the first block, \<open>read\<close> returns the bytes of the file
  from that offset on, cut at the requested length and at the file size, as far as the file's
  leading mapped blocks reach; the volume is not changed.\<close>

theorem read_file_correct:
  assumes "fs_v2 s" and "unat off < 4096"
  shows "\<exists>t. read_file ino off len s =
      (Inr (take (min (unat len) (fsize (inode_at s ino) - unat off))
         (drop (unat off) (mapped_bytes s (ino_blocks (inode_at s ino))))), t) \<and>
    (\<forall>b. \<not> jarea s b \<longrightarrow> blk t b = blk s b)"
  using read_file_ok [OF assms(1), of ino off len] fs_upd_none_blk assms(2) by fastforce

text \<open>At larger offsets the loop still begins with the first block: the second block of a file is
  read as a copy of the first.\<close>

lemma read_second_block:
  assumes "fs_v2 s" and "ino_blocks (inode_at s ino) = b # bs" and "b \<noteq> 0" and "8192 \<le> fsize (inode_at s ino)"
  shows "fst (read_file ino 4096 4096 s) = Inr (blk s b)"
  using read_file_ok [OF assms(1), of ino 4096 4096] assms(2-4) blk_length [of s b] assms(1)
  by (auto simp: fs_v2_def)


section \<open>Writing\<close>

abbreviation bmb :: "fs_state \<Rightarrow> u32" where "bmb s \<equiv> sb_data_bitmap_start (fs_sb s)"

definition dblk :: "fs_state \<Rightarrow> nat \<Rightarrow> u32" where
  "dblk s n = sb_data_blocks_start (fs_sb s) + of_nat n"

definition data_blk :: "fs_state \<Rightarrow> u32 \<Rightarrow> bool" where
  "data_blk s b \<longleftrightarrow> (\<exists>n<32768. b = dblk s n \<and> bm_bit (blk s (bmb s)) n)"

text \<open>The data area and its bitmap are apart from the journal and the inode table.\<close>

definition vol_ok :: "fs_state \<Rightarrow> bool" where
  "vol_ok s \<longleftrightarrow> fs_v2 s \<and> \<not> jarea s (bmb s) \<and> (\<forall>k. valid_ino s k \<longrightarrow> iblk s k \<noteq> bmb s) \<and>
     (\<forall>n<32768. dblk s n \<noteq> 0 \<and> \<not> jarea s (dblk s n) \<and> dblk s n \<noteq> bmb s \<and>
        (\<forall>k. valid_ino s k \<longrightarrow> iblk s k \<noteq> dblk s n))"

definition file_ok :: "fs_state \<Rightarrow> onyfs_inode \<Rightarrow> bool" where
  "file_ok s i \<longleftrightarrow> length (ino_blocks i) = 10 \<and>
     (\<forall>k<10. ino_blocks i ! k \<noteq> 0 \<longrightarrow> data_blk s (ino_blocks i ! k)) \<and>
     (\<forall>j<10. \<forall>k<10. ino_blocks i ! j = ino_blocks i ! k \<and> ino_blocks i ! j \<noteq> 0 \<longrightarrow> j = k)"

definition fblk :: "fs_state \<Rightarrow> onyfs_inode \<Rightarrow> nat \<Rightarrow> bytes" where
  "fblk s i k = (if ino_blocks i ! k = 0 then zero_block else blk s (ino_blocks i ! k))"

text \<open>What a write may do to a volume and the inode it works on.\<close>

definition grows :: "fs_state \<Rightarrow> onyfs_inode \<Rightarrow> fs_state \<Rightarrow> onyfs_inode \<Rightarrow> bool" where
  "grows s i t i' \<longleftrightarrow> fs_ok t \<and> core t = core s \<and> file_ok t i' \<and> i' = i\<lparr>ino_blocks := ino_blocks i'\<rparr> \<and>
     (\<forall>b. data_blk s b \<longrightarrow> data_blk t b) \<and>
     (\<forall>k<10. ino_blocks i ! k \<noteq> 0 \<longrightarrow> ino_blocks i' ! k = ino_blocks i ! k) \<and>
     (\<forall>k<10. ino_blocks i' ! k \<noteq> ino_blocks i ! k \<longrightarrow> \<not> data_blk s (ino_blocks i' ! k)) \<and>
     (\<forall>b. \<not> jarea s b \<and> b \<noteq> bmb s \<and> (b = 0 \<or> b \<notin> set (ino_blocks i')) \<longrightarrow> blk t b = blk s b)"

lemma dblk_inj: "m < 32768 \<Longrightarrow> n < 32768 \<Longrightarrow> dblk s m = dblk s n \<longleftrightarrow> m = n"
  using of_nat_u32_inj [of m n] by (simp add: dblk_def)

lemma vol_ok_core:
  assumes "vol_ok s" and "fs_ok t" and "core t = core s"
  shows "vol_ok t"
proof -
  note c = jarea_cong [OF assms(3)] iblk_cong [OF assms(3)] valid_ino_cong [OF assms(3)] core_sb [OF assms(3)]
  show ?thesis using assms(1,2) c by (simp add: vol_ok_def fs_v2_def dblk_def)
qed

lemma grows_trans:
  assumes "grows s i t i'" and "grows t i' u i''"
  shows "grows s i u i''"
proof -
  have c: "core t = core s" using assms(1) by (simp add: grows_def)
  have j: "jarea t = jarea s" "bmb t = bmb s" using jarea_cong [OF c] core_sb [OF c] by simp_all
  have len: "length (ino_blocks i') = 10" using assms(1) by (simp add: grows_def file_ok_def)
  have keep: "b \<notin> set (ino_blocks i')" if "b \<noteq> 0" "b \<notin> set (ino_blocks i'')" for b
  proof
    assume "b \<in> set (ino_blocks i')"
    then obtain k where k: "k < 10" "ino_blocks i' ! k = b" using len by (auto simp: in_set_conv_nth)
    then have "ino_blocks i'' ! k = b" using assms(2) that(1) by (simp add: grows_def)
    then show False using that(2) k(1) assms(2) nth_mem [of k "ino_blocks i''"]
      by (simp add: grows_def file_ok_def)
  qed
  have "blk u b = blk s b" if b: "\<not> jarea s b" "b \<noteq> bmb s" "b = 0 \<or> b \<notin> set (ino_blocks i'')" for b
  proof -
    have "b = 0 \<or> b \<notin> set (ino_blocks i')" using keep b(3) by blast
    then show ?thesis using b assms j by (simp add: grows_def)
  qed
  moreover have "\<not> data_blk s (ino_blocks i'' ! k)" if "k < 10" "ino_blocks i'' ! k \<noteq> ino_blocks i ! k" for k
    using that assms by (cases "ino_blocks i'' ! k = ino_blocks i' ! k") (auto simp: grows_def)
  moreover have "i'' = i\<lparr>ino_blocks := ino_blocks i''\<rparr>"
  proof -
    have "i' = i\<lparr>ino_blocks := ino_blocks i'\<rparr>" "i'' = i'\<lparr>ino_blocks := ino_blocks i''\<rparr>"
      using assms by (simp_all add: grows_def)
    then show ?thesis by (metis onyfs_inode.update_convs(6) onyfs_inode.surjective)
  qed
  ultimately show ?thesis using assms c by (auto simp: grows_def)
qed

lemma alloc_data_block_ok:
  assumes "vol_ok s" and "room s 1"
  shows "(\<exists>n t. n < 32768 \<and> \<not> bm_bit (blk s (bmb s)) n \<and> alloc_data_block s = (Inr (dblk s n), t) \<and>
      fs_upd s [(bmb s, bm_put n (blk s (bmb s)))] 1 t) \<or>
    (alloc_data_block s = (Inl ENoSpace, got_blk (bmb s) s) \<and> (\<forall>n<32768. bm_bit (blk s (bmb s)) n))"
proof (cases "first_clear (blk s (bmb s))")
  case None
  then show ?thesis using alloc_bit_full [of s "bmb s"] assms(1)
    by (auto simp: alloc_data_block_def vol_ok_def fs_v2_def first_clear_None blk_length)
next
  case (Some n)
  have ok: "fs_ok s" "\<not> jarea s (bmb s)" using assms(1) by (simp_all add: vol_ok_def fs_v2_def)
  obtain t where t: "alloc_bit (bmb s) s = (Inr (of_nat n), t)" "fs_upd s [(bmb s, bm_put n (blk s (bmb s)))] 1 t"
    using alloc_bit_ok [OF ok(1) assms(2) ok(2) Some] by blast
  then have "alloc_data_block s = (Inr (dblk s n), t)"
    using core_sb [OF fs_upd_core [OF t(2)]] by (simp add: alloc_data_block_def dblk_def)
  then show ?thesis using Some t(2) ok(1) by (auto simp: first_clear_Some blk_length)
qed


lemma grows_refl: "fs_ok s \<Longrightarrow> file_ok s i \<Longrightarrow> fs_upd s [] n t \<Longrightarrow> vol_ok s \<Longrightarrow> grows s i t i"
proof -
  assume a: "fs_ok s" "file_ok s i" "fs_upd s [] n t" "vol_ok s"
  have b: "blk t b = blk s b" if "\<not> jarea s b" for b using fs_upd_none_blk [OF a(3) that] .
  have "data_blk t b = data_blk s b" for b
    using b [of "bmb s"] a(4) core_sb [OF fs_upd_core [OF a(3)]] by (simp add: data_blk_def dblk_def vol_ok_def)
  then show ?thesis using a(2,3) b fs_upd_ok [OF a(3)] fs_upd_core [OF a(3)] by (auto simp: grows_def file_ok_def)
qed

lemma data_blk_layout:
  assumes "vol_ok s" and "data_blk s b"
  shows "b \<noteq> 0" and "\<not> jarea s b" and "b \<noteq> bmb s" and "valid_ino s k \<Longrightarrow> iblk s k \<noteq> b"
  using assms by (auto simp: data_blk_def vol_ok_def)

lemma data_blk_alloc:
  assumes "vol_ok s" and "n < 32768" and "fs_upd s ((bmb s, bm_put n (blk s (bmb s))) # ws) m t"
    and "bmb s \<notin> fst ` set ws"
  shows "data_blk t b \<longleftrightarrow> b = dblk s n \<or> data_blk s b"
proof -
  have len: "length (blk s (bmb s)) = 4096" using assms(1) by (simp add: vol_ok_def fs_v2_def blk_length)
  have nm: "map_of (rev ws) (bmb s) = None" using assms(4) by (simp add: map_of_eq_None_iff)
  have "blk t (bmb s) = bm_put n (blk s (bmb s))"
    using fs_upd_blk [OF assms(3), of "bmb s"] assms(1) nm by (simp add: vol_ok_def after_writes_def map_add_def)
  then have "bm_bit (blk t (bmb s)) x = (x = n \<or> bm_bit (blk s (bmb s)) x)" for x
    using bm_bit_put [of n "blk s (bmb s)" x] assms(2) len by simp
  then show ?thesis using core_sb [OF fs_upd_core [OF assms(3)]] assms(2) by (auto simp: data_blk_def dblk_def)
qed

lemma file_ok_add:
  assumes "file_ok s i" and "k < 10" and "ino_blocks i ! k = 0" and "\<not> data_blk s b" and "b \<noteq> 0"
    and "\<And>x. data_blk t x \<longleftrightarrow> x = b \<or> data_blk s x"
  shows "file_ok t (i\<lparr>ino_blocks := (ino_blocks i)[k := b]\<rparr>)"
proof -
  have len: "length (ino_blocks i) = 10" using assms(1) by (simp add: file_ok_def)
  have nb: "ino_blocks i ! j \<noteq> b" if "j < 10" for j
    using assms(1,4,5) that by (auto simp: file_ok_def)
  then have nb': "b \<noteq> ino_blocks i ! j" if "j < 10" for j using that by metis
  show ?thesis
    using assms(1,2,5,6) len nb nb' unfolding file_ok_def by (auto simp: nth_list_update)
qed

lemma touch_block_ok:
  assumes "vol_ok s" and "file_ok s i" and "k < 10" and "room s 2"
  shows "(\<exists>i' t ws n. touch_block i k s = (Inr (i', ino_blocks i' ! k), t) \<and> ino_blocks i' ! k \<noteq> 0 \<and>
      fs_upd s ws n t \<and> n \<le> 2 \<and> grows s i t i' \<and> (\<forall>j<10. fblk t i' j = fblk s i j)) \<or>
    (\<exists>t. touch_block i k s = (Inl ENoSpace, t) \<and> (\<forall>n<32768. bm_bit (blk t (bmb s)) n))"
proof (cases "ino_blocks i ! k = 0")
  case False
  have ok: "fs_ok s" using assms(1) by (simp add: vol_ok_def fs_v2_def)
  have "fs_upd s [] 0 s" using fs_upd_refl [OF ok] .
  then show ?thesis using False grows_refl [OF ok assms(2) _ assms(1)]
    by (intro disjI1 exI [of _ i] exI [of _ s] exI [of _ "[]"] exI [of _ 0]) (simp add: touch_block_def)
next
  case True
  have ok: "fs_ok s" using assms(1) by (simp add: vol_ok_def fs_v2_def)
  have len: "length (ino_blocks i) = 10" using assms(2) by (simp add: file_ok_def)
  have r1: "room s 1" using assms(4) by (auto simp: room_def)
  from alloc_data_block_ok [OF assms(1) r1] show ?thesis
  proof
    assume "alloc_data_block s = (Inl ENoSpace, got_blk (bmb s) s) \<and> (\<forall>n<32768. bm_bit (blk s (bmb s)) n)"
    then show ?thesis using True by (auto simp: touch_block_def)
  next
    assume "\<exists>n t. n < 32768 \<and> \<not> bm_bit (blk s (bmb s)) n \<and> alloc_data_block s = (Inr (dblk s n), t) \<and>
      fs_upd s [(bmb s, bm_put n (blk s (bmb s)))] 1 t"
    then obtain n t where n: "n < 32768" "\<not> bm_bit (blk s (bmb s)) n"
      and t: "alloc_data_block s = (Inr (dblk s n), t)" "fs_upd s [(bmb s, bm_put n (blk s (bmb s)))] 1 t" by blast
    let ?b = "dblk s n" let ?i = "i\<lparr>ino_blocks := (ino_blocks i)[k := ?b]\<rparr>"
    let ?ws = "[(bmb s, bm_put n (blk s (bmb s))), (?b, zero_block)]"
    have b: "?b \<noteq> 0" "\<not> jarea s ?b" "?b \<noteq> bmb s" using assms(1) n(1) by (auto simp: vol_ok_def)
    have nd: "\<not> data_blk s ?b" using n dblk_inj [OF n(1)] unfolding data_blk_def by metis
    have rt: "room t 1" "\<not> jarea t ?b"
      using fs_upd_room [OF t(2), of 1] assms(4) jarea_cong [OF fs_upd_core [OF t(2)]] b(2) by (simp_all add: numeral_2_eq_2)
    obtain u where u: "logged_write ?b zero_block (t\<lparr>fs_buf := zero_block\<rparr>) = (Inr (), u)" "fs_upd t [(?b, zero_block)] 1 u"
      using buffered_write_upd [OF fs_upd_refl [OF fs_upd_ok [OF t(2)]] rt, of zero_block] by auto
    have su: "fs_upd s ?ws 2 u" using fs_upd_trans [OF t(2) u(2)] by (simp add: numeral_2_eq_2)
    have db: "data_blk u x \<longleftrightarrow> x = ?b \<or> data_blk s x" for x
      using data_blk_alloc [OF assms(1) n(1) su] b(3) by auto
    have bu: "blk u x = (if x = ?b then zero_block else if x = bmb s then bm_put n (blk s (bmb s)) else blk s x)"
      if "\<not> jarea s x" for x using fs_upd_blk [OF su that] b(3) by (simp add: after_writes_def)
    have "touch_block i k s = (Inr (?i, ino_blocks ?i ! k), u)"
      using True t(1) u(1) len assms(3) by (simp add: touch_block_def)
    moreover have "grows s i u ?i"
      using file_ok_add [OF assms(2,3) True nd b(1) db] fs_upd_ok [OF su] fs_upd_core [OF su] db bu nd True b len assms(3)
      by (auto simp: grows_def nth_list_update set_update_memI)
    moreover have "fblk u ?i j = fblk s i j" if j: "j < 10" for j
    proof (cases "j = k")
      case True
      then show ?thesis using \<open>ino_blocks i ! k = 0\<close> b bu [of ?b] len assms(3) by (simp add: fblk_def)
    next
      case False
      have "ino_blocks i ! j \<noteq> 0 \<Longrightarrow> data_blk s (ino_blocks i ! j)" using assms(2) j by (simp add: file_ok_def)
      then show ?thesis using False data_blk_layout [OF assms(1), of "ino_blocks i ! j"] bu nd
        by (auto simp: fblk_def)
    qed
    ultimately show ?thesis using su b(1) len assms(3)
      by (intro disjI1 exI [of _ ?i] exI [of _ u] exI [of _ ?ws] exI [of _ 2]) simp
  qed
qed


lemma put_chunk_ok:
  assumes "fs_ok s" and "room s 1" and "\<not> jarea s b" and "a + length d \<le> 4096"
  shows "\<exists>t. put_chunk b a d s = (Inr (), t) \<and> fs_upd s [(b, blit (blk s b) a d)] 1 t"
proof -
  have "length (blit (blk s b) a d) = 4096" using assms(1,4) by (simp add: blk_length)
  from buffered_write_upd [OF fs_upd_got [OF assms(1)] assms(2,3) this] show ?thesis
    using assms(1) by (auto simp: put_chunk_def read_gbuf_ok Let_def)
qed

lemma file_write_grows:
  assumes "vol_ok s" and "file_ok s i" and "k < 10" and "ino_blocks i ! k \<noteq> 0"
    and u: "fs_upd s [(ino_blocks i ! k, d)] n t"
  shows "grows s i t i" and "j < 10 \<Longrightarrow> fblk t i j = (if j = k then d else fblk s i j)"
proof -
  let ?b = "ino_blocks i ! k"
  have d: "data_blk s ?b" using assms(2-4) by (simp add: file_ok_def)
  note l = data_blk_layout [OF assms(1) d]
  have bt: "blk t b = (if b = ?b then d else blk s b)" if "\<not> jarea s b" for b
    using fs_upd_blk [OF u that] by (simp add: after_writes_def)
  have "blk t (bmb s) = blk s (bmb s)" using bt [of "bmb s"] l(3) assms(1) by (simp add: vol_ok_def)
  then have db: "data_blk t b = data_blk s b" for b
    using core_sb [OF fs_upd_core [OF u]] by (simp add: data_blk_def dblk_def)
  have "?b \<in> set (ino_blocks i)" using assms(2,3) by (simp add: file_ok_def)
  then show "grows s i t i"
    using assms(2,4) bt db fs_upd_ok [OF u] fs_upd_core [OF u] by (auto simp: grows_def file_ok_def)
  show "fblk t i j = (if j = k then d else fblk s i j)" if "j < 10"
  proof -
    have "ino_blocks i ! j \<noteq> 0 \<Longrightarrow> \<not> jarea s (ino_blocks i ! j)"
      using data_blk_layout(2) [OF assms(1)] assms(2) that by (simp add: file_ok_def)
    moreover have "j \<noteq> k \<Longrightarrow> ino_blocks i ! j \<noteq> 0 \<Longrightarrow> ino_blocks i ! j \<noteq> ?b"
      using assms(2,3) that unfolding file_ok_def by blast
    ultimately show ?thesis using bt l(2) assms(4) by (auto simp: fblk_def)
  qed
qed

text \<open>One round of the loop, on the block of index \<open>k\<close>.\<close>

definition chunk_round :: "onyfs_inode \<Rightarrow> nat \<Rightarrow> nat \<Rightarrow> bytes \<Rightarrow> onyfs_inode fsm" where
  "chunk_round i k a d = kbind (touch_block i k) (\<lambda>(i', b). kseq (put_chunk b a d) (kret i'))"

lemma room_mono: "room s m \<Longrightarrow> n \<le> m \<Longrightarrow> room s n"
  by (auto simp: room_def)

lemma chunk_round_ok:
  assumes "vol_ok s" and "file_ok s i" and "k < 10" and "room s (3 + m)" and "a + length d \<le> 4096"
  shows "(\<exists>i' t. chunk_round i k a d s = (Inr i', t) \<and> grows s i t i' \<and> room t m \<and>
      (\<forall>j<10. fblk t i' j = (if j = k then blit (fblk s i k) a d else fblk s i j))) \<or>
    (\<exists>t. chunk_round i k a d s = (Inl ENoSpace, t) \<and> (\<forall>n<32768. bm_bit (blk t (bmb s)) n))"
proof -
  have "room s 2" using room_mono [OF assms(4)] by simp
  from touch_block_ok [OF assms(1-3) this] show ?thesis
  proof (elim disjE exE conjE)
    fix t assume "touch_block i k s = (Inl ENoSpace, t)" "\<forall>n<32768. bm_bit (blk t (bmb s)) n"
    then show ?thesis by (auto simp: chunk_round_def)
  next
    fix i' t ws n
    assume t: "touch_block i k s = (Inr (i', ino_blocks i' ! k), t)" "ino_blocks i' ! k \<noteq> 0" "fs_upd s ws n t"
      "n \<le> 2" "grows s i t i'" "\<forall>j<10. fblk t i' j = fblk s i j"
    have ok: "vol_ok t" "file_ok t i'" "fs_ok t"
      using t(5) vol_ok_core [OF assms(1)] by (simp_all add: grows_def)
    have r: "room t (1 + m)" using fs_upd_room [OF t(3)] room_mono [OF assms(4)] t(4) by simp
    have "data_blk t (ino_blocks i' ! k)" using ok(2) assms(3) t(2) by (simp add: file_ok_def)
    then have "\<not> jarea t (ino_blocks i' ! k)" using data_blk_layout(2) [OF ok(1)] by blast
    then obtain u where u: "put_chunk (ino_blocks i' ! k) a d t = (Inr (), u)"
      "fs_upd t [(ino_blocks i' ! k, blit (blk t (ino_blocks i' ! k)) a d)] 1 u"
      using put_chunk_ok [OF ok(3) room_mono [OF r] _ assms(5)] by auto
    note w = file_write_grows [OF ok(1,2) assms(3) t(2) u(2)]
    have "blk t (ino_blocks i' ! k) = fblk s i k" using t(2,6) assms(3) by (auto simp: fblk_def)
    then have "\<forall>j<10. fblk u i' j = (if j = k then blit (fblk s i k) a d else fblk s i j)"
      using w(2) t(6) by auto
    moreover have "room u m" using fs_upd_room [OF u(2) r] .
    ultimately show ?thesis using t(1) u(1) grows_trans [OF t(5) w(1)] by (auto simp: chunk_round_def)
  qed
qed

declare write_loop.simps [simp del]

lemma write_loop_round:
  assumes "rest \<noteq> []" and "unat off < 40960"
  shows "write_loop i off rest w s =
    (let k = unat off div 4096; a = unat off mod 4096; c = min (4096 - a) (length rest)
     in case chunk_round i k a (take c rest) s of (Inl e, t) \<Rightarrow> (Inl e, t)
        | (Inr i', t) \<Rightarrow> write_loop i' (off + of_nat c) (drop c rest) (w + of_nat c) t)"
proof -
  define k a c where "k = unat off div 4096" and "a = unat off mod 4096" and "c = min (4096 - a) (length rest)"
  have k: "unat (off div of_nat ONYFS_BLOCK_SIZE) = k" by (simp add: ONYFS_BLOCK_SIZE_def unat_div k_def)
  have a: "unat (off mod of_nat ONYFS_BLOCK_SIZE) = a" by (simp add: unat_mod_block a_def)
  have k10: "k < 10" using assms(2) by (simp add: div_less_iff_less_mult k_def)
  have c: "min (ONYFS_BLOCK_SIZE - a) (length rest) = c" by (simp add: c_def ONYFS_BLOCK_SIZE_def)
  have "write_loop i off rest w s = (case touch_block i k s of (Inl e, t) \<Rightarrow> (Inl e, t)
      | (Inr (i', b), t) \<Rightarrow> (case put_chunk b a (take c rest) t of (Inl e, u) \<Rightarrow> (Inl e, u)
          | (Inr _, u) \<Rightarrow> write_loop i' (off + of_nat c) (drop c rest) (w + of_nat c) u))"
    using assms(1) k10 by (subst write_loop.simps) (simp only: k a c Let_def ONYFS_DIRECT_BLKS_def if_False, simp)
  also have "\<dots> = (case chunk_round i k a (take c rest) s of (Inl e, t) \<Rightarrow> (Inl e, t)
        | (Inr i', t) \<Rightarrow> write_loop i' (off + of_nat c) (drop c rest) (w + of_nat c) t)"
    by (simp add: chunk_round_def kbind_def kseq_def split: prod.split sum.split)
  finally show ?thesis by (simp only: Let_def k_def a_def c_def)
qed

definition fbyte :: "fs_state \<Rightarrow> onyfs_inode \<Rightarrow> nat \<Rightarrow> u8" where
  "fbyte s i p = fblk s i (p div 4096) ! (p mod 4096)"

lemma length_fblk: "fs_ok s \<Longrightarrow> length (fblk s i k) = 4096"
  by (simp add: fblk_def blk_length)

lemma fbyte_round:
  assumes "fs_ok s" and "off = k * 4096 + a" and "a + length d \<le> 4096" and "p < 40960"
    and "\<forall>j<10. fblk t i' j = (if j = k then blit (fblk s i k) a d else fblk s i j)"
  shows "fbyte t i' p = (if off \<le> p \<and> p < off + length d then d ! (p - off) else fbyte s i p)"
proof -
  define j q where "j = p div 4096" and "q = p mod 4096"
  have p: "p = j * 4096 + q" "q < 4096" "j < 10"
    using assms(4) by (simp_all add: j_def q_def div_less_iff_less_mult)
  have "fbyte t i' p = (if j = k then blit (fblk s i k) a d else fblk s i j) ! q"
    using assms(5) p(3) by (simp add: fbyte_def j_def q_def)
  moreover have "off \<le> p \<and> p < off + length d \<longleftrightarrow> j = k \<and> a \<le> q \<and> q < a + length d"
  proof (cases "j = k")
    case True
    then show ?thesis using p assms(2) by simp
  next
    case False
    then have "j < k \<or> k < j" by auto
    then have "j * 4096 + 4096 \<le> k * 4096 \<or> k * 4096 + 4096 \<le> j * 4096" by auto
    then show ?thesis using False p assms(2,3) by auto
  qed
  moreover have "fbyte s i p = fblk s i j ! q" by (simp add: fbyte_def j_def q_def)
  moreover have "j = k \<Longrightarrow> p - off = q - a" using p assms(2) by simp
  ultimately show ?thesis using nth_blit [of a d "fblk s i k" q] length_fblk [OF assms(1)] assms(3) p(2) by auto
qed


lemma write_loop_done:
  "rest = [] \<or> 40960 \<le> unat off \<Longrightarrow> write_loop i off rest w s = (Inr (i, w), s)"
proof -
  assume a: "rest = [] \<or> 40960 \<le> unat off"
  have k: "unat (off div of_nat ONYFS_BLOCK_SIZE) = unat off div 4096" by (simp add: ONYFS_BLOCK_SIZE_def unat_div)
  have "40960 \<le> unat off \<Longrightarrow> 10 \<le> unat off div 4096" by (simp add: less_eq_div_iff_mult_less_eq)
  then show ?thesis using a by (subst write_loop.simps) (auto simp: k ONYFS_DIRECT_BLKS_def)
qed

lemma write_loop_ok:
  assumes "vol_ok s" and "file_ok s i" and "room s (3 * (10 - unat off div 4096) + m)"
    and "n = min (length rest) (40960 - unat off)"
  shows "(\<exists>i' t. write_loop i off rest w s = (Inr (i', w + of_nat n), t) \<and> grows s i t i' \<and> room t m \<and>
      (\<forall>p<40960. fbyte t i' p =
        (if unat off \<le> p \<and> p < unat off + n then rest ! (p - unat off) else fbyte s i p))) \<or>
    (\<exists>t. write_loop i off rest w s = (Inl ENoSpace, t) \<and> (\<forall>n<32768. bm_bit (blk t (bmb s)) n))"
  using assms
proof (induction "length rest" arbitrary: i off rest w s n rule: less_induct)
  case less
  have ok: "fs_ok s" using less.prems(1) by (simp add: vol_ok_def fs_v2_def)
  show ?case
  proof (cases "rest = [] \<or> 40960 \<le> unat off")
    case True
    have "grows s i s i" using grows_refl [OF ok less.prems(2) fs_upd_refl [OF ok] less.prems(1)] .
    moreover have "n = 0" using True less.prems(4) by auto
    moreover have "room s m" using room_mono [OF less.prems(3)] by simp
    ultimately show ?thesis using write_loop_done [OF True] by (intro disjI1 exI [of _ i] exI [of _ s]) auto
  next
    case False
    define k a c where "k = unat off div 4096" and "a = unat off mod 4096" and "c = min (4096 - a) (length rest)"
    have off: "unat off = k * 4096 + a" "a < 4096" "k < 10"
      using False by (simp_all add: k_def a_def div_less_iff_less_mult)
    have c: "0 < c" "a + c \<le> 4096" "c \<le> length rest" "length (take c rest) = c"
      using off(2) False by (auto simp: c_def)
    have lt: "length (drop c rest) < length rest" using c False by simp
    have run: "write_loop i off rest w s = (case chunk_round i k a (take c rest) s of (Inl e, t) \<Rightarrow> (Inl e, t)
        | (Inr i', t) \<Rightarrow> write_loop i' (off + of_nat c) (drop c rest) (w + of_nat c) t)"
      using write_loop_round [of rest off i w s, unfolded Let_def] False unfolding k_def a_def c_def by simp
    have "3 * (10 - k) = 3 + 3 * (9 - k)" using off(3) by simp
    then have "room s (3 + (3 * (9 - k) + m))" using less.prems(3) by (simp add: k_def add.assoc)
    from chunk_round_ok [OF less.prems(1,2) off(3) this, of a "take c rest"] c(2,4)
    consider (err) t where "chunk_round i k a (take c rest) s = (Inl ENoSpace, t)" "\<forall>n<32768. bm_bit (blk t (bmb s)) n"
      | (ok) i' t where "chunk_round i k a (take c rest) s = (Inr i', t)" "grows s i t i'" "room t (3 * (9 - k) + m)"
        "\<forall>j<10. fblk t i' j = (if j = k then blit (fblk s i k) a (take c rest) else fblk s i j)" by auto
    then show ?thesis
    proof cases
      case err
      then show ?thesis using run by auto
    next
      case (ok i' t)
      have g: "vol_ok t" "file_ok t i'" "bmb t = bmb s"
        using ok(2) vol_ok_core [OF less.prems(1)] core_sb [of t s] by (simp_all add: grows_def)
      have byte: "fbyte t i' p = (if unat off \<le> p \<and> p < unat off + c then rest ! (p - unat off) else fbyte s i p)"
        if "p < 40960" for p
        using fbyte_round [OF \<open>fs_ok s\<close> off(1), of "take c rest" p t i' i] c that ok(4) by auto
      have uo: "unat (off + of_nat c) = unat off + c"
        using off c(2) by (simp add: unat_word_ariths unat_of_nat)
      show ?thesis
      proof (cases "c = length rest")
        case True
        then have "n = c" using less.prems(4) off c(2) by (auto simp: min_def)
        moreover have "write_loop i off rest w s = (Inr (i', w + of_nat c), t)"
          using run ok(1) True write_loop_done [of "[]"] by simp
        moreover have "room t m" using room_mono [OF ok(3)] by simp
        ultimately show ?thesis using ok(2) byte by (intro disjI1 exI [of _ i'] exI [of _ t]) simp
      next
        case False
        then have c': "c = 4096 - a" using c_def by simp
        then have d: "unat (off + of_nat c) div 4096 = k + 1" using uo off by simp
        define n' where "n' = min (length (drop c rest)) (40960 - unat (off + of_nat c))"
        have n: "n = c + n'"
        proof -
          have "40960 - unat off = c + (40960 - unat (off + of_nat c))" using uo off c' by simp
          then show ?thesis using less.prems(4) c(3) by (auto simp: n'_def min_def)
        qed
        have "room t (3 * (10 - unat (off + of_nat c) div 4096) + m)" using ok(3) d by simp
        from less.hyps [OF lt g(1,2) this n'_def, of "w + of_nat c"]
        show ?thesis
        proof (elim disjE exE conjE)
          fix u assume "write_loop i' (off + of_nat c) (drop c rest) (w + of_nat c) t = (Inl ENoSpace, u)"
            "\<forall>n<32768. bm_bit (blk u (bmb t)) n"
          then show ?thesis using run ok(1) g(3) by auto
        next
          fix i'' u
          assume u: "write_loop i' (off + of_nat c) (drop c rest) (w + of_nat c) t = (Inr (i'', w + of_nat c + of_nat n'), u)"
            "grows t i' u i''" "room u m" "\<forall>p<40960. fbyte u i'' p = (if unat (off + of_nat c) \<le> p \<and>
              p < unat (off + of_nat c) + n' then drop c rest ! (p - unat (off + of_nat c)) else fbyte t i' p)"
          have "fbyte u i'' p = (if unat off \<le> p \<and> p < unat off + n then rest ! (p - unat off) else fbyte s i p)"
            if p: "p < 40960" for p
            using u(4) byte p c(3) unfolding uo n by (auto simp: add.commute)
          moreover have "write_loop i off rest w s = (Inr (i'', w + of_nat n), u)"
            using run ok(1) u(1) by (simp add: n add.assoc)
          ultimately show ?thesis using grows_trans [OF ok(2) u(2)] u(3)
            by (intro disjI1 exI [of _ i''] exI [of _ u]) simp
        qed
      qed
    qed
  qed
qed


lemma file_ok_cong:
  "(\<And>b. data_blk t b = data_blk s b) \<Longrightarrow> ino_blocks i' = ino_blocks i \<Longrightarrow> file_ok t i' = file_ok s i"
  unfolding file_ok_def by simp

lemma fbyte_cong: "ino_blocks i' = ino_blocks i \<Longrightarrow> fbyte s i' p = fbyte s i p"
  by (simp add: fbyte_def fblk_def)

lemma grows_inode:
  assumes "vol_ok s" and "grows s i t i'" and "valid_ino s k"
  shows "inode_at t k = inode_at s k"
proof (rule inode_at_cong)
  have t: "vol_ok t" "core t = core s" "file_ok t i'" using assms(2) vol_ok_core [OF assms(1)] by (simp_all add: grows_def)
  then show "core t = core s" by simp
  have "iblk s k \<noteq> b" if "b \<in> set (ino_blocks i')" "b \<noteq> 0" for b
  proof -
    have "data_blk t b" using that t(3) by (auto simp: file_ok_def in_set_conv_nth)
    then show ?thesis using data_blk_layout(4) [OF t(1)] assms(3) valid_ino_cong [OF t(2)] iblk_cong [OF t(2)] by simp
  qed
  then have "iblk s k = 0 \<or> iblk s k \<notin> set (ino_blocks i')" by blast
  then show "blk t (iblk s k) = blk s (iblk s k)"
    using assms by (simp add: grows_def vol_ok_def fs_v2_def)
qed

text \<open>Writing the inode and committing keep the contents of a file.\<close>

lemma finish_file_ok:
  assumes "vol_ok s" and "file_ok s i" and "valid_ino s ino" and "room s 1"
  shows "\<exists>u v. write_inode ino i s = (Inr (), u) \<and> journal_commit u = (Inr (), v) \<and> vol_ok v \<and>
    inode_at v ino = i\<lparr>ino_ctime := 0\<rparr> \<and> file_ok v i \<and> (\<forall>p<40960. fbyte v i p = fbyte s i p) \<and>
    (\<forall>k. valid_ino s k \<and> k \<noteq> ino \<longrightarrow> inode_at v k = inode_at s k)"
proof -
  have v2: "fs_v2 s" using assms(1) by (simp add: vol_ok_def)
  then have ok: "fs_ok s" "fs_version s \<noteq> ONYFS_V1" and j: "valid_ino s k \<Longrightarrow> \<not> jarea s (iblk s k)" for k
    by (simp_all add: fs_v2_def)
  have wf: "inode_wf i" using assms(2) by (simp add: file_ok_def inode_wf_def ONYFS_DIRECT_BLKS_def)
  obtain u where u: "write_inode ino i s = (Inr (), u)"
    "fs_upd s [(iblk s ino, blit (blk s (iblk s ino)) (islot ino * 128) (inode_to_bytes i))] 1 u"
    using write_inode_ok [OF ok assms(4) j [OF assms(3)] wf] by blast
  note at = inode_at_upd [OF ok j [OF assms(3)] wf u(2)]
  obtain v where v: "journal_commit u = (Inr (), v)" "same_fs u v"
    using journal_commit_same [OF fs_upd_ok [OF u(2)]] by blast
  have c: "core u = core s" "core v = core s" "fs_ok v" "jarea u = jarea s" "valid_ino u = valid_ino s" "fs_v2 u"
    using fs_upd_core [OF u(2)] same_fs_cong [OF v(2)] jarea_cong [of u s] valid_ino_cong [of u s] fs_v2_upd [OF v2 u(2)]
    by simp_all
  have bv: "blk v b = blk s b" if "\<not> jarea s b" "b \<noteq> iblk s ino" for b
    using same_fs_cong(6) [OF v(2)] fs_upd_blk [OF u(2) that(1)] that c(4) by (simp add: after_writes_def)
  have iv: "inode_at v k = inode_at u k" if "valid_ino s k" for k
    using same_fs_inode [OF c(6) v(2)] that c(5) by simp
  have "blk v (bmb s) = blk s (bmb s)" using bv assms(1,3) by (auto simp: vol_ok_def)
  then have db: "data_blk v b = data_blk s b" for b
    using core_sb [OF c(2)] by (simp add: data_blk_def dblk_def)
  then have fv: "file_ok v i" using assms(2) file_ok_cong [of v s i i] by simp
  have "fblk v i k = fblk s i k" if k: "k < 10" for k
  proof (cases "ino_blocks i ! k = 0")
    case False
    then have "data_blk s (ino_blocks i ! k)" using assms(2) k by (simp add: file_ok_def)
    note l = data_blk_layout [OF assms(1) this]
    have "blk v (ino_blocks i ! k) = blk s (ino_blocks i ! k)"
      using bv [OF l(2)] l(4) [OF assms(3)] by simp
    then show ?thesis by (simp add: fblk_def)
  qed (simp add: fblk_def)
  then have "fbyte v i p = fbyte s i p" if "p < 40960" for p
    using that by (simp add: fbyte_def div_less_iff_less_mult)
  moreover have "inode_at v k = inode_at s k" if "valid_ino s k" "k \<noteq> ino" for k
    using iv [OF that(1)] at(2) j [OF that(1)] that assms(3) by (simp add: valid_ino_def)
  ultimately show ?thesis
    using u(1) v(1) vol_ok_core [OF assms(1) c(3,2)] fv iv [OF assms(3)] at(1)
    by (intro exI [of _ u] exI [of _ v]) simp
qed

lemma end_of_write:
  fixes off :: u32
  assumes "n = min len (40960 - unat off)"
  shows "unat (ucast (off + of_nat n) :: u64) = unat off + n"
proof -
  have "n = 0 \<or> unat off + n \<le> 40960" using assms by auto
  then have "unat (off + of_nat n) = unat off + n"
    using unsigned_less [where 'a = nat, of off] by (auto simp: unat_word_ariths unat_of_nat)
  then show ?thesis using unsigned_less [where 'a = nat, of "off + of_nat n"]
    by (simp add: unsigned_ucast_eq take_bit_eq_mod)
qed

text \<open>C3: Writing a file. On a volume in good order with journal space for the operation (31
  entries), a write of the bytes \<open>buf\<close> at offset \<open>off\<close> of a file in good order writes the
  \<open>n\<close> bytes that fit below the limit of ten direct blocks and returns \<open>n\<close>: afterwards byte \<open>p\<close>
  of the file is the written one for \<open>p\<close> in \<open>[off, off + n)\<close> and the old one (zero in an
  unmapped block) elsewhere, the size is raised to \<open>off + n\<close> if it was smaller, the file is again
  in good order, and all other inodes are unchanged. Otherwise it fails with \<open>NoSpace\<close> and every
  data block is in use.\<close>

theorem write_file_correct:
  assumes "vol_ok s" and "valid_ino s ino" and "file_ok s (inode_at s ino)" and "room s 31"
    and "n = min (length buf) (40960 - unat off)"
  shows "(\<exists>t. write_file ino buf off s = (Inr (of_nat n), t) \<and> vol_ok t \<and> file_ok t (inode_at t ino) \<and>
      (\<forall>p<40960. fbyte t (inode_at t ino) p =
        (if unat off \<le> p \<and> p < unat off + n then buf ! (p - unat off) else fbyte s (inode_at s ino) p)) \<and>
      unat (ino_size (inode_at t ino)) = max (unat (ino_size (inode_at s ino))) (unat off + n) \<and>
      (\<forall>k. valid_ino s k \<and> k \<noteq> ino \<longrightarrow> inode_at t k = inode_at s k)) \<or>
    (\<exists>t. write_file ino buf off s = (Inl ENoSpace, t) \<and> (\<forall>n<32768. bm_bit (blk t (bmb s)) n))"
proof -
  let ?i = "inode_at s ino" and ?g = "got_blk (iblk s ino) s"
  have ok: "fs_v2 s" "fs_ok s" "fs_version s \<noteq> ONYFS_V1" using assms(1) by (simp_all add: vol_ok_def fs_v2_def)
  have g: "fs_upd s [] 0 ?g" using fs_upd_got [OF ok(2)] .
  have gg: "grows s ?i ?g ?i" using grows_refl [OF ok(2) assms(3) g assms(1)] .
  have vg: "vol_ok ?g" "file_ok ?g ?i" "bmb ?g = bmb s"
    using gg vol_ok_core [OF assms(1)] by (simp_all add: grows_def)
  have "room s (3 * (10 - unat off div 4096) + 1)" by (rule room_mono [OF assms(4)]) simp
  then have "room ?g (3 * (10 - unat off div 4096) + 1)" using fs_upd_room [OF g, of "3 * (10 - unat off div 4096) + 1"] by simp
  from write_loop_ok [OF vg(1,2) this assms(5), of 0]
  show ?thesis
  proof (elim disjE exE conjE)
    fix t assume "write_loop ?i off buf 0 ?g = (Inl ENoSpace, t)" "\<forall>n<32768. bm_bit (blk t (bmb ?g)) n"
    then show ?thesis using ok vg(3) by (auto simp: write_file_def read_inode_ok)
  next
    fix i' t assume t: "write_loop ?i off buf 0 ?g = (Inr (i', 0 + of_nat n), t)" "grows ?g ?i t i'" "room t 1"
      "\<forall>p<40960. fbyte t i' p =
        (if unat off \<le> p \<and> p < unat off + n then buf ! (p - unat off) else fbyte ?g ?i p)"
    define e :: u64 where "e = ucast (off + of_nat n)"
    have ue: "unat e = unat off + n" unfolding e_def by (rule end_of_write [OF assms(5)])
    define i2 where "i2 = (if e > ino_size i' then i'\<lparr>ino_size := e\<rparr> else i')\<lparr>ino_mtime := fs_jiffies t\<rparr>"
    have b2: "ino_blocks i2 = ino_blocks i'" by (simp add: i2_def)
    have gt: "vol_ok t" "file_ok t i'" "core t = core s" "i' = ?i\<lparr>ino_blocks := ino_blocks i'\<rparr>"
      using t(2) vol_ok_core [OF vg(1)] gg by (simp_all add: grows_def)
    have f2: "file_ok t i2" using gt(2) file_ok_cong [of t t i2 i'] b2 by simp
    have "ino_size i' = ino_size ?i" by (subst gt(4)) simp
    then have size: "unat (ino_size i2) = max (unat (ino_size ?i)) (unat off + n)"
      using ue by (auto simp: i2_def word_less_nat_alt max_def)
    have vi: "valid_ino t = valid_ino s" using valid_ino_cong [OF gt(3)] .
    obtain u v where uv: "write_inode ino i2 t = (Inr (), u)" "journal_commit u = (Inr (), v)" "vol_ok v"
      "inode_at v ino = i2\<lparr>ino_ctime := 0\<rparr>" "file_ok v i2" "\<forall>p<40960. fbyte v i2 p = fbyte t i2 p"
      "\<forall>k. valid_ino t k \<and> k \<noteq> ino \<longrightarrow> inode_at v k = inode_at t k"
      using finish_file_ok [OF gt(1) f2 _ t(3), of ino] vi assms(2) by auto
    have "write_file ino buf off s = (Inr (of_nat n), v)"
      using ok t(1) uv(1,2) unfolding i2_def e_def
      by (simp add: write_file_def read_inode_ok Let_def split: if_splits)
    moreover have "inode_at v k = inode_at s k" if "valid_ino s k" "k \<noteq> ino" for k
      using uv(7) that vi grows_inode [OF assms(1) grows_trans [OF gg t(2)]] by simp
    moreover have "fbyte v (inode_at v ino) p = fbyte t i' p" if "p < 40960" for p
      using uv(4,6) that fbyte_cong [of "inode_at v ino" i2 v p] fbyte_cong [of i2 i' t p] b2 by simp
    moreover have "fbyte ?g ?i p = fbyte s ?i p" for p by (simp add: fbyte_def fblk_def)
    ultimately show ?thesis
      using uv(3,4,5) size t(4) file_ok_cong [of v v "inode_at v ino" i2] by (intro disjI1 exI [of _ v]) simp
  qed
qed

end
