(* ===== verification/Onyfs_Names.thy ===== *)
theory Onyfs_Names
  imports Onyfs_File
begin

text \<open>
  What the name-changing operations of \<open>Onyfs_File\<close> do on a mounted version 2 volume: \<open>create\<close>,
  \<open>mkdir\<close>, \<open>unlink\<close> and \<open>rename\<close> as changes of the directory maps, \<open>truncate\<close> as a change of
  one inode, and \<open>mount\<close> as the inverse of \<open>persist_superblock\<close>. The order of the two directory
  updates in \<open>rename\<close> makes renaming a file to itself delete it.
\<close>

section \<open>Parent directories\<close>

lemma fs_upd_room_le: "fs_upd s ws n t \<Longrightarrow> room s k \<Longrightarrow> n + m \<le> k \<Longrightarrow> room t m"
  using fs_upd_room room_mono by blast

lemma parent_ino_ok:
  assumes "fs_v2 s" and "resolve_ok s ONYFS_ROOT_INO (path_comps p)" and "valid_ino s ONYFS_ROOT_INO"
  shows "\<exists>t. fs_upd s [] 0 t \<and> parent_ino p s =
    (case resolve s ONYFS_ROOT_INO (path_comps p) of None \<Rightarrow> Inl ENoEnt | Some i \<Rightarrow> Inr i, t)"
proof (cases "p = []")
  case True
  then show ?thesis using fs_upd_refl assms(1) by (auto simp: parent_ino_def fs_v2_def)
next
  case False
  obtain t where t: "fs_upd s [] 0 t" "lookup_walk ONYFS_ROOT_INO p s =
      (case resolve s ONYFS_ROOT_INO (path_comps p) of None \<Rightarrow> Inl ENoEnt | Some i \<Rightarrow> Inr i, t)"
    using lookup_walk_resolve [OF assms(1,2)] by blast
  show ?thesis
  proof (cases "resolve s ONYFS_ROOT_INO (path_comps p)")
    case None
    then show ?thesis using t False by (auto simp: parent_ino_def lookup_def)
  next
    case (Some i)
    let ?u = "got_blk (iblk t i) t"
    have "fs_upd s [] 0 ?u" using fs_upd_trans [OF t(1) fs_upd_got [OF fs_upd_ok [OF t(1)]]] by simp
    then show ?thesis using Some t(2) False stat_ok [OF fs_v2_upd [OF assms(1) t(1)]]
      by (auto simp: parent_ino_def lookup_def stat_of_def)
  qed
qed

lemma split_path_comps:
  assumes "hd path = SLASH" and "split_path path = (pp, n)" and "n \<noteq> []"
  shows "path_comps path = path_comps pp @ [n]" and "path \<noteq> []"
proof -
  show ne: "path \<noteq> []" using assms(2,3) by (auto simp: split_path_def)
  then have p: "path = SLASH # tl path" using assms(1) by (cases path) auto
  show "path_comps path = path_comps pp @ [n]"
  proof (cases "rposition (\<lambda>b. b = SLASH) (tl path)")
    case None
    then have "pp = []" "tl path = n" using assms(2) by (simp_all add: split_path_def Let_def)
    moreover from this have "SLASH \<notin> set n" using None by (auto simp: rposition_None)
    ultimately show ?thesis using path_comps_plain [of n] assms(3) path_comps_slash [of n] p by simp
  next
    case (Some pos)
    then have s: "pos < length (tl path)" "tl path ! pos = SLASH" "\<forall>j. pos < j \<and> j < length (tl path) \<longrightarrow> tl path ! j \<noteq> SLASH"
      by (auto simp: rposition_Some)
    have pn: "pp = take pos (tl path)" "n = drop (pos + 1) (tl path)"
      using assms(2) Some by (simp_all add: split_path_def Let_def)
    then have "tl path = pp @ SLASH # n" using s(1,2) id_take_nth_drop [of pos "tl path"] by simp
    moreover have "SLASH \<notin> set n"
    proof
      assume "SLASH \<in> set n"
      then obtain j where "j < length n" "n ! j = SLASH" by (auto simp: in_set_conv_nth)
      then show False using s(3) [rule_format, of "pos + 1 + j"] pn(2) by (auto simp: less_diff_conv)
    qed
    ultimately show ?thesis
      using p path_comps_slash [of "tl path"] path_comps_append [of pp n] path_comps_plain [of n] assms(3) by metis
  qed
qed

text \<open>Reading changes nothing the operations look at.\<close>

lemma read_frame:
  assumes "fs_v2 s" and "fs_upd s [] 0 t"
  shows "fs_v2 t" and "room s n \<Longrightarrow> room t n" and "dir_ok s d \<Longrightarrow> dir_ok t d \<and> dir_map t d = dir_map s d"
    and "valid_ino t = valid_ino s" and "valid_ino s k \<Longrightarrow> inode_at t k = inode_at s k"
    and "dir_ok s d \<Longrightarrow> dir_blk t d = dir_blk s d \<and> blk t (dir_blk s d) = blk s (dir_blk s d)"
proof -
  show "fs_v2 t" using fs_v2_upd [OF assms] .
  show "room s n \<Longrightarrow> room t n" using fs_upd_room [OF assms(2), of n] by simp
  show "dir_ok s d \<Longrightarrow> dir_ok t d \<and> dir_map t d = dir_map s d" using dir_map_read [OF assms] by blast
  show "valid_ino t = valid_ino s" using valid_ino_cong [OF fs_upd_core [OF assms(2)]] .
  show i: "valid_ino s k \<Longrightarrow> inode_at t k = inode_at s k" for k using inode_at_frame [OF assms] by simp
  show "dir_ok s d \<Longrightarrow> dir_blk t d = dir_blk s d \<and> blk t (dir_blk s d) = blk s (dir_blk s d)"
    using i [of d] fs_upd_none_blk [OF assms(2), of "dir_blk s d"] by (simp add: dir_blk_def dir_ok_def)
qed

section \<open>Unlink\<close>

text \<open>A call that fails with an error and leaves every block outside the journal as it was.\<close>

definition refused :: "'a fsm \<Rightarrow> errno \<Rightarrow> fs_state \<Rightarrow> bool" where
  "refused m e s \<longleftrightarrow> (\<exists>t. m s = (Inl e, t) \<and> (\<forall>b. \<not> jarea s b \<longrightarrow> blk t b = blk s b))"

lemma refusedI: "m s = (Inl e, t) \<Longrightarrow> fs_upd s [] n t \<Longrightarrow> refused m e s"
  using fs_upd_none_blk by (auto simp: refused_def)


section \<open>Rename\<close>

text \<open>Adding the new name in directory \<open>q\<close> and removing the old one in \<open>p\<close>, then committing.\<close>

lemma move_name:
  assumes "fs_v2 s" and "dir_ok s p" and "dir_ok s q" and "p = q \<or> dir_blk s p \<noteq> dir_blk s q"
    and "room s 2" and "valid_name old" and "valid_name new" and "dir_map s p old = Some i"
    and "\<not> (dir_map s q new = None \<and> dir_full (blk s (dir_blk s q)))"
  shows "\<exists>t. kseq (add_dirent q new i ty) (kseq (remove_dirent p old) journal_commit) s = (Inr (), t) \<and> fs_v2 t \<and>
    dir_ok t p \<and> dir_ok t q \<and> (\<forall>k. valid_ino s k \<longrightarrow> inode_at t k = inode_at s k) \<and>
    (if p = q then dir_map t p = (dir_map s p)(new \<mapsto> i, old := None)
     else dir_map t p = (dir_map s p)(old := None) \<and> dir_map t q = (dir_map s q)(new \<mapsto> i))"
proof -
  have i: "valid_ino s i" using assms(2,8) by (simp add: dir_ok_def)
  have r1: "room s 1" using room_mono [OF assms(5)] by simp
  obtain u buf where u: "add_dirent q new i ty s = (Inr (), u)" "fs_upd s [(dir_blk s q, buf)] 1 u" "fs_v2 u"
    "dir_map u q = (dir_map s q)(new \<mapsto> i)" "\<forall>k. valid_ino s k \<longrightarrow> inode_at u k = inode_at s k"
    "\<forall>e. dir_ok s e \<longrightarrow> dir_ok u e"
    "\<forall>e. dir_ok s e \<and> dir_blk s e \<noteq> dir_blk s q \<longrightarrow> dir_map u e = dir_map s e"
    using dir_add_upd [OF assms(1,3) r1 assms(7) i assms(9), of ty] by blast
  have vu: "valid_ino u = valid_ino s" using valid_ino_cong [OF fs_upd_core [OF u(2)]] .
  have bu: "dir_ok s e \<Longrightarrow> dir_blk u e = dir_blk s e" for e using u(5) by (simp add: dir_blk_def dir_ok_def)
  have r: "room u 1" using fs_upd_room_le [OF u(2) assms(5)] by simp
  have pu: "dir_ok u p" "dir_ok u q" using u(6) assms(2,3) by simp_all
  have mp: "dir_map u p = (if p = q then (dir_map s p)(new \<mapsto> i) else dir_map s p)"
    using u(4,7) assms(2,4) by auto
  then have "dir_map u p old \<noteq> None" using assms(8) by auto
  then obtain v where v: "remove_dirent p old u = (Inr (), v)" "fs_v2 v" "dir_map v p = (dir_map u p)(old := None)"
    "\<forall>k. valid_ino u k \<longrightarrow> inode_at v k = inode_at u k" "\<forall>e. dir_ok u e \<longrightarrow> dir_ok v e"
    "\<forall>e. dir_ok u e \<and> dir_blk u e \<noteq> dir_blk u p \<longrightarrow> dir_map v e = dir_map u e" "core v = core u"
    using dir_remove_upd [OF u(3) pu(1) r assms(6)] fs_upd_core by metis
  have pv: "dir_ok v p" "dir_ok v q" using v(5) pu by simp_all
  obtain t where t: "journal_commit v = (Inr (), t)" "same_fs v t"
    using journal_commit_same v(2) by (auto simp: fs_v2_def)
  have "inode_at t k = inode_at s k" if "valid_ino s k" for k
    using same_fs_inode [OF v(2) t(2)] valid_ino_cong [OF v(7)] vu v(4) u(5) that by simp
  moreover have "dir_map v q = dir_map u q" if "p \<noteq> q" using v(6) pu bu assms(2-4) that by simp
  ultimately show ?thesis
    using u(1) v(1,3) t(1) same_fs_v2 [OF v(2) t(2)] same_fs_dir [OF v(2) t(2) pv(1)] same_fs_dir [OF v(2) t(2) pv(2)]
      mp u(4) by (intro exI [of _ t]) auto
qed

text \<open>\<open>rename\<close> with all its lookups.\<close>

lemma rename_ok:
  assumes v: "fs_v2 s" "valid_ino s ONYFS_ROOT_INO" and hd: "hd old_path = SLASH" "hd new_path = SLASH"
    and sp: "split_path old_path = (opp, old)" "split_path new_path = (npp, new)"
    and n: "valid_name old" "valid_name new"
    and o: "resolve_ok s ONYFS_ROOT_INO (path_comps opp)" "resolve s ONYFS_ROOT_INO (path_comps opp) = Some p"
    and w: "resolve_ok s ONYFS_ROOT_INO (path_comps npp)" "resolve s ONYFS_ROOT_INO (path_comps npp) = Some q"
    and d: "dir_ok s p" "dir_ok s q" "p = q \<or> dir_blk s p \<noteq> dir_blk s q" "dir_map s p old = Some i"
    and r: "room s 2" "\<not> (dir_map s q new = None \<and> dir_full (blk s (dir_blk s q)))"
  shows "\<exists>t. rename old_path new_path s = (Inr (), t) \<and> fs_v2 t \<and> dir_ok t p \<and> dir_ok t q \<and>
    (\<forall>k. valid_ino s k \<longrightarrow> inode_at t k = inode_at s k) \<and>
    (if p = q then dir_map t p = (dir_map s p)(new \<mapsto> i, old := None)
     else dir_map t p = (dir_map s p)(old := None) \<and> dir_map t q = (dir_map s q)(new \<mapsto> i))"
proof -
  have ne: "old \<noteq> []" "new \<noteq> []" using n by (simp_all add: valid_name_def)
  note oc = split_path_comps [OF hd(1) sp(1) ne(1)] and nc = split_path_comps [OF hd(2) sp(2) ne(2)]
  have "resolve_ok s ONYFS_ROOT_INO (path_comps old_path)" "resolve s ONYFS_ROOT_INO (path_comps old_path) = Some i"
    using resolve_ok_snoc [OF o(1)] o(2) d(1,4) by (simp_all add: oc resolve_snoc)
  then obtain a where a: "fs_upd s [] 0 a" "lookup old_path s = (Inr (i, stat_of i (inode_at s i)), a)"
    using lookup_ok [OF v(1) _ v(2), of old_path] by auto
  note fa = read_frame [OF v(1) a(1)]
  obtain b where b: "fs_upd a [] 0 b" "parent_ino opp a = (Inr p, b)"
    using parent_ino_ok [OF fa(1), of opp] resolve_read [OF v(1) a(1) o(1)] o(2) fa(4) v(2) by auto
  note fb = read_frame [OF fa(1) b(1)]
  have sb: "fs_upd s [] 0 b" using fs_upd_trans [OF a(1) b(1)] by simp
  obtain c where c: "fs_upd b [] 0 c" "parent_ino npp b = (Inr q, c)"
    using parent_ino_ok [OF fb(1), of npp] resolve_read [OF v(1) sb w(1)] w(2) fb(4) fa(4) v(2) by auto
  have sc: "fs_upd s [] 0 c" using fs_upd_trans [OF sb c(1)] by simp
  note f = read_frame [OF v(1) sc]
  let ?ty = "ucast (drop_bit 12 (st_mode (stat_of i (inode_at s i))) AND 0xF) :: u8"
  obtain t where t: "kseq (add_dirent q new i ?ty) (kseq (remove_dirent p old) journal_commit) c = (Inr (), t)" "fs_v2 t"
    "dir_ok t p" "dir_ok t q" "\<forall>k. valid_ino c k \<longrightarrow> inode_at t k = inode_at c k"
    "if p = q then dir_map t p = (dir_map c p)(new \<mapsto> i, old := None)
     else dir_map t p = (dir_map c p)(old := None) \<and> dir_map t q = (dir_map c q)(new \<mapsto> i)"
    using move_name [OF f(1), of p q old new i ?ty] f(2) [OF r(1)] f(3) [OF d(1)] f(3) [OF d(2)]
      f(6) [OF d(1)] f(6) [OF d(2)] d r n by auto
  have "rename old_path new_path s = (Inr (), t)"
    using hd oc(2) nc(2) sp ne a(2) b(2) c(2) t(1) by (simp add: rename_def)
  then show ?thesis using t(2-6) f(3) [OF d(1)] f(3) [OF d(2)] f(4,5) by (intro exI [of _ t]) auto
qed

text \<open>C15: \<open>rename\<close> moves a name, on a version 2 volume with two free journal slots. When both paths are absolute with valid last
  components and parents \<open>p\<close> and \<open>q\<close> in good order, the old path names inode \<open>i\<close>, and the new parent \<open>q\<close> has a free entry or
  already has the new name (which is then replaced), the new name maps to \<open>i\<close>, the old name is gone, every other name of both
  directories keeps its inode, and no inode changes; this for a move inside one directory under a different name and
  for a move between two directories with different blocks.\<close>

theorem rename_correct:
  assumes "fs_v2 s" and "valid_ino s ONYFS_ROOT_INO" and "hd old_path = SLASH" and "hd new_path = SLASH"
    and "split_path old_path = (opp, old)" and "split_path new_path = (npp, new)"
    and "valid_name old" and "valid_name new"
    and "resolve_ok s ONYFS_ROOT_INO (path_comps opp)" and "resolve s ONYFS_ROOT_INO (path_comps opp) = Some p"
    and "resolve_ok s ONYFS_ROOT_INO (path_comps npp)" and "resolve s ONYFS_ROOT_INO (path_comps npp) = Some q"
    and "dir_ok s p" and "dir_ok s q" and "dir_map s p old = Some i" and "room s 2"
    and "p = q \<and> old \<noteq> new \<or> dir_blk s p \<noteq> dir_blk s q"
    and "\<not> (dir_map s q new = None \<and> dir_full (blk s (dir_blk s q)))"
  shows "\<exists>t. rename old_path new_path s = (Inr (), t) \<and> fs_v2 t \<and> dir_ok t p \<and> dir_ok t q \<and>
    dir_map t p old = None \<and> dir_map t q new = Some i \<and>
    (\<forall>n. n \<noteq> old \<and> n \<noteq> new \<longrightarrow> dir_map t p n = dir_map s p n \<and> dir_map t q n = dir_map s q n) \<and>
    (\<forall>k. valid_ino s k \<longrightarrow> inode_at t k = inode_at s k)"
proof -
  have "p = q \<or> dir_blk s p \<noteq> dir_blk s q" using assms(17) by blast
  from rename_ok [OF assms(1-14) this assms(15,16,18)] obtain t where
    t: "rename old_path new_path s = (Inr (), t)" "fs_v2 t" "dir_ok t p" "dir_ok t q"
      "\<forall>k. valid_ino s k \<longrightarrow> inode_at t k = inode_at s k"
    and m: "if p = q then dir_map t p = (dir_map s p)(new \<mapsto> i, old := None)
     else dir_map t p = (dir_map s p)(old := None) \<and> dir_map t q = (dir_map s q)(new \<mapsto> i)" by blast
  show ?thesis
  proof (cases "p = q")
    case True
    then show ?thesis using t m assms(17) by (intro exI [of _ t]) simp
  next
    case False
    then show ?thesis using t m by (intro exI [of _ t]) simp
  qed
qed

text \<open>Renaming a path to itself unlinks it: the entry is added (in place) and then removed.\<close>

theorem rename_self_unlinks:
  assumes "fs_v2 s" and "valid_ino s ONYFS_ROOT_INO" and "hd path = SLASH" and "split_path path = (pp, n)"
    and "valid_name n" and "resolve_ok s ONYFS_ROOT_INO (path_comps pp)"
    and "resolve s ONYFS_ROOT_INO (path_comps pp) = Some p" and "dir_ok s p" and "dir_map s p n = Some i" and "room s 2"
  shows "\<exists>t. rename path path s = (Inr (), t) \<and> dir_map t p = (dir_map s p)(n := None)"
  using rename_ok [OF assms(1,2,3,3,4,4,5,5,6,7,6,7,8,8) _ assms(9,10)] assms(9) by auto


section \<open>Create and truncate\<close>

lemma dir_frame:
  assumes "fs_v2 s" and "fs_upd s ws n t" and "dir_ok s d" and "dir_blk s d \<notin> fst ` set ws"
    and "inode_at t d = inode_at s d"
  shows "dir_ok t d" and "dir_map t d = dir_map s d" and "dir_blk t d = dir_blk s d"
    and "blk t (dir_blk s d) = blk s (dir_blk s d)"
proof -
  note c = fs_upd_core [OF assms(2)]
  show b: "dir_blk t d = dir_blk s d" using assms(5) by (simp add: dir_blk_def)
  have "map_of (rev ws) (dir_blk s d) = None" using assms(4) by (simp add: map_of_eq_None_iff)
  then show e: "blk t (dir_blk s d) = blk s (dir_blk s d)"
    using fs_upd_blk [OF assms(2)] assms(3) by (simp add: dir_ok_def after_writes_def)
  then show m: "dir_map t d = dir_map s d" by (simp add: dir_map_def b)
  show "dir_ok t d"
    using assms(3) b e m jarea_cong [OF c] iblk_cong [OF c] valid_ino_cong [OF c] by (simp add: dir_ok_def)
qed

text \<open>Creating a file needs the inode bitmap apart from the journal, the inode table and the
  directory; \<open>n\<close> is the first free inode index.\<close>

definition ibm_ok :: "fs_state \<Rightarrow> bool" where
  "ibm_ok s \<longleftrightarrow> \<not> jarea s INODE_BITMAP_BLK \<and> (\<forall>k. valid_ino s k \<longrightarrow> iblk s k \<noteq> INODE_BITMAP_BLK)"

definition used_ino :: "fs_state \<Rightarrow> u32 \<Rightarrow> bool" where
  "used_ino s k \<longleftrightarrow> bm_bit (blk s INODE_BITMAP_BLK) (unat k - 1)"

lemma unat_new_ino: "fs_ok s \<Longrightarrow> first_clear (blk s b) = Some n \<Longrightarrow> unat (of_nat (n + 1) :: u32) = n + 1"
  by (simp only: unat_of_nat) (simp add: first_clear_Some blk_length)

lemma alloc_inode_upd:
  assumes "fs_v2 s" and "ibm_ok s" and "room s 1" and "first_clear (blk s INODE_BITMAP_BLK) = Some n"
    and "n < inodes_per_block s * unat (inode_table_block_count s)" and "i = of_nat (n + 1)"
  shows "\<exists>t. alloc_inode s = (Inr i, t) \<and>
      fs_upd s [(INODE_BITMAP_BLK, bm_put n (blk s INODE_BITMAP_BLK))] 1 t \<and>
      (\<forall>k. valid_ino s k \<longrightarrow> inode_at t k = inode_at s k) \<and> valid_ino s i \<and> \<not> used_ino s i \<and>
      (\<forall>k. used_ino t k \<longleftrightarrow> used_ino s k \<or> unat k - 1 = n)"
proof -
  have ok: "fs_ok s" "\<not> jarea s INODE_BITMAP_BLK" using assms(1,2) by (simp_all add: fs_v2_def ibm_ok_def)
  obtain t where t: "alloc_inode s = (Inr (of_nat n + 1), t)"
    "fs_upd s [(INODE_BITMAP_BLK, bm_put n (blk s INODE_BITMAP_BLK))] 1 t"
    using alloc_inode_ok [OF ok(1) assms(3) ok(2) assms(4)] by blast
  have ui: "unat i = n + 1" using unat_new_ino [OF ok(1) assms(4)] assms(6) by (simp only:)
  have "inode_at t k = inode_at s k" if "valid_ino s k" for k
    using inode_at_frame [OF assms(1) t(2) that] assms(2) that by (auto simp: ibm_ok_def)
  moreover have "valid_ino s i" using assms(5) ui by (auto simp: valid_ino_def)
  moreover have "blk t INODE_BITMAP_BLK = bm_put n (blk s INODE_BITMAP_BLK)"
    using fs_upd_blk [OF t(2) ok(2)] by (simp add: after_writes_def)
  then have "used_ino t k \<longleftrightarrow> used_ino s k \<or> unat k - 1 = n" for k
    using bm_bit_put [of n "blk s INODE_BITMAP_BLK"] assms(4) by (auto simp: used_ino_def first_clear_Some)
  moreover have "\<not> used_ino s i" using assms(4) by (simp add: used_ino_def ui first_clear_Some)
  ultimately show ?thesis using t assms(6) by (auto simp: add.commute)
qed

text \<open>Filling in the inode just allocated.\<close>

lemma write_new_inode:
  assumes "fs_v2 s" and "room s 1" and "valid_ino s i" and "inode_wf f"
  shows "\<exists>t w. write_inode i f s = (Inr (), t) \<and> fs_upd s [(iblk s i, w)] 1 t \<and> inode_at t i = f\<lparr>ino_ctime := 0\<rparr> \<and>
    (\<forall>k. valid_ino s k \<and> k \<noteq> i \<longrightarrow> inode_at t k = inode_at s k) \<and>
    (\<forall>d. dir_ok s d \<and> d \<noteq> i \<longrightarrow> dir_ok t d \<and> dir_map t d = dir_map s d \<and> dir_blk t d = dir_blk s d \<and>
       blk t (dir_blk s d) = blk s (dir_blk s d))"
proof -
  have ok: "fs_ok s" "fs_version s \<noteq> ONYFS_V1" and j: "valid_ino s k \<Longrightarrow> \<not> jarea s (iblk s k)" for k
    using assms(1) by (simp_all add: fs_v2_def)
  obtain t where t: "write_inode i f s = (Inr (), t)"
    "fs_upd s [(iblk s i, blit (blk s (iblk s i)) (islot i * 128) (inode_to_bytes f))] 1 t"
    using write_inode_ok [OF ok assms(2) j [OF assms(3)] assms(4)] by auto
  note at = inode_at_upd [OF ok j [OF assms(3)] assms(4) t(2)]
  have k: "inode_at t k = inode_at s k" if "valid_ino s k" "k \<noteq> i" for k
    using at(2) [of k] that j assms(3) by (simp add: valid_ino_def)
  have "dir_ok t d \<and> dir_map t d = dir_map s d \<and> dir_blk t d = dir_blk s d \<and> blk t (dir_blk s d) = blk s (dir_blk s d)"
    if d: "dir_ok s d" "d \<noteq> i" for d
  proof -
    have "valid_ino s d" "dir_blk s d \<noteq> iblk s i" using d(1) assms(3) by (simp_all add: dir_ok_def)
    then show ?thesis using dir_frame [OF assms(1) t(2) d(1)] k [of d] d(2) by simp
  qed
  then show ?thesis using t at(1) k by blast
qed

text \<open>Linking it and committing.\<close>

lemma link_new_inode:
  assumes "fs_v2 s" and "room s 1" and "dir_ok s d" and "valid_name name" and "valid_ino s i"
    and "\<not> (dir_map s d name = None \<and> dir_full (blk s (dir_blk s d)))"
  shows "\<exists>t. kseq (add_dirent d name i ty) (kseq journal_commit (kret i)) s = (Inr i, t) \<and> fs_v2 t \<and>
    core t = core s \<and> dir_map t d = (dir_map s d)(name \<mapsto> i) \<and>
    (\<forall>k. valid_ino s k \<longrightarrow> inode_at t k = inode_at s k) \<and> (\<forall>e. dir_ok s e \<longrightarrow> dir_ok t e) \<and>
    (\<forall>e. dir_ok s e \<and> dir_blk s e \<noteq> dir_blk s d \<longrightarrow> dir_map t e = dir_map s e) \<and>
    (\<forall>b. \<not> jarea s b \<and> b \<noteq> dir_blk s d \<longrightarrow> blk t b = blk s b)"
proof -
  obtain c buf where c: "add_dirent d name i ty s = (Inr (), c)" "fs_upd s [(dir_blk s d, buf)] 1 c" "fs_v2 c"
    "dir_map c d = (dir_map s d)(name \<mapsto> i)" "\<forall>k. valid_ino s k \<longrightarrow> inode_at c k = inode_at s k"
    "\<forall>e. dir_ok s e \<longrightarrow> dir_ok c e"
    "\<forall>e. dir_ok s e \<and> dir_blk s e \<noteq> dir_blk s d \<longrightarrow> dir_map c e = dir_map s e"
    using dir_add_upd [OF assms(1,3,2,4,5,6)] by blast
  obtain t where t: "journal_commit c = (Inr (), t)" "same_fs c t"
    using journal_commit_same c(3) by (auto simp: fs_v2_def)
  note cc = fs_upd_core [OF c(2)] and d = same_fs_dir [OF c(3) t(2)]
  have "blk t b = blk s b" if "\<not> jarea s b" "b \<noteq> dir_blk s d" for b
    using same_fs_cong(6) [OF t(2)] jarea_cong [OF cc] fs_upd_blk [OF c(2) that(1)] that by (simp add: after_writes_def)
  moreover have "inode_at t k = inode_at s k" if "valid_ino s k" for k
    using same_fs_inode [OF c(3) t(2)] valid_ino_cong [OF cc] c(5) that by simp
  moreover have "dir_ok t e \<and> dir_map t e = dir_map c e" if "dir_ok s e" for e using d [of e] c(6) that by simp
  ultimately show ?thesis
    using c(1,4,7) t(1) same_fs_v2 [OF c(3) t(2)] same_fs_cong(2) [OF t(2)] cc assms(3) by (intro exI [of _ t]) simp
qed

text \<open>C14: \<open>create\<close> of a file with a valid name in a directory \<open>d\<close> in good order, on a version 2 volume with three free journal
  slots, where the inode bitmap lies apart from the journal, the inode table and the directory, \<open>d\<close> itself is marked as used,
  the directory has the name or a free entry, and the first free inode index \<open>n\<close> has a slot in the blocks of the inode table (the
  code does not check that, see \<open>alloc_inode_overruns_table\<close>). \<open>create\<close> returns inode
  \<open>n + 1\<close>, which was not in use: the directory maps the name to it and all other names as before,
  the new inode is an empty regular file with the given mode and the current time, every other
  inode is unchanged, and the inode is now in use.\<close>

theorem create_correct:
  assumes "fs_v2 s" and "ibm_ok s" and "dir_ok s d" and "used_ino s d" and "dir_blk s d \<noteq> INODE_BITMAP_BLK"
    and "room s 3" and "valid_name name" and "first_clear (blk s INODE_BITMAP_BLK) = Some n"
    and "n < inodes_per_block s * unat (inode_table_block_count s)"
    and "\<not> (dir_map s d name = None \<and> dir_full (blk s (dir_blk s d)))"
  shows "\<exists>t. create d name mode s = (Inr (of_nat (n + 1)), t) \<and> fs_v2 t \<and> dir_ok t d \<and>
    \<not> used_ino s (of_nat (n + 1)) \<and> used_ino t (of_nat (n + 1)) \<and>
    dir_map t d = (dir_map s d)(name \<mapsto> of_nat (n + 1)) \<and>
    inode_at t (of_nat (n + 1)) = (fresh_inode mode 1 (fs_jiffies s))\<lparr>ino_ctime := 0\<rparr> \<and>
    (\<forall>k. valid_ino s k \<and> k \<noteq> of_nat (n + 1) \<longrightarrow> inode_at t k = inode_at s k)"
proof -
  let ?bm = INODE_BITMAP_BLK and ?f = "fresh_inode mode 1 (fs_jiffies s)"
  define i :: u32 where "i = of_nat (n + 1)"
  obtain a where a: "alloc_inode s = (Inr i, a)" "fs_upd s [(?bm, bm_put n (blk s ?bm))] 1 a"
    "\<forall>k. valid_ino s k \<longrightarrow> inode_at a k = inode_at s k" "valid_ino s i" "\<not> used_ino s i"
    "\<forall>k. used_ino a k \<longleftrightarrow> used_ino s k \<or> unat k - 1 = n"
    using alloc_inode_upd [OF assms(1,2) room_mono [OF assms(6)] assms(8,9) i_def] by auto
  have di: "d \<noteq> i" and vd: "valid_ino s d" using a(5) assms(3,4) by (auto simp: dir_ok_def)
  note ca = fs_upd_core [OF a(2)] and va = fs_v2_upd [OF assms(1) a(2)]
  have da: "dir_ok a d" "dir_map a d = dir_map s d" "dir_blk a d = dir_blk s d" "blk a (dir_blk s d) = blk s (dir_blk s d)"
    using dir_frame [OF assms(1) a(2) assms(3)] assms(5) a(3) vd by simp_all
  have ia: "valid_ino a = valid_ino s" "fs_jiffies a = fs_jiffies s" "iblk a = iblk s" "jarea a = jarea s"
    using valid_ino_cong [OF ca] core_sb [OF ca] iblk_cong [OF ca] jarea_cong [OF ca] by simp_all
  have ra: "room a 2" using fs_upd_room_le [OF a(2) assms(6)] by simp
  have wf: "inode_wf ?f" by (simp add: inode_wf_def fresh_inode_def)
  have "room a 1" using room_mono [OF ra] by simp
  from write_new_inode [OF va this _ wf, of i]
  obtain b w where b: "write_inode i ?f a = (Inr (), b)" "fs_upd a [(iblk s i, w)] 1 b"
    "inode_at b i = ?f\<lparr>ino_ctime := 0\<rparr>" "\<forall>k. valid_ino s k \<and> k \<noteq> i \<longrightarrow> inode_at b k = inode_at s k"
    "dir_ok b d" "dir_map b d = dir_map s d" "dir_blk b d = dir_blk s d" "blk b (dir_blk s d) = blk s (dir_blk s d)"
    using ia a(3,4) da di by auto
  note vb = fs_v2_upd [OF va b(2)] and cb = fs_upd_core [OF b(2)]
  have vib: "valid_ino b = valid_ino s" "jarea b = jarea s" using valid_ino_cong [OF cb] jarea_cong [OF cb] ia by simp_all
  have "room b 1" using fs_upd_room_le [OF b(2) ra] by simp
  then obtain t where t: "kseq (add_dirent d name i 8) (kseq journal_commit (kret i)) b = (Inr i, t)" "fs_v2 t"
    "dir_map t d = (dir_map s d)(name \<mapsto> i)" "\<forall>k. valid_ino s k \<longrightarrow> inode_at t k = inode_at b k" "dir_ok t d"
    "\<forall>x. \<not> jarea s x \<and> x \<noteq> dir_blk s d \<longrightarrow> blk t x = blk b x"
    using link_new_inode [OF vb _ b(5) assms(7), of i 8] vib a(4) b assms(10) by auto
  have "\<not> jarea s ?bm" "iblk s i \<noteq> ?bm" using assms(2) a(4) by (simp_all add: ibm_ok_def)
  then have "blk t ?bm = blk a ?bm" using t(6) assms(5) fs_upd_blk [OF b(2), of ?bm] ia(4) by (simp add: after_writes_def)
  moreover have "unat i - 1 = n" using unat_new_ino [OF _ assms(8)] assms(1) unfolding i_def fs_v2_def by (simp only: diff_add_inverse2)
  then have "used_ino a i" using a(6) by blast
  ultimately have "used_ino t i" by (simp add: used_ino_def)
  moreover have "create d name mode s = (Inr i, t)"
    using assms(1,7) a(1) b(1) t(1) ia(2) by (simp add: create_def fs_v2_def valid_name_def ONYFS_NAME_MAX_def)
  ultimately have "create d name mode s = (Inr i, t) \<and> fs_v2 t \<and> dir_ok t d \<and> \<not> used_ino s i \<and> used_ino t i \<and>
      dir_map t d = (dir_map s d)(name \<mapsto> i) \<and> inode_at t i = ?f\<lparr>ino_ctime := 0\<rparr> \<and>
      (\<forall>k. valid_ino s k \<and> k \<noteq> i \<longrightarrow> inode_at t k = inode_at s k)"
    using a(4,5) b(3,4) t by simp
  then show ?thesis unfolding i_def by blast
qed


text \<open>Neither the allocator nor \<open>create\<close> compares the number with the size of the inode table: with the table full the new inode is
  beyond its last block, in whatever follows it on the disk.\<close>

lemma alloc_inode_overruns_table:
  assumes "fs_ok s" and "fs_version s \<noteq> ONYFS_V1" and "room s 1" and "\<not> jarea s INODE_BITMAP_BLK"
    and "first_clear (blk s INODE_BITMAP_BLK) = Some n" and "inodes_per_block s * unat (inode_table_block_count s) \<le> n"
  shows "\<exists>t k. alloc_inode s = (Inr (of_nat (n + 1)), t) \<and> unat (inode_table_block_count s) \<le> k \<and>
    iblk t (of_nat (n + 1)) = sb_inode_table_start (fs_sb s) + of_nat k"
proof -
  obtain t where t: "alloc_inode s = (Inr (of_nat n + 1), t)"
    "fs_upd s [(INODE_BITMAP_BLK, bm_put n (blk s INODE_BITMAP_BLK))] 1 t"
    using alloc_inode_ok [OF assms(1,3,4,5)] by blast
  have "inode_idx (of_nat (n + 1)) = n" using unat_new_ino [OF assms(1,5)] by (simp only: inode_idx_def)
  then have "iblk t (of_nat (n + 1)) = sb_inode_table_start (fs_sb s) + of_nat (n div 32)"
    using iblk_cong [OF fs_upd_core [OF t(2)]] ipb_v2 [OF assms(2)] by (simp only: iblk_def)
  moreover have "unat (inode_table_block_count s) \<le> n div 32" using assms(2,6) by (simp add: ipb_v2 less_eq_div_iff_mult_less_eq mult.commute)
  ultimately show ?thesis using t(1) by (auto simp: add.commute)
qed

lemma write_inode_full:
  assumes "fs_ok s" and "fs_version s \<noteq> ONYFS_V1" and "\<not> room s 1" and "inode_wf i"
  shows "\<exists>t. write_inode ino i s = (Inl ENoSpace, t) \<and> fs_upd s [] 0 t"
proof -
  let ?b = "iblk s ino" let ?buf = "blit (blk s ?b) (islot ino * 128) (inode_to_bytes i)"
  let ?h = "(got_blk ?b s)\<lparr>fs_buf := ?buf\<rparr>"
  have len: "length ?buf = 4096"
    using assms(1,4) islot_less [of ino] by (subst length_blit) (simp_all add: blk_length)
  have "fs_upd s [] 0 ?h"
    using fs_upd_trans [OF fs_upd_got [OF assms(1)] fs_upd_buf [OF _ len]] fs_upd_ok [OF fs_upd_got [OF assms(1)]] by fastforce
  moreover have "\<not> room ?h 1" using assms(3) by (simp add: room_def no_journal_def jsize_def)
  then have "write_inode ino i s = (Inl ENoSpace, ?h)"
    using assms(1,2,4) logged_write_full by (simp add: write_inode_def Let_def ipb_v2 read_gbuf_ok iblk_def islot_def)
  ultimately show ?thesis by blast
qed

text \<open>C17: \<open>truncate\<close> of a file on a version 2 volume. With a free journal slot it empties the file: its inode has size 0 and no
  blocks (only mode, owner, link count, flags and the other times remain), every other inode is unchanged, and so is every block outside
  the journal and the inode table; in particular the data bitmap still marks the old blocks as
  used, so they are never given back. With a full journal it fails with \<open>NoSpace\<close> and no block outside the journal changes.\<close>

theorem truncate_correct:
  assumes "fs_v2 s" and "valid_ino s ino"
  shows "if \<not> room s 1 then refused (truncate ino) ENoSpace s
    else \<exists>t. truncate ino s = (Inr (), t) \<and> fs_v2 t \<and>
      inode_at t ino = (inode_at s ino)\<lparr>ino_size := 0, ino_blocks := replicate 10 0, ino_indirect := 0,
        ino_double_indirect := 0, ino_ctime := 0\<rparr> \<and>
      (\<forall>k. valid_ino s k \<and> k \<noteq> ino \<longrightarrow> inode_at t k = inode_at s k) \<and>
      (\<forall>b. \<not> jarea s b \<and> b \<noteq> iblk s ino \<longrightarrow> blk t b = blk s b)"
proof -
  let ?g = "got_blk (iblk s ino) s"
  let ?i = "(inode_at s ino)\<lparr>ino_size := 0, ino_blocks := replicate ONYFS_DIRECT_BLKS 0, ino_indirect := 0,
      ino_double_indirect := 0\<rparr>"
  have ok: "fs_ok s" "fs_version s \<noteq> ONYFS_V1" using assms(1) by (simp_all add: fs_v2_def)
  have g: "fs_upd s [] 0 ?g" using fs_upd_got [OF ok(1)] .
  note f = read_frame [OF assms(1) g]
  have c: "iblk ?g = iblk s" "jarea ?g = jarea s"
    using iblk_cong [OF fs_upd_core [OF g]] jarea_cong [OF fs_upd_core [OF g]] by simp_all
  have wf: "inode_wf ?i" by (simp add: inode_wf_def)
  have rg: "room ?g 1 \<longleftrightarrow> room s 1" by (simp add: room_def no_journal_def jsize_def)
  show ?thesis
  proof (cases "room s 1")
    case False
    then obtain u where u: "write_inode ino ?i ?g = (Inl ENoSpace, u)" "fs_upd ?g [] 0 u"
      using write_inode_full [of ?g ?i ino] f(1) rg wf by (auto simp: fs_v2_def)
    have "truncate ino s = (Inl ENoSpace, u)" using ok u(1) by (simp add: truncate_def read_inode_ok)
    then show ?thesis using False refusedI fs_upd_trans [OF g u(2)] by auto
  next
    case True
    obtain a w where a: "write_inode ino ?i ?g = (Inr (), a)" "fs_upd ?g [(iblk s ino, w)] 1 a"
      "inode_at a ino = ?i\<lparr>ino_ctime := 0\<rparr>" "\<forall>k. valid_ino s k \<and> k \<noteq> ino \<longrightarrow> inode_at a k = inode_at s k"
      using write_new_inode [OF f(1) f(2) [OF True] _ wf, of ino] f(4,5) assms(2) c by auto
    note va = fs_v2_upd [OF f(1) a(2)] and ca = fs_upd_core [OF a(2)]
    obtain t where t: "journal_commit a = (Inr (), t)" "same_fs a t"
      using journal_commit_same va by (auto simp: fs_v2_def)
    have vi: "valid_ino a = valid_ino s" "jarea a = jarea s" using valid_ino_cong [OF ca] jarea_cong [OF ca] f(4) c by simp_all
    have "blk t b = blk s b" if "\<not> jarea s b" "b \<noteq> iblk s ino" for b
      using same_fs_cong(6) [OF t(2)] fs_upd_blk [OF a(2), of b] that vi c by (simp add: after_writes_def)
    moreover have "inode_at t k = inode_at a k" if "valid_ino s k" for k
      using same_fs_inode [OF va t(2)] that vi by simp
    moreover have "truncate ino s = (Inr (), t)"
      using ok a(1) t(1) by (simp add: truncate_def read_inode_ok)
    ultimately have "truncate ino s = (Inr (), t) \<and> fs_v2 t \<and>
      inode_at t ino = (inode_at s ino)\<lparr>ino_size := 0, ino_blocks := replicate 10 0, ino_indirect := 0,
        ino_double_indirect := 0, ino_ctime := 0\<rparr> \<and>
      (\<forall>k. valid_ino s k \<and> k \<noteq> ino \<longrightarrow> inode_at t k = inode_at s k) \<and>
      (\<forall>b. \<not> jarea s b \<and> b \<noteq> iblk s ino \<longrightarrow> blk t b = blk s b)"
      using same_fs_v2 [OF va t(2)] a(3,4) assms(2) by (simp add: ONYFS_DIRECT_BLKS_def)
    then show ?thesis using True by auto
  qed
qed

section \<open>Mounting\<close>

lemma set_same_dev: "fs_dev x = d \<Longrightarrow> fs_lba_base x = l \<Longrightarrow> x\<lparr>fs_dev := d, fs_lba_base := l\<rparr> = x"
  by auto

lemma slc_take: "b \<le> n \<Longrightarrow> slc (take n xs) a b = slc xs a b"
  by (simp add: slc_def drop_take min_def)

lemma super_from_prefix: "128 \<le> length buf \<Longrightarrow> super_from_bytes buf = super_from_bytes (take 128 buf)"
  by (simp add: super_from_bytes_def slc_take Let_def)

text \<open>C21: Unmounting and mounting again, on a fault-free device, for a superblock with the version 2 magic and block size 4096, and
  a journal that is absent, or does not contain block 0 and is sane. After \<open>persist_superblock\<close> a \<open>mount\<close> of the same device and
  offset succeeds and finds the superblock that was written (with the reserved words cleared) and version 2, and recovery has
  run: without a journal, or with no commit marker in it, no other block of the volume changes; with the first marker in slot \<open>c\<close>,
  as after every committed transaction, every other block outside the journal holds the result of replaying the \<open>c\<close> slots in front of it
  and these slots and the marker are cleared.\<close>

theorem mount_persist:
  assumes "fs_ok s" and "sb_magic (fs_sb s) = ONYFS_MAGIC" and "sb_block_size (fs_sb s) = 4096"
    and "no_journal s \<or> journal_sane s \<and> \<not> in_journal s 0"
  shows "\<exists>t u. persist_superblock s = (Inr (), t) \<and> mount (fs_dev s) (fs_lba_base s) t = (Inr (), u) \<and>
    fs_ok u \<and> fs_sb u = (fs_sb s)\<lparr>sb_reserved := replicate 10 0\<rparr> \<and> fs_version u = ONYFS_V2 \<and>
    (case if no_journal s then None else commit_index (jslots s) of
       None \<Rightarrow> \<forall>b. b \<noteq> 0 \<longrightarrow> blk u b = blk s b
     | Some c \<Rightarrow>
         (\<forall>b. b \<noteq> 0 \<and> \<not> in_journal s b \<longrightarrow> blk u b = redo (take c (jslots s)) b (blk s b)) \<and>
         (\<forall>i<jsize s. blk u (jslot s i) = (if i \<le> c then zero_block else blk s (jslot s i))))"
proof -
  let ?buf = "blit zero_block 0 (super_to_bytes (fs_sb s))"
  let ?sb = "(fs_sb s)\<lparr>sb_reserved := replicate 10 0\<rparr>"
  let ?t = "put_blk 0 ?buf (s\<lparr>fs_buf := ?buf\<rparr>)"
  let ?m = "(got_blk 0 ?t)\<lparr>fs_version := ONYFS_V2, fs_sb := ?sb\<rparr>"
  have len: "length ?buf = 4096" by simp
  have p: "persist_superblock s = (Inr (), ?t)"
    using assms(1) by (simp add: persist_superblock_def write_block_ok Let_def)
  have "take 128 ?buf = super_to_bytes (fs_sb s)" by (simp add: blit_def)
  then have "super_from_bytes ?buf = Some ?sb"
    using super_from_prefix [of ?buf] super_decode_encode [of "fs_sb s"] assms(2) by simp
  moreover have "blk ?t 0 = ?buf" using assms(1) by (simp add: blk_put)
  ultimately have m: "mount (fs_dev s) (fs_lba_base s) ?t = journal_recover ?m"
    using assms(1-3) len by (simp add: mount_def set_same_dev read_gbuf_ok ONYFS_BLOCK_SIZE_def)
  have bm: "blk ?m b = blk s b" if "b \<noteq> 0" for b using assms(1) that len by (simp add: blk_put)
  have ok: "fs_ok ?m" using assms(1) len by simp
  have nj: "no_journal ?m = no_journal s" by (simp add: no_journal_def)
  show ?thesis
  proof (cases "no_journal s")
    case True
    then have "journal_recover ?m = (Inr (), ?m)" using nj by (simp add: journal_recover_def)
    then show ?thesis using True p m ok bm by (intro exI [of _ ?t] exI [of _ ?m]) simp
  next
    case False
    have nz: "jslot s i \<noteq> 0" if "i < jsize s" for i using assms(4) False that by (auto simp: in_journal_def)
    have cg: "jslot ?m = jslot s" "jsize ?m = jsize s" by (simp_all add: jslot_def jsize_def fun_eq_iff)
    then have sl: "jslots ?m = jslots s" using bm nz by (simp add: jslots_def)
    have ij: "in_journal ?m = in_journal s" using cg by (simp add: in_journal_def fun_eq_iff)
    have "journal_sane ?m" using assms(4) False sl ij by (simp add: journal_sane_def outside_def split: option.splits)
    then obtain u where u: "journal_recover ?m = (Inr (), u)" "fs_ok u" "meta u = meta ?m"
      "case commit_index (jslots s) of
         None \<Rightarrow> \<forall>b. blk u b = blk ?m b
       | Some c \<Rightarrow>
           (\<forall>b. \<not> in_journal s b \<longrightarrow> blk u b = redo (take c (jslots s)) b (blk ?m b)) \<and>
           (\<forall>i<jsize s. blk u (jslot s i) = (if i \<le> c then zero_block else blk ?m (jslot s i)))"
      using recover_spec [OF ok] nj False unfolding sl cg ij by blast
    have "case commit_index (jslots s) of
         None \<Rightarrow> \<forall>b. b \<noteq> 0 \<longrightarrow> blk u b = blk s b
       | Some c \<Rightarrow>
           (\<forall>b. b \<noteq> 0 \<and> \<not> in_journal s b \<longrightarrow> blk u b = redo (take c (jslots s)) b (blk s b)) \<and>
           (\<forall>i<jsize s. blk u (jslot s i) = (if i \<le> c then zero_block else blk s (jslot s i)))"
      using u(4) bm nz by (cases "commit_index (jslots s)") simp_all
    moreover have "fs_sb u = ?sb" "fs_version u = ONYFS_V2" using u(3) by (simp_all add: meta_def)
    ultimately show ?thesis using False p m u(1,2) by (intro exI [of _ ?t] exI [of _ u]) simp
  qed
qed


section \<open>A demonstration volume\<close>

text \<open>The volume \<open>dir_fs\<close> with the root inode marked as used.\<close>

definition names_fs :: fs_state where
  "names_fs = put_blk 1 (bm_put 0 zero_block) dir_fs"

lemma dir_fs_fs_ok: "fs_ok dir_fs" "no_journal dir_fs"
  using dir_fs_ok(1) dir_fs_upd by (simp_all add: fs_v2_def dir_fs_def no_journal_def plain_fs_def zero_super_def)

lemma names_fs_upd: "fs_upd dir_fs [(1, bm_put 0 zero_block)] 1 names_fs"
  using dir_fs_fs_ok by (simp add: fs_upd_def names_fs_def core_def after_writes_def blk_put)

lemma names_fs_core: "core names_fs = core plain_fs"
  using fs_upd_core [OF names_fs_upd] fs_upd_core [OF dir_fs_upd] by simp

lemma names_fs_cong: "jarea names_fs = jarea dir_fs" "valid_ino names_fs = valid_ino dir_fs"
  "iblk names_fs = iblk dir_fs" "fs_sb names_fs = fs_sb plain_fs"
  using fs_upd_core [OF names_fs_upd] jarea_cong [of names_fs dir_fs] valid_ino_cong [of names_fs dir_fs]
    iblk_cong [of names_fs dir_fs] core_sb [OF names_fs_core] by simp_all

lemma names_fs_ok [simp]: "fs_v2 names_fs" "room names_fs n" "\<not> jarea names_fs b"
  "valid_ino names_fs k \<longleftrightarrow> k \<noteq> 0 \<and> k \<le> 64"
proof -
  show "fs_v2 names_fs" using fs_v2_upd [OF dir_fs_ok(1) names_fs_upd] .
  show "room names_fs n"
    using fs_upd_core [OF names_fs_upd] jarea_cong [of names_fs dir_fs] dir_fs_fs_ok(2) by (simp add: room_def)
  show "\<not> jarea names_fs b" "valid_ino names_fs k \<longleftrightarrow> k \<noteq> 0 \<and> k \<le> 64" by (simp_all add: names_fs_cong)
qed

lemma names_fs_blk: "blk names_fs b = (if b = 1 then bm_put 0 zero_block else blk dir_fs b)"
  using fs_upd_blk [OF names_fs_upd, of b] by (simp add: after_writes_def)

lemma names_fs_inode: "k \<noteq> 0 \<Longrightarrow> k \<le> 64 \<Longrightarrow> inode_at names_fs k = inode_at dir_fs k"
  using inode_at_frame [OF dir_fs_ok(1) names_fs_upd, of k] dir_fs_iblk [of k] by auto

lemma names_fs_dir: "dir_ok names_fs 1" "dir_map names_fs 1 = Map.empty" "dir_blk names_fs 1 = 30"
  "\<not> dir_full (blk names_fs 30)"
proof -
  note d = dir_frame [OF dir_fs_ok(1) names_fs_upd dir_fs_dir(3)]
  show "dir_ok names_fs 1" "dir_map names_fs 1 = Map.empty" "dir_blk names_fs 1 = 30"
    using d dir_fs_dir names_fs_inode [of 1] by auto
  show "\<not> dir_full (blk names_fs 30)"
    by (simp add: names_fs_blk dir_fs_dir(2) dir_full_def live_zero exI [of _ 0])
qed

text \<open>With a file named \<open>a\<close>.\<close>

lemma names_fs_file:
  "\<exists>u. fs_v2 u \<and> dir_ok u 1 \<and> dir_map u 1 = [[0x61] \<mapsto> 5] \<and> core u = core plain_fs"
proof -
  obtain u buf where "fs_upd names_fs [(dir_blk names_fs 1, buf)] 1 u" "fs_v2 u" "dir_map u 1 = (dir_map names_fs 1)([0x61] \<mapsto> 5)"
    "\<forall>e. dir_ok names_fs e \<longrightarrow> dir_ok u e"
    using dir_add_upd [OF names_fs_ok(1) names_fs_dir(1) names_fs_ok(2), of "[0x61]" 5 8] names_fs_dir
    by (auto simp: valid_name_def)
  then show ?thesis using names_fs_dir fs_upd_core names_fs_core by (intro exI [of _ u]) simp
qed

lemma plain_table: "fs_sb u = fs_sb plain_fs \<Longrightarrow> fs_version u = fs_version plain_fs \<Longrightarrow>
   inodes_per_block u * unat (inode_table_block_count u) = 64 \<and> (unat (k :: u32) \<le> 64 \<longleftrightarrow> k \<le> 64)"
  by (simp add: inode_table_block_count_def inodes_per_block_def ONYFS_BLOCK_SIZE_def word_le_nat_alt)

lemma plain_core: "core u = core plain_fs \<Longrightarrow> room u n \<and> (valid_ino u k \<longleftrightarrow> k \<noteq> 0 \<and> k \<le> 64)"
  using jarea_cong [of u plain_fs] core_sb [of u plain_fs] by (simp add: room_def valid_ino_def plain_table)

lemma full_two_names:
  assumes "dir_wf buf" and "dir_full buf"
  shows "\<exists>m n. m \<noteq> n \<and> dir_get buf m \<noteq> None \<and> dir_get buf n \<noteq> None"
proof -
  have l: "live buf 0" "live buf 1" using assms(2) by (simp_all add: dir_full_def)
  then have "name_str (slot_ent buf 0) \<noteq> name_str (slot_ent buf 1)" using dir_wf_uniq [OF assms(1) l] by auto
  moreover have "dir_get buf (name_str (slot_ent buf k)) \<noteq> None" if "live buf k" for k
    using dir_get_live [OF assms(1) that refl] by simp
  ultimately show ?thesis using l by blast
qed

lemma root_paths [simp]:
  "split_path [SLASH, c] = (if c = SLASH then ([], []) else ([], [c]))" "path_comps [] = []"
  by (simp_all add: split_path_def)


theorem rename_correct_witness:
  "\<exists>s t. dir_map s 1 = [[0x61] \<mapsto> 5] \<and> rename [SLASH, 0x61] [SLASH, 0x62] s = (Inr (), t) \<and>
     dir_map t 1 [0x61] = None \<and> dir_map t 1 [0x62] = Some 5"
proof -
  obtain u where u: "fs_v2 u" "dir_ok u 1" "dir_map u 1 = [[0x61] \<mapsto> 5]" "core u = core plain_fs"
    using names_fs_file by blast
  have "\<not> dir_full (blk u (dir_blk u 1))"
  proof
    assume "dir_full (blk u (dir_blk u 1))"
    with full_two_names [of "blk u (dir_blk u 1)"] u(2) obtain m n where
      "m \<noteq> n" "dir_map u 1 m \<noteq> None" "dir_map u 1 n \<noteq> None" by (auto simp: dir_ok_def dir_map_def)
    then show False using u(3) by (auto split: if_splits)
  qed
  then show ?thesis
    using rename_correct [OF u(1), of "[SLASH, 0x61]" "[SLASH, 0x62]" "[]" "[0x61]" "[]" "[0x62]" 1 1 5]
      u(2,3) plain_core [OF u(4)]
    by (auto simp: ONYFS_ROOT_INO_def valid_name_def)
qed

theorem create_correct_witness:
  "\<exists>t. create 1 [0x61] ONYFS_DT_REG names_fs = (Inr 2, t) \<and> dir_map t 1 = [[0x61] \<mapsto> 2] \<and>
     ino_mode (inode_at t 2) = ONYFS_DT_REG"
proof -
  have b: "blk names_fs INODE_BITMAP_BLK = bm_put 0 zero_block" by (simp add: names_fs_blk INODE_BITMAP_BLK_def)
  have z: "\<not> bm_bit zero_block m" if "m < 32768" for m
    using that by (simp add: bm_bit_def zero_block_def ONYFS_BLOCK_SIZE_def)
  have fc: "first_clear (blk names_fs INODE_BITMAP_BLK) = Some 1" and u: "used_ino names_fs 1"
    using bm_bit_put [of 0 zero_block] z [of 1] by (auto simp: b first_clear_Some used_ino_def)
  have "iblk dir_fs k \<noteq> 1" if "k \<noteq> 0" "k \<le> 64" for k using dir_fs_iblk [OF that] by auto
  then have "ibm_ok names_fs" by (simp add: ibm_ok_def names_fs_cong INODE_BITMAP_BLK_def)
  moreover have "inodes_per_block names_fs * unat (inode_table_block_count names_fs) = 64"
    using plain_table [of names_fs] core_sb [OF names_fs_core] by simp
  ultimately show ?thesis
    using create_correct [OF names_fs_ok(1) _ names_fs_dir(1) u _ names_fs_ok(2) _ fc, of "[0x61]" ONYFS_DT_REG]
    by (auto simp: names_fs_dir names_fs_cong valid_name_def INODE_BITMAP_BLK_def fresh_inode_def)
qed

theorem truncate_correct_witness:
  "\<exists>t. truncate 1 names_fs = (Inr (), t) \<and> ino_size (inode_at names_fs 1) = 9 \<and> ino_size (inode_at t 1) = 0"
proof -
  have "ino_size (inode_at names_fs 1) = 9" by (simp add: names_fs_inode dir_fs_root demo_dir_def demo_inode_def)
  then show ?thesis using truncate_correct [OF names_fs_ok(1), of 1] by auto
qed

text \<open>The crashed volume of \<open>Journal\<close> with a proper superblock.\<close>

definition boot_fs :: fs_state where
  "boot_fs = crash_fs\<lparr>fs_sb := (fs_sb crash_fs)\<lparr>sb_magic := ONYFS_MAGIC, sb_block_size := 4096, sb_inode_count := 7\<rparr>\<rparr>"

theorem mount_persist_witness:
  "\<exists>t u. persist_superblock boot_fs = (Inr (), t) \<and> mount (fs_dev boot_fs) (fs_lba_base boot_fs) t = (Inr (), u) \<and>
     sb_inode_count (fs_sb u) = 7 \<and> fs_version u = ONYFS_V2 \<and>
     blk boot_fs 5 = replicate 4096 0 \<and> blk u 5 = replicate 4088 7 @ replicate 8 0"
proof -
  have sb: "sb_magic (fs_sb boot_fs) = ONYFS_MAGIC" "sb_block_size (fs_sb boot_fs) = 4096" "sb_inode_count (fs_sb boot_fs) = 7"
    by (simp_all add: boot_fs_def)
  have ok: "fs_ok boot_fs" "\<not> no_journal boot_fs" using crash_fs_ok by (simp_all add: boot_fs_def no_journal_def)
  have b: "blk boot_fs = blk crash_fs" by (simp add: boot_fs_def fun_eq_iff)
  have js: "jslot boot_fs = jslot crash_fs" "jsize boot_fs = jsize crash_fs" by (simp_all add: boot_fs_def jslot_def jsize_def fun_eq_iff)
  then have ij: "in_journal boot_fs = in_journal demo_fs"
    using jslot_cong [of crash_fs demo_fs] by (simp add: in_journal_def fun_eq_iff)
  have sl: "jslots boot_fs = [write_entry 5 (replicate 4096 7)] @ commit_entry # replicate 6 zero_block"
    using crash_jslots b js by (simp add: jslots_def)
  have ci: "commit_index (jslots boot_fs) = Some 1" unfolding sl by (subst commit_index_tx) auto
  have "journal_sane boot_fs" by (simp add: journal_sane_def ci) (simp add: sl outside_def ij demo_in_journal journal_consts)
  moreover have "\<not> in_journal boot_fs 0" by (simp add: ij demo_in_journal)
  ultimately obtain t u where "persist_superblock boot_fs = (Inr (), t)" "mount (fs_dev boot_fs) (fs_lba_base boot_fs) t = (Inr (), u)"
    "fs_sb u = (fs_sb boot_fs)\<lparr>sb_reserved := replicate 10 0\<rparr>" "fs_version u = ONYFS_V2"
    "\<forall>b. b \<noteq> 0 \<and> \<not> in_journal boot_fs b \<longrightarrow> blk u b = redo (take 1 (jslots boot_fs)) b (blk boot_fs b)"
    using mount_persist [OF ok(1) sb(1,2)] ok(2) ci by auto
  moreover have z: "blk boot_fs 5 = replicate 4096 0" by (simp add: b crash_blk zero_block_def ONYFS_BLOCK_SIZE_def)
  moreover from calculation have "blk u 5 = replicate 4088 7 @ replicate 8 0"
    by (simp add: ij demo_in_journal sl redo_def redo1_def journal_consts)
  ultimately show ?thesis using sb(3) by auto
qed

theorem read_file_correct_witness:
  "\<exists>t. read_file 1 0 4 names_fs = (Inr [0, 0, 0, 0], t)"
proof -
  have "ino_blocks (inode_at names_fs 1) = 30 # replicate 9 0" "fsize (inode_at names_fs 1) = 9"
    by (simp_all add: names_fs_inode dir_fs_root demo_dir_def demo_inode_def fsize_def)
  moreover have "take 4 zero_block = [0, 0, 0, 0]"
  proof -
    have "take 4 zero_block = replicate 4 0" by (simp add: zero_block_def ONYFS_BLOCK_SIZE_def)
    then show ?thesis by (simp add: numeral_eq_Suc)
  qed
  ultimately show ?thesis
    using read_file_correct [OF names_fs_ok(1), of 0 1 4] dir_fs_dir(2) by (auto simp: names_fs_blk)
qed

lemma zero_inode: "inode_at names_fs 5 = the (inode_from_bytes (replicate 128 0))"
proof -
  have "inode_at dir_fs 5 = inode_at plain_fs 5"
    using inode_at_upd(2) [OF plain_fs_ok(1,2,5) demo_dir_wf, of 1 1 dir_fs 5] dir_fs_upd
    by (simp add: iblk_def islot_def inode_idx_def)
  moreover have "inode_at plain_fs 5 = the (inode_from_bytes (replicate 128 0))"
    by (simp add: inode_at_def zero_block_def slc_replicate islot_def inode_idx_def ONYFS_BLOCK_SIZE_def)
  ultimately show ?thesis by (simp add: names_fs_inode)
qed

theorem write_file_correct_witness:
  "(\<exists>t. write_file 5 [7, 8, 9] 10 names_fs = (Inr 3, t) \<and> fbyte t (inode_at t 5) 11 = 8 \<and>
      unat (ino_size (inode_at t 5)) = 13) \<or>
   (\<exists>t. write_file 5 [7, 8, 9] 10 names_fs = (Inl ENoSpace, t) \<and> (\<forall>n<32768. bm_bit (blk t 20) n))"
proof -
  have sb: "bmb names_fs = 20" "dblk names_fs n = 30 + of_nat n" "bmb plain_fs = 20" for n
    by (simp_all add: names_fs_cong dblk_def plain_fs_def)
  have d: "30 + of_nat n \<notin> {0, 2, 3, 20 :: u32}" if "n < 32768" for n
  proof -
    have "unat (30 + of_nat n :: u32) = 30 + n" using that by (simp add: unat_word_ariths unat_of_nat)
    have "unat x \<le> 20" if "x \<in> {0, 2, 3, 20 :: u32}" for x using that by auto
    note small = this
    show ?thesis
    proof
      assume "30 + of_nat n \<in> {0, 2, 3, 20 :: u32}"
      from small [OF this] show False using \<open>unat (30 + of_nat n :: u32) = 30 + n\<close> by simp
    qed
  qed
  have "iblk dir_fs k \<noteq> 20" if "k \<noteq> 0" "k \<le> 64" for k using dir_fs_iblk [OF that] by auto
  moreover have "iblk dir_fs k \<noteq> 30 + of_nat n" if "n < 32768" "k \<noteq> 0" "k \<le> 64" for n k
    using dir_fs_iblk [OF that(2,3)] d [OF that(1)] by auto
  ultimately have v: "vol_ok names_fs" using d by (simp add: vol_ok_def sb names_fs_cong)
  have "ino_blocks (inode_at names_fs 5) = replicate 10 0" "ino_size (inode_at names_fs 5) = 0"
    unfolding zero_inode by code_simp+
  then have "file_ok names_fs (inode_at names_fs 5)" by (simp add: file_ok_def)
  from write_file_correct [OF v _ this names_fs_ok(2), of "3" "[7, 8, 9]" 10] show ?thesis
    using sb(1) \<open>ino_size (inode_at names_fs 5) = 0\<close> by auto
qed

end
