(* ===== verification/Pmm.thy ===== *)
theory Pmm
  imports Core_Types
begin

text \<open>
  The physical page allocator (\<open>src/kernel/src/mm/pmm/mod.rs\<close> and \<open>bitmap.rs\<close>). The state
  is the global \<open>G_PMM\<close> together with the memory it manages: \<open>pm_bitmap\<close> holds the bytes
  behind the raw pointer \<open>bitmap\<close>, which lie below the managed data pages (the field
  \<open>bitmap_bytes\<close> is never read and left out), and
  \<open>pm_mem\<close> is physical memory as 8-byte cells addressed by their (8-aligned) byte
  addresses, the only way the kernel reads and writes the pages handed out here
  (page table entries and the slab header, whose fields are packed into such cells).
  The allocator is refined to the set of pages in use; the locale \<open>page_allocator\<close>
  states that contract for its clients.
\<close>

section \<open>State and operations\<close>

record pmm =
  pm_base :: u64
  pm_total :: u64
  pm_free :: u64
  pm_bitmap_at :: u64
  pm_bitmap :: bytes
  pm_slab_heads :: "u64 list"
  pm_mem :: "u64 \<Rightarrow> u64"

definition KERNEL_HEAP_RESERVE :: u64 where
  "KERNEL_HEAP_RESERVE = 4 * 1024 * 1024"

definition zero_cells :: "u64 \<Rightarrow> nat \<Rightarrow> (u64 \<Rightarrow> u64) \<Rightarrow> u64 \<Rightarrow> u64" where
  "zero_cells pa n m = (\<lambda>a. if unat (a - pa) < n then 0 else m a)"

definition bm_get :: "nat \<Rightarrow> pmm \<Rightarrow> bool" where
  "bm_get i s = (pm_bitmap s ! (i div 8) AND push_bit (i mod 8) 1 \<noteq> 0)"

definition bm_set :: "nat \<Rightarrow> pmm \<Rightarrow> pmm" where
  "bm_set i s = s\<lparr>pm_bitmap := (pm_bitmap s)[i div 8 := pm_bitmap s ! (i div 8) OR push_bit (i mod 8) 1],
     pm_free := pm_free s - 1\<rparr>"

definition bm_clr :: "nat \<Rightarrow> pmm \<Rightarrow> pmm" where
  "bm_clr i s = s\<lparr>pm_bitmap := (pm_bitmap s)[i div 8 := pm_bitmap s ! (i div 8) AND NOT (push_bit (i mod 8) 1)],
     pm_free := pm_free s + 1\<rparr>"

definition pa_to_idx :: "pmm \<Rightarrow> u64 \<Rightarrow> u64" where
  "pa_to_idx s pa = (pa - pm_base s) div PAGE_SIZE"

definition idx_to_pa :: "pmm \<Rightarrow> u64 \<Rightarrow> u64" where
  "idx_to_pa s idx = pm_base s + idx * PAGE_SIZE"

definition pmm_alloc :: "pmm \<Rightarrow> (errno + u64) \<times> pmm" where
  "pmm_alloc s =
     (case find (\<lambda>i. \<not> bm_get i s) [0..<unat (pm_total s)] of
        None \<Rightarrow> (Inl ENoMem, s)
      | Some i \<Rightarrow>
          let s = bm_set i s; pa = idx_to_pa s (of_nat i) in
          (Inr pa, s\<lparr>pm_mem := zero_cells pa 4096 (pm_mem s)\<rparr>))"

fun alloc_n_scan :: "(nat \<Rightarrow> bool) \<Rightarrow> nat \<Rightarrow> nat \<Rightarrow> nat \<Rightarrow> nat list \<Rightarrow> nat option" where
  "alloc_n_scan taken n run start [] = None"
| "alloc_n_scan taken n run start (i # is) =
     (if \<not> taken i then
        let start = (if run = 0 then i else start); run = run + 1 in
        if run = n then Some start else alloc_n_scan taken n run start is
      else alloc_n_scan taken n 0 start is)"

definition alloc_n :: "nat \<Rightarrow> pmm \<Rightarrow> (errno + u64) \<times> pmm" where
  "alloc_n n s =
     (if n = 0 then (Inl EInval, s)
      else case alloc_n_scan (\<lambda>i. bm_get i s) n 0 0 [0..<unat (pm_total s)] of
        None \<Rightarrow> (Inl ENoMem, s)
      | Some start \<Rightarrow>
          let s = fold bm_set [start..<start + n] s in (Inr (idx_to_pa s (of_nat start)), s))"

definition pmm_free :: "u64 \<Rightarrow> pmm \<Rightarrow> pmm" where
  "pmm_free pa s =
     (let idx = pa_to_idx s pa in
      if idx < pm_total s then if bm_get (unat idx) s then bm_clr (unat idx) s else s else s)"

definition alloc_zero :: "pmm \<Rightarrow> (errno + u64) \<times> pmm" where
  "alloc_zero s = pmm_alloc s"

text \<open>\<open>init\<close> takes the address of the linker symbol \<open>__kernel_end\<close> as a parameter; its log
  line is not part of the state.\<close>

definition pmm_init :: "u64 \<Rightarrow> u64 \<Rightarrow> u64 \<Rightarrow> pmm \<Rightarrow> pmm" where
  "pmm_init kernel_end dram_base dram_size s =
     (let heap_end_pa = kernel_end + KERNEL_HEAP_RESERVE;
          managed_base = max heap_end_pa dram_base;
          managed_base = (managed_base + PAGE_SIZE - 1) AND NOT (PAGE_SIZE - 1);
          managed_end = dram_base + dram_size;
          managed_size = (if managed_base \<le> managed_end then managed_end - managed_base else 0);
          pages = managed_size div PAGE_SIZE;
          bitmap_bytes = (pages + 7) div 8;
          bitmap_pages = (bitmap_bytes + 4095) div PAGE_SIZE;
          data_base = managed_base + bitmap_pages * PAGE_SIZE;
          data_pages = (if bitmap_pages \<le> pages then pages - bitmap_pages else 0);
          s = s\<lparr>pm_base := data_base, pm_total := data_pages, pm_free := data_pages,
                pm_bitmap_at := managed_base, pm_bitmap := replicate (unat bitmap_bytes) 0,
                pm_slab_heads := [0, 0, 0]\<rparr>
      in fold bm_set [0..<unat bitmap_pages] s)"

section \<open>Invariant\<close>

definition pmm_ok :: "pmm \<Rightarrow> bool" where
  "pmm_ok s \<longleftrightarrow>
     unat (pm_total s) \<le> 8 * length (pm_bitmap s) \<and>
     unat (pm_free s) = free_count (pm_bitmap s) (unat (pm_total s)) \<and>
     4096 dvd unat (pm_base s) \<and>
     unat (pm_base s) + 4096 * unat (pm_total s) \<le> 2 ^ 64"

definition page_at :: "pmm \<Rightarrow> nat \<Rightarrow> u64" where
  "page_at s i = idx_to_pa s (of_nat i)"

definition used_pages :: "pmm \<Rightarrow> u64 set" where
  "used_pages s = {page_at s i | i. i < unat (pm_total s) \<and> bm_bit (pm_bitmap s) i}"

definition pages_of :: "pmm \<Rightarrow> u64 set" where
  "pages_of s = page_at s ` {..<unat (pm_total s)}"

named_theorems pmm_frame "what the bitmap operations leave alone"

lemma unat_of_nat_u64: "n < 2 ^ 64 \<Longrightarrow> unat (of_nat n :: u64) = n"
  by (simp add: unat_of_nat)

lemma bm_get_iff: "bm_get i s = bm_bit (pm_bitmap s) i"
  by (simp add: bm_get_def bm_bit_def and_exp_eq_0_iff_not_bit)

lemma bm_set_simps [simp, pmm_frame]:
  "pm_base (bm_set i s) = pm_base s" "pm_total (bm_set i s) = pm_total s" "pm_mem (bm_set i s) = pm_mem s"
  "pm_slab_heads (bm_set i s) = pm_slab_heads s" "pm_bitmap_at (bm_set i s) = pm_bitmap_at s"
  "pm_bitmap (bm_set i s) = bm_put i (pm_bitmap s)" "pm_free (bm_set i s) = pm_free s - 1"
  by (simp_all add: bm_set_def bm_put_def)

lemma bm_clr_simps [simp, pmm_frame]:
  "pm_base (bm_clr i s) = pm_base s" "pm_total (bm_clr i s) = pm_total s" "pm_mem (bm_clr i s) = pm_mem s"
  "pm_slab_heads (bm_clr i s) = pm_slab_heads s" "pm_bitmap_at (bm_clr i s) = pm_bitmap_at s"
  "pm_bitmap (bm_clr i s) = bm_clear i (pm_bitmap s)" "pm_free (bm_clr i s) = pm_free s + 1"
  by (simp_all add: bm_clr_def bm_clear_def)

lemma unat_page_at:
  assumes "pmm_ok s" and "i < unat (pm_total s)"
  shows "unat (page_at s i) = unat (pm_base s) + 4096 * i"
proof -
  have t: "i < 2 ^ 64" using assms(2) unsigned_less [where 'a = nat, of "pm_total s"] by simp
  have "unat (pm_base s) + 4096 * i < 2 ^ 64" using assms by (simp add: pmm_ok_def)
  then show ?thesis using t
    by (simp add: page_at_def idx_to_pa_def PAGE_SIZE_def unat_word_ariths unat_of_nat mult.commute)
qed

lemma page_at_inj:
  assumes "pmm_ok s" and "i < unat (pm_total s)" and "j < unat (pm_total s)"
  shows "page_at s i = page_at s j \<longleftrightarrow> i = j"
proof
  assume "page_at s i = page_at s j"
  then have "unat (page_at s i) = unat (page_at s j)" by (rule arg_cong)
  then have "unat (pm_base s) + 4096 * i = unat (pm_base s) + 4096 * j"
    unfolding unat_page_at [OF assms(1,2)] unat_page_at [OF assms(1,3)] .
  then show "i = j" by simp
qed (rule arg_cong)

lemma page_at_cong: "pm_base s = pm_base t \<Longrightarrow> page_at s i = page_at t i"
  by (simp add: page_at_def idx_to_pa_def)

lemma pa_to_idx_page_at:
  assumes "pmm_ok s" and "i < unat (pm_total s)"
  shows "unat (pa_to_idx s (page_at s i)) = i"
proof -
  have t: "i < 2 ^ 64" using assms(2) unsigned_less [where 'a = nat, of "pm_total s"] by simp
  have "4096 * i < 2 ^ 64" using assms by (simp add: pmm_ok_def)
  moreover have "page_at s i - pm_base s = of_nat i * 4096"
    by (simp add: page_at_def idx_to_pa_def PAGE_SIZE_def)
  ultimately show ?thesis using t
    by (simp add: pa_to_idx_def PAGE_SIZE_def unat_div_distrib unat_word_ariths unat_of_nat mult.commute)
qed

text \<open>Pages of the allocator are pairwise disjoint: an address lies in at most one of them.\<close>

definition in_page :: "u64 \<Rightarrow> u64 \<Rightarrow> bool" where
  "in_page pa a \<longleftrightarrow> unat (a - pa) < 4096"

lemma page_aligned: "pmm_ok s \<Longrightarrow> pa \<in> pages_of s \<Longrightarrow> 4096 dvd unat pa"
  by (auto simp: pages_of_def unat_page_at pmm_ok_def)

lemma page_number:
  assumes "4096 * k \<le> (a :: nat)"
  shows "a - 4096 * k < 4096 \<longleftrightarrow> a div 4096 = k"
proof -
  obtain d where "a = d + 4096 * k" using assms by (metis add.commute le_Suc_ex)
  then show ?thesis by (simp add: div_eq_0_iff)
qed

lemma unat_in_page:
  assumes "4096 dvd unat pa"
  shows "in_page pa a \<longleftrightarrow> unat a div 4096 = unat pa div 4096"
proof -
  obtain k where k: "unat pa = 4096 * k" using assms by blast
  have lt: "unat pa < 2 ^ 64" using unsigned_less [where 'a = nat, of pa] by simp
  show ?thesis
  proof (cases "pa \<le> a")
    case True
    then have "unat (a - pa) = unat a - 4096 * k" using k by (simp add: unat_sub)
    moreover have "4096 * k \<le> unat a" using True k by (simp add: word_le_nat_alt)
    ultimately show ?thesis using k page_number by (simp add: in_page_def)
  next
    case False
    then have l: "unat a < 4096 * k" using k by (simp add: word_le_nat_alt)
    have "unat (a - pa) = 2 ^ 64 + unat a - 4096 * k"
      using k l by (simp add: unat_sub_if_size word_size)
    moreover have "4096 * k \<le> 2 ^ 64 - 4096" using lt k by simp
    ultimately have "4096 \<le> unat (a - pa)" by simp
    moreover have "unat a div 4096 < k" using l by (simp add: less_mult_imp_div_less mult.commute)
    ultimately show ?thesis using k by (simp add: in_page_def)
  qed
qed

lemma pages_disjoint:
  "pmm_ok s \<Longrightarrow> p \<in> pages_of s \<Longrightarrow> q \<in> pages_of s \<Longrightarrow> in_page p a \<Longrightarrow> in_page q a \<Longrightarrow> p = q"
  using page_aligned [of s p] page_aligned [of s q]
  by (simp add: unat_in_page word_unat_eq_iff) (metis dvd_div_mult_self)

lemma zero_cells_page: "zero_cells pa 4096 m a = (if in_page pa a then 0 else m a)"
  by (simp add: zero_cells_def in_page_def)

lemma used_subset: "used_pages s \<subseteq> pages_of s"
  by (auto simp: used_pages_def pages_of_def)

lemma card_free_pages:
  assumes "pmm_ok s"
  shows "unat (pm_free s) = card (pages_of s - used_pages s)"
proof -
  have "pages_of s - used_pages s = page_at s ` {i. i < unat (pm_total s) \<and> \<not> bm_bit (pm_bitmap s) i}"
    using page_at_inj [OF assms] by (auto simp: pages_of_def used_pages_def)
  moreover have "inj_on (page_at s) {i. i < unat (pm_total s) \<and> \<not> bm_bit (pm_bitmap s) i}"
    using page_at_inj [OF assms] by (auto intro: inj_onI)
  ultimately show ?thesis using assms by (simp add: pmm_ok_def free_count_def card_image)
qed

section \<open>The operations keep the invariant and act on the set of used pages\<close>

lemma bm_set_ok:
  assumes "pmm_ok s" and "i < unat (pm_total s)" and "\<not> bm_bit (pm_bitmap s) i"
  shows "pmm_ok (bm_set i s)" and "used_pages (bm_set i s) = insert (page_at s i) (used_pages s)"
proof -
  have "free_count (pm_bitmap s) (unat (pm_total s)) = Suc (free_count (bm_put i (pm_bitmap s)) (unat (pm_total s)))"
    using assms by (simp add: pmm_ok_def free_count_put)
  then have "unat (pm_free s - 1) = free_count (bm_put i (pm_bitmap s)) (unat (pm_total s))"
    using assms(1) by (subst unat_minus_one) (auto simp: pmm_ok_def)
  then show "pmm_ok (bm_set i s)" using assms(1) by (simp add: pmm_ok_def)
  show "used_pages (bm_set i s) = insert (page_at s i) (used_pages s)"
    using assms by (auto simp: used_pages_def bm_bit_put pmm_ok_def page_at_def idx_to_pa_def)
qed

lemma bm_clr_ok:
  assumes "pmm_ok s" and "i < unat (pm_total s)" and "bm_bit (pm_bitmap s) i"
  shows "pmm_ok (bm_clr i s)" and "used_pages (bm_clr i s) = used_pages s - {page_at s i}"
proof -
  have f: "free_count (bm_clear i (pm_bitmap s)) (unat (pm_total s)) = Suc (free_count (pm_bitmap s) (unat (pm_total s)))"
    using assms by (simp add: pmm_ok_def free_count_clear)
  then have "unat (pm_free s + 1) = free_count (bm_clear i (pm_bitmap s)) (unat (pm_total s))"
    using assms(1) free_count_le [of "bm_clear i (pm_bitmap s)" "unat (pm_total s)"]
      unsigned_less [where 'a = nat, of "pm_total s"]
    by (simp add: pmm_ok_def unat_word_ariths)
  then show "pmm_ok (bm_clr i s)" using assms(1) by (simp add: pmm_ok_def)
  have "used_pages (bm_clr i s) = page_at s ` {j. j < unat (pm_total s) \<and> j \<noteq> i \<and> bm_bit (pm_bitmap s) j}"
    using assms by (auto simp: used_pages_def bm_bit_clear pmm_ok_def page_at_def idx_to_pa_def)
  then show "used_pages (bm_clr i s) = used_pages s - {page_at s i}"
    using page_at_inj [OF assms(1)] assms(2) by (auto simp: used_pages_def)
qed

lemma used_pages_iff: "pmm_ok s \<Longrightarrow> i < unat (pm_total s) \<Longrightarrow> page_at s i \<in> used_pages s \<longleftrightarrow> bm_bit (pm_bitmap s) i"
  using page_at_inj [of s i] by (auto simp: used_pages_def)

lemma pmm_ok_mem [simp]: "pmm_ok (s\<lparr>pm_mem := m\<rparr>) = pmm_ok s"
  by (simp add: pmm_ok_def)

lemma page_at_mem [simp]: "page_at (s\<lparr>pm_mem := m\<rparr>) i = page_at s i"
  by (simp add: page_at_def idx_to_pa_def)

lemma used_pages_mem [simp]: "used_pages (s\<lparr>pm_mem := m\<rparr>) = used_pages s"
  by (simp add: used_pages_def)

lemma pages_of_mem [simp]: "pages_of (s\<lparr>pm_mem := m\<rparr>) = pages_of s"
  by (simp add: pages_of_def)

lemma page_at_set [simp]: "page_at (bm_set i s) j = page_at s j"
  by (simp add: page_at_def idx_to_pa_def)

lemma page_at_clr [simp]: "page_at (bm_clr i s) j = page_at s j"
  by (simp add: page_at_def idx_to_pa_def)

lemma pages_of_set [simp]: "pages_of (bm_set i s) = pages_of s"
  by (simp add: pages_of_def)

lemma pages_of_clr [simp]: "pages_of (bm_clr i s) = pages_of s"
  by (simp add: pages_of_def)

lemma pmm_alloc_cases:
  obtains (none) "\<forall>i<unat (pm_total s). bm_bit (pm_bitmap s) i" "pmm_alloc s = (Inl ENoMem, s)"
  | (some) i where "i < unat (pm_total s)" "\<not> bm_bit (pm_bitmap s) i" "\<forall>j<i. bm_bit (pm_bitmap s) j"
      "pmm_alloc s = (Inr (page_at s i), (bm_set i s)\<lparr>pm_mem := zero_cells (page_at s i) 4096 (pm_mem s)\<rparr>)"
proof (cases "find (\<lambda>i. \<not> bm_get i s) [0..<unat (pm_total s)]")
  case None
  then have "pmm_alloc s = (Inl ENoMem, s)" by (simp add: pmm_alloc_def)
  then show ?thesis using none None by (simp add: find_upt_None bm_get_iff)
next
  case (Some i)
  then have "pmm_alloc s = (Inr (page_at s i), (bm_set i s)\<lparr>pm_mem := zero_cells (page_at s i) 4096 (pm_mem s)\<rparr>)"
    by (simp add: pmm_alloc_def page_at_def idx_to_pa_def Let_def)
  then show ?thesis using some [of i] Some by (auto simp: find_upt_Some bm_get_iff)
qed

lemma pmm_alloc_ok:
  assumes "pmm_ok s" and "pmm_alloc s = (Inr pa, s')"
  shows "pmm_ok s'" and "pa \<in> pages_of s" and "pa \<notin> used_pages s" and "used_pages s' = insert pa (used_pages s)"
    and "pages_of s' = pages_of s" and "pm_slab_heads s' = pm_slab_heads s"
    and "pm_mem s' = (\<lambda>a. if in_page pa a then 0 else pm_mem s a)"
proof -
  obtain i where i: "i < unat (pm_total s)" "\<not> bm_bit (pm_bitmap s) i" "pa = page_at s i"
    "s' = (bm_set i s)\<lparr>pm_mem := zero_cells (page_at s i) 4096 (pm_mem s)\<rparr>"
    using assms(2) by (cases rule: pmm_alloc_cases [of s]) auto
  note set = bm_set_ok [OF assms(1) i(1,2)]
  show "pmm_ok s'" "used_pages s' = insert pa (used_pages s)" using set i by simp_all
  show "pages_of s' = pages_of s" "pm_slab_heads s' = pm_slab_heads s" using i by simp_all
  show "pa \<in> pages_of s" using i by (simp add: pages_of_def)
  show "pa \<notin> used_pages s" using used_pages_iff [OF assms(1) i(1)] i by simp
  show "pm_mem s' = (\<lambda>a. if in_page pa a then 0 else pm_mem s a)" using i by (simp add: zero_cells_page fun_eq_iff)
qed

lemma pmm_alloc_fails:
  assumes "pmm_ok s" and "pmm_alloc s = (Inl e, s')"
  shows "e = ENoMem \<and> s' = s \<and> used_pages s = pages_of s"
proof (cases rule: pmm_alloc_cases [of s])
  case none
  then show ?thesis using assms by (auto simp: used_pages_def pages_of_def)
qed (use assms in simp)

lemma pmm_free_idx:
  assumes "pmm_ok s" and "i < unat (pm_total s)"
  shows "pmm_free (page_at s i) s = (if bm_bit (pm_bitmap s) i then bm_clr i s else s)"
  using pa_to_idx_page_at [OF assms] assms(2) by (simp add: pmm_free_def Let_def bm_get_iff word_less_nat_alt)

lemma pmm_free_ok:
  assumes "pmm_ok s"
  shows "pmm_ok (pmm_free pa s)" and "pages_of (pmm_free pa s) = pages_of s" and "pm_mem (pmm_free pa s) = pm_mem s"
    and "pm_slab_heads (pmm_free pa s) = pm_slab_heads s"
  using bm_clr_ok(1) [OF assms, of "unat (pa_to_idx s pa)"] assms
  by (auto simp: pmm_free_def Let_def bm_get_iff word_less_nat_alt)

lemma pmm_free_used:
  assumes "pmm_ok s" and "pa \<in> pages_of s"
  shows "used_pages (pmm_free pa s) = used_pages s - {pa}"
proof -
  obtain i where i: "i < unat (pm_total s)" "pa = page_at s i" using assms(2) by (auto simp: pages_of_def)
  then show ?thesis
    using assms(1) bm_clr_ok(2) [OF assms(1) i(1)] used_pages_iff [OF assms(1) i(1)] by (simp add: pmm_free_idx)
qed

text \<open>\<open>free\<close> of an address outside the managed pages changes nothing.\<close>

lemma pmm_free_outside:
  assumes "pmm_ok s" and "\<forall>p\<in>pages_of s. \<not> in_page p pa"
  shows "pmm_free pa s = s"
proof (rule ccontr)
  assume "\<not> ?thesis"
  then have lt: "unat (pa_to_idx s pa) < unat (pm_total s)"
    by (auto simp: pmm_free_def Let_def word_less_nat_alt split: if_splits)
  let ?i = "unat (pa_to_idx s pa)" and ?d = "pa - pm_base s"
  have "pa - page_at s ?i = ?d - ?d div 4096 * 4096"
    by (simp add: page_at_def idx_to_pa_def pa_to_idx_def PAGE_SIZE_def)
  then have "pa - page_at s ?i = ?d mod 4096" by (simp only: minus_div_mult_eq_mod)
  then have "in_page (page_at s ?i) pa" by (simp add: in_page_def unat_mod_distrib)
  then show False using assms(2) lt by (auto simp: pages_of_def)
qed

section \<open>Runs of pages\<close>

definition free_run :: "pmm \<Rightarrow> nat \<Rightarrow> nat \<Rightarrow> bool" where
  "free_run s start n \<longleftrightarrow>
     start + n \<le> unat (pm_total s) \<and> (\<forall>k. start \<le> k \<and> k < start + n \<longrightarrow> \<not> bm_bit (pm_bitmap s) k)"

lemma fold_bm_set_ok:
  assumes "pmm_ok s" and "free_run s a n"
  shows "pmm_ok (fold bm_set [a..<a + n] s) \<and>
    used_pages (fold bm_set [a..<a + n] s) = used_pages s \<union> page_at s ` {a..<a + n} \<and>
    (\<forall>k. bm_bit (pm_bitmap (fold bm_set [a..<a + n] s)) k = (bm_bit (pm_bitmap s) k \<or> a \<le> k \<and> k < a + n)) \<and>
    pm_mem (fold bm_set [a..<a + n] s) = pm_mem s \<and> pm_base (fold bm_set [a..<a + n] s) = pm_base s \<and>
    pm_total (fold bm_set [a..<a + n] s) = pm_total s"
  using assms(2)
proof (induction n)
  case 0
  then show ?case using assms(1) by auto
next
  case (Suc n)
  let ?t = "fold bm_set [a..<a + n] s"
  have r: "free_run s a n" using Suc.prems by (auto simp: free_run_def)
  note IH = Suc.IH [OF r]
  have step: "fold bm_set [a..<a + Suc n] s = bm_set (a + n) ?t" by simp
  have lt: "a + n < unat (pm_total ?t)" "\<not> bm_bit (pm_bitmap ?t) (a + n)"
    using IH Suc.prems by (auto simp: free_run_def)
  have ok: "pmm_ok ?t" using IH by blast
  have len: "a + n < 8 * length (pm_bitmap ?t)" using ok lt(1) by (simp add: pmm_ok_def)
  have "page_at ?t (a + n) = page_at s (a + n)" using IH by (intro page_at_cong) blast
  then have "used_pages (bm_set (a + n) ?t) = used_pages s \<union> page_at s ` {a..<a + Suc n}"
    using bm_set_ok(2) [OF ok lt] IH by (auto simp: atLeastLessThanSuc)
  moreover have "bm_bit (pm_bitmap (bm_set (a + n) ?t)) k = (bm_bit (pm_bitmap s) k \<or> a \<le> k \<and> k < a + Suc n)" for k
    using IH len by (auto simp: bm_bit_put)
  ultimately show ?case unfolding step using bm_set_ok(1) [OF ok lt] IH by simp
qed

text \<open>The scan keeps the length of the free run that ends at the current index.\<close>

lemma alloc_n_scan_spec:
  assumes "r \<le> i" and "r < n" and "r = 0 \<or> start = i - r" and "\<forall>k. i - r \<le> k \<and> k < i \<longrightarrow> \<not> taken k"
  shows "case alloc_n_scan taken n r start [i..<t] of
      None \<Rightarrow> \<forall>m\<ge>i - r. m + n \<le> t \<longrightarrow> (\<exists>k. m \<le> k \<and> k < m + n \<and> taken k)
    | Some st \<Rightarrow> st + n \<le> t \<and> (\<forall>k. st \<le> k \<and> k < st + n \<longrightarrow> \<not> taken k) \<and>
        (\<forall>m. i - r \<le> m \<and> m < st \<longrightarrow> (\<exists>k. m \<le> k \<and> k < m + n \<and> taken k))"
  using assms
proof (induction "t - i" arbitrary: i r start)
  case 0
  then show ?case by auto
next
  case (Suc d)
  then have up: "[i..<t] = i # [Suc i..<t]" and d: "d = t - Suc i" by (simp_all add: upt_conv_Cons)
  show ?case
  proof (cases "taken i")
    case True
    have blocked: "\<exists>k. m \<le> k \<and> k < m + n \<and> taken k" if "i - r \<le> m" "m < Suc i" for m
      using that True Suc.prems by (intro exI [of _ i]) linarith
    show ?thesis using Suc.hyps(1) [OF d, of 0 start] Suc.prems True blocked unfolding up
      by (auto split: option.splits simp: not_less_eq_eq) (metis Suc_leI le_less_linear less_Suc_eq_le)+
  next
    case False
    let ?st = "if r = 0 then i else start"
    have st: "?st = i - r" "\<forall>k. i - r \<le> k \<and> k < Suc i \<longrightarrow> \<not> taken k"
      using Suc.prems False by (auto simp: less_Suc_eq)
    show ?thesis
    proof (cases "Suc r = n")
      case True
      then show ?thesis using False st Suc.prems Suc.hyps(2) unfolding up by (auto simp: Let_def)
    next
      case ne: False
      have "alloc_n_scan taken n r start [i..<t] = alloc_n_scan taken n (Suc r) ?st [Suc i..<t]"
        using False ne unfolding up by (simp add: Let_def)
      then show ?thesis using Suc.hyps(1) [OF d, of "Suc r" ?st, unfolded diff_Suc_Suc] st Suc.prems ne by simp
    qed
  qed
qed

lemma alloc_n_cases:
  assumes "0 < n"
  obtains (none) "\<forall>st. \<not> free_run s st n" "alloc_n n s = (Inl ENoMem, s)"
  | (some) st where "free_run s st n" "\<forall>m. m < st \<longrightarrow> \<not> free_run s m n"
      "alloc_n n s = (Inr (page_at s st), fold bm_set [st..<st + n] s)"
proof -
  let ?scan = "alloc_n_scan (\<lambda>i. bm_get i s) n 0 0 [0..<unat (pm_total s)]"
  have spec: "case ?scan of
      None \<Rightarrow> \<forall>m\<ge>0. m + n \<le> unat (pm_total s) \<longrightarrow> (\<exists>k. m \<le> k \<and> k < m + n \<and> bm_get k s)
    | Some st \<Rightarrow> st + n \<le> unat (pm_total s) \<and> (\<forall>k. st \<le> k \<and> k < st + n \<longrightarrow> \<not> bm_get k s) \<and>
        (\<forall>m. 0 \<le> m \<and> m < st \<longrightarrow> (\<exists>k. m \<le> k \<and> k < m + n \<and> bm_get k s))"
    using alloc_n_scan_spec [of 0 0 n 0 "\<lambda>i. bm_get i s" "unat (pm_total s)", unfolded minus_nat.diff_0] assms by simp
  have base: "pm_base (fold bm_set is s) = pm_base s" for "is"
    by (induction "is" arbitrary: s) simp_all
  show ?thesis
  proof (cases ?scan)
    case None
    then have "alloc_n n s = (Inl ENoMem, s)" using assms by (simp add: alloc_n_def)
    then show ?thesis using none spec None by (auto simp: free_run_def bm_get_iff)
  next
    case (Some st)
    then have "alloc_n n s = (Inr (page_at s st), fold bm_set [st..<st + n] s)"
      using assms by (simp add: alloc_n_def Let_def page_at_def idx_to_pa_def base)
    then show ?thesis using some spec Some by (auto simp: free_run_def bm_get_iff)
  qed
qed

section \<open>Boot\<close>

text \<open>The memory handed to \<open>init\<close>: the sums do not wrap and at least two whole pages lie between
  the reserved heap and the end of memory. With a single page the bitmap page is marked
  although no data page is left, and the counter of free pages wraps.\<close>

definition dram_ok :: "u64 \<Rightarrow> u64 \<Rightarrow> u64 \<Rightarrow> bool" where
  "dram_ok kernel_end dram_base dram_size \<longleftrightarrow>
     unat kernel_end + 4 * 1024 * 1024 + 4096 \<le> 2 ^ 64 \<and> unat dram_base + unat dram_size < 2 ^ 64 \<and>
     max (unat kernel_end + 4 * 1024 * 1024) (unat dram_base) + 4095 + 8192 \<le> unat dram_base + unat dram_size"

lemma pmm_ok_fresh:
  assumes "m + 4096 * p < 2 ^ 64" and "4096 dvd m" and "b \<le> p" and "p - b \<le> 8 * bytes"
  shows "pmm_ok (s\<lparr>pm_base := of_nat (m + b * 4096), pm_total := of_nat (p - b), pm_free := of_nat (p - b),
     pm_bitmap_at := at, pm_bitmap := replicate bytes 0, pm_slab_heads := hs\<rparr>)"
proof -
  have bits: "bm_bit (replicate bytes 0) i = False" if "i < p - b" for i
    using that assms(4) by (simp add: bm_bit_def)
  have "free_count (replicate bytes 0) (p - b) = card {..<p - b}"
    unfolding free_count_def using bits by (intro arg_cong [of _ _ card]) auto
  moreover have "b * 4096 \<le> 4096 * p" using assms(3) by simp
  moreover have "unat (of_nat (m + b * 4096) :: u64) = m + b * 4096" "unat (of_nat (p - b) :: u64) = p - b"
    using assms(1) calculation(2) by (intro unat_of_nat_u64; linarith)+
  ultimately show ?thesis using assms by (simp add: pmm_ok_def dvd_add algebra_simps)
qed

lemma managed_base:
  assumes "dram_ok kernel_end dram_base dram_size"
  defines "m \<equiv> unat (page_align_up (max (kernel_end + KERNEL_HEAP_RESERVE) dram_base))"
  shows "4096 dvd m" and "m + 8192 \<le> unat dram_base + unat dram_size"
proof -
  let ?x = "max (kernel_end + KERNEL_HEAP_RESERVE) dram_base"
  have "unat (kernel_end + KERNEL_HEAP_RESERVE) = unat kernel_end + 4194304"
    using assms(1) by (simp add: dram_ok_def KERNEL_HEAP_RESERVE_def unat_word_ariths)
  then have x: "unat ?x = max (unat kernel_end + 4194304) (unat dram_base)"
    by (simp add: max_def word_le_nat_alt)
  then have m: "m = (unat ?x + 4095) div 4096 * 4096"
    using assms(1) unfolding m_def by (intro unat_page_align_up) (auto simp: dram_ok_def)
  then show "4096 dvd m" by simp
  have "m \<le> unat ?x + 4095" unfolding m by (rule div_times_less_eq_dividend)
  then show "m + 8192 \<le> unat dram_base + unat dram_size" using assms(1) x by (simp add: dram_ok_def)
qed

lemma pmm_init_eq:
  assumes "dram_ok kernel_end dram_base dram_size"
  obtains m p b n where "pmm_init kernel_end dram_base dram_size s = fold bm_set [0..<b]
      (s\<lparr>pm_base := of_nat (m + b * 4096), pm_total := of_nat (p - b), pm_free := of_nat (p - b),
         pm_bitmap_at := of_nat m, pm_bitmap := replicate n 0, pm_slab_heads := [0, 0, 0]\<rparr>)"
    "m + 4096 * p < 2 ^ 64" "4096 dvd m" "2 * b \<le> p" "p - b \<le> 8 * n"
proof -
  define mb where "mb = page_align_up (max (kernel_end + KERNEL_HEAP_RESERVE) dram_base)"
  define m where "m = unat mb"
  define e where "e = unat dram_base + unat dram_size"
  define p where "p = (e - m) div 4096"
  define n where "n = (p + 7) div 8"
  define b where "b = (n + 4095) div 4096"
  have m: "4096 dvd m" "m + 8192 \<le> e" "e < 2 ^ 64"
    using managed_base [OF assms] assms unfolding m_def mb_def e_def by (simp_all add: dram_ok_def)
  have e: "unat (dram_base + dram_size) = e" using m(3) unfolding e_def by (simp add: unat_word_ariths)
  have le: "mb \<le> dram_base + dram_size" using m(2) e by (simp add: word_le_nat_alt m_def)
  have pb: "4096 * p \<le> e - m" unfolding p_def by simp
  have p2: "2 \<le> p" using m(2) unfolding p_def by simp
  have wp: "(dram_base + dram_size - mb) div 4096 = of_nat p"
  proof -
    have "unat ((dram_base + dram_size - mb) div 4096) = p"
      using le e unfolding p_def m_def by (simp add: unat_div_distrib unat_sub)
    then show ?thesis by (metis of_nat_unat ucast_id)
  qed
  have wn: "(of_nat p + 7) div 8 = (of_nat n :: u64)"
    using pb m(3) unfolding n_def by (simp add: word_unat_eq_iff unat_div_distrib unat_of_nat unat_word_ariths)
  have nb: "8 * n \<le> p + 7" unfolding n_def by simp
  have wb: "(of_nat n + 4095) div 4096 = (of_nat b :: u64)"
    using nb pb m(3) unfolding b_def by (simp add: word_unat_eq_iff unat_div_distrib unat_of_nat unat_word_ariths)
  have bb: "4096 * b \<le> n + 4095" unfolding b_def by simp
  have b2: "2 * b \<le> p" using bb nb p2 by linarith
  have "p - b \<le> 8 * n" unfolding n_def by simp
  moreover have "m + 4096 * p < 2 ^ 64" using pb m by linarith
  moreover have "pmm_init kernel_end dram_base dram_size s = fold bm_set [0..<b]
      (s\<lparr>pm_base := of_nat (m + b * 4096), pm_total := of_nat (p - b), pm_free := of_nat (p - b),
         pm_bitmap_at := of_nat m, pm_bitmap := replicate n 0, pm_slab_heads := [0, 0, 0]\<rparr>)"
  proof -
    have small: "p < 2 ^ 64" "n < 2 ^ 64" "b < 2 ^ 64" using pb nb bb m(3) by linarith+
    have mb: "mb = of_nat m" unfolding m_def by simp
    have "of_nat b \<le> (of_nat p :: u64)" using b2 small by (simp add: word_le_nat_alt unat_of_nat)
    moreover have "of_nat p - of_nat b = (of_nat (p - b) :: u64)" using b2 by (simp add: of_nat_diff)
    moreover have "(max (kernel_end + KERNEL_HEAP_RESERVE) dram_base + PAGE_SIZE - 1) AND NOT (PAGE_SIZE - 1) = mb"
      by (simp add: mb_def page_align_up_def PAGE_MASK_def)
    moreover have "unat (of_nat n :: u64) = n" "unat (of_nat b :: u64) = b" using small by (simp_all add: unat_of_nat)
    ultimately show ?thesis using le wp wn wb mb by (simp add: pmm_init_def Let_def PAGE_SIZE_def)
  qed
  ultimately show thesis using that m(1) b2 by blast
qed

lemma pmm_init_ok:
  assumes "dram_ok kernel_end dram_base dram_size"
  shows "pmm_ok (pmm_init kernel_end dram_base dram_size s)"
proof -
  obtain m p b n where eq: "pmm_init kernel_end dram_base dram_size s = fold bm_set [0..<b]
      (s\<lparr>pm_base := of_nat (m + b * 4096), pm_total := of_nat (p - b), pm_free := of_nat (p - b),
         pm_bitmap_at := of_nat m, pm_bitmap := replicate n 0, pm_slab_heads := [0, 0, 0]\<rparr>)" (is "_ = fold _ _ ?s")
    and f: "m + 4096 * p < 2 ^ 64" "4096 dvd m" "2 * b \<le> p" "p - b \<le> 8 * n"
    by (rule pmm_init_eq [OF assms]) blast
  have ok: "pmm_ok ?s" using f by (intro pmm_ok_fresh) simp_all
  have "free_run ?s 0 b" using f unat_of_nat_u64 [of "p - b"]
    by (auto simp: free_run_def bm_bit_def)
  then show ?thesis using fold_bm_set_ok [OF ok, of 0 b] unfolding eq by simp
qed

section \<open>The contract of the page allocator\<close>

text \<open>What the page tables and the slab allocator rely on: a page handed out was unused, the
  allocator fails only when every page is in use, and a page given back can be handed out
  again. A client that allocates page by page gets as many distinct pages as it asks for, as
  long as the pool lasts.\<close>

fun take_pages :: "('s \<Rightarrow> (errno + u64) \<times> 's) \<Rightarrow> nat \<Rightarrow> 's \<Rightarrow> u64 list \<times> 's" where
  "take_pages palloc 0 s = ([], s)"
| "take_pages palloc (Suc n) s =
     (case palloc s of
        (Inl e, s') \<Rightarrow> ([], s')
      | (Inr pa, s') \<Rightarrow> (case take_pages palloc n s' of (pas, s'') \<Rightarrow> (pa # pas, s'')))"

locale page_allocator =
  fixes palloc :: "'s \<Rightarrow> (errno + u64) \<times> 's" and pfree :: "u64 \<Rightarrow> 's \<Rightarrow> 's"
    and ok :: "'s \<Rightarrow> bool" and used pool :: "'s \<Rightarrow> u64 set"
  assumes palloc_fresh: "ok s \<Longrightarrow> palloc s = (Inr pa, s') \<Longrightarrow>
      ok s' \<and> pa \<in> pool s - used s \<and> used s' = insert pa (used s) \<and> pool s' = pool s"
    and palloc_full: "ok s \<Longrightarrow> palloc s = (Inl e, s') \<Longrightarrow> s' = s \<and> used s = pool s"
    and pfree_law: "ok s \<Longrightarrow> pa \<in> used s \<Longrightarrow>
      ok (pfree pa s) \<and> used (pfree pa s) = used s - {pa} \<and> pool (pfree pa s) = pool s"
    and pool_law: "finite (pool s) \<and> used s \<subseteq> pool s"
begin

lemma alloc_then_free:
  assumes "ok s" and "palloc s = (Inr pa, s')"
  shows "ok (pfree pa s') \<and> used (pfree pa s') = used s"
  using palloc_fresh [OF assms] pfree_law [of s' pa] by auto

lemma take_pages_spec:
  assumes "ok s" and "take_pages palloc n s = (pas, s')"
  shows "distinct pas \<and> set pas \<subseteq> pool s - used s \<and> used s' = used s \<union> set pas \<and>
    length pas = min n (card (pool s - used s))"
  using assms
proof (induction n arbitrary: s pas s')
  case (Suc n)
  show ?case
  proof (cases "palloc s")
    case (Pair r s1)
    show ?thesis
    proof (cases r)
      case (Inl e)
      then show ?thesis using Suc.prems Pair palloc_full [of s e s1] by auto
    next
      case (Inr pa)
      obtain pas1 where t: "take_pages palloc n s1 = (pas1, s')" "pas = pa # pas1"
        using Suc.prems(2) Pair Inr by (auto split: prod.splits)
      have a: "ok s1" "pa \<in> pool s - used s" "used s1 = insert pa (used s)" "pool s1 = pool s"
        using palloc_fresh [of s pa s1] Suc.prems(1) Pair Inr by auto
      have "card (pool s - used s) = Suc (card (pool s1 - used s1))"
        using a pool_law [of s] by (metis Diff_insert card_Suc_Diff1 finite_Diff)
      then show ?thesis using Suc.IH [OF a(1) t(1)] a t(2) by auto
    qed
  qed
qed simp

end

lemma finite_pages_of: "finite (pages_of s)"
  by (simp add: pages_of_def)

interpretation pg: page_allocator pmm_alloc pmm_free pmm_ok used_pages pages_of
proof
  show "pmm_ok s \<Longrightarrow> pa \<in> used_pages s \<Longrightarrow>
    pmm_ok (pmm_free pa s) \<and> used_pages (pmm_free pa s) = used_pages s - {pa} \<and> pages_of (pmm_free pa s) = pages_of s"
    for s pa using pmm_free_ok [of s pa] pmm_free_used [of s pa] used_subset [of s] by blast
qed (auto dest: pmm_alloc_ok pmm_alloc_fails simp: finite_pages_of intro: used_subset [THEN subsetD])

section \<open>Every history of allocations\<close>

text \<open>\<open>pmm_run s H\<close>: after boot, allocations, frees of pages that are held and writes to memory
  have led to the allocator state \<open>s\<close> with the pages \<open>H\<close> in the hands of clients.\<close>

inductive pmm_run :: "pmm \<Rightarrow> u64 set \<Rightarrow> bool" where
  boot: "dram_ok kernel_end dram_base dram_size \<Longrightarrow> pmm_run (pmm_init kernel_end dram_base dram_size s) {}"
| one: "pmm_run s H \<Longrightarrow> pmm_alloc s = (Inr pa, s') \<Longrightarrow> pmm_run s' (insert pa H)"
| many: "pmm_run s H \<Longrightarrow> alloc_n n s = (Inr pa, s') \<Longrightarrow>
    pmm_run s' (H \<union> (\<lambda>k. pa + of_nat k * PAGE_SIZE) ` {..<n})"
| give_back: "pmm_run s H \<Longrightarrow> pa \<in> H \<Longrightarrow> pmm_run (pmm_free pa s) (H - {pa})"
| store: "pmm_run s H \<Longrightarrow> pmm_run (s\<lparr>pm_mem := m\<rparr>) H"

lemma page_at_plus: "page_at s st + of_nat k * PAGE_SIZE = page_at s (st + k)"
  by (simp add: page_at_def idx_to_pa_def algebra_simps)

lemma alloc_n_ok:
  assumes "pmm_ok s" and "alloc_n n s = (Inr pa, s')"
  shows "pmm_ok s' \<and> used_pages s' = used_pages s \<union> (\<lambda>k. pa + of_nat k * PAGE_SIZE) ` {..<n} \<and>
    used_pages s \<inter> (\<lambda>k. pa + of_nat k * PAGE_SIZE) ` {..<n} = {} \<and> pm_mem s' = pm_mem s \<and> pages_of s' = pages_of s"
proof -
  have "0 < n" using assms(2) by (cases n) (simp_all add: alloc_n_def)
  then show ?thesis
  proof (cases rule: alloc_n_cases [of n s])
    case (some st)
    then have pa: "pa = page_at s st" and s': "s' = fold bm_set [st..<st + n] s" using assms(2) by simp_all
    have im: "(\<lambda>k. pa + of_nat k * PAGE_SIZE) ` {..<n} = page_at s ` {st..<st + n}"
    proof -
      have "{st..<st + n} = (+) st ` {..<n}" 
        by (simp only: lessThan_atLeast0 image_add_atLeastLessThan add_0_left add.commute)
      then show ?thesis unfolding pa page_at_plus by (simp only: image_image)
    qed
    have "page_at s k \<notin> used_pages s" if "st \<le> k" "k < st + n" for k
      using some(1) that used_pages_iff [OF assms(1), of k] by (simp add: free_run_def)
    then have "used_pages s \<inter> page_at s ` {st..<st + n} = {}" by auto
    moreover have "pages_of s' = pages_of s"
    proof -
      have f: "pm_base s' = pm_base s" "pm_total s' = pm_total s"
        using fold_bm_set_ok [OF assms(1) some(1)] unfolding s' by blast+
      then show ?thesis by (simp add: pages_of_def page_at_cong [OF f(1)])
    qed
    ultimately show ?thesis using fold_bm_set_ok [OF assms(1) some(1)] unfolding s' im by blast
  qed (use assms in simp)
qed

lemma pmm_run_inv: "pmm_run s H \<Longrightarrow> pmm_ok s \<and> H \<subseteq> used_pages s"
proof (induction rule: pmm_run.induct)
  case (boot kernel_end dram_base dram_size s)
  then show ?case by (simp add: pmm_init_ok)
next
  case (one s H pa s')
  then show ?case using pmm_alloc_ok [of s pa s'] by auto
next
  case (many s H n pa s')
  then show ?case using alloc_n_ok [of s n pa s'] by auto
next
  case (give_back s H pa)
  then show ?case using pg.pfree_law [of s pa] by auto
qed simp

text \<open>C29: In every state the page allocator can reach from boot by allocations, frees and writes
  to memory, its counter of free pages is the number of pages not in use, every page a client
  holds is in use, and the next page it hands out is one that no client holds, arrives
  zeroed, and arrives without touching a byte of the pages already held.\<close>

theorem pmm_run_safe:
  assumes "pmm_run s H"
  shows "unat (pm_free s) = card (pages_of s - used_pages s) \<and> H \<subseteq> used_pages s \<and>
    (\<forall>pa s'. pmm_alloc s = (Inr pa, s') \<longrightarrow>
       pa \<notin> H \<and> (\<forall>a. in_page pa a \<longrightarrow> pm_mem s' a = 0) \<and>
       (\<forall>p\<in>H. \<forall>a. in_page p a \<longrightarrow> pm_mem s' a = pm_mem s a))"
proof -
  have ok: "pmm_ok s" and H: "H \<subseteq> used_pages s" using pmm_run_inv [OF assms] by auto
  have "pa \<notin> H \<and> (\<forall>a. in_page pa a \<longrightarrow> pm_mem s' a = 0) \<and>
       (\<forall>p\<in>H. \<forall>a. in_page p a \<longrightarrow> pm_mem s' a = pm_mem s a)" if "pmm_alloc s = (Inr pa, s')" for pa s'
  proof -
    note al = pmm_alloc_ok [OF ok that]
    have "\<not> in_page pa a" if "p \<in> H" "in_page p a" for p a
      using pages_disjoint [OF ok, of pa p a] that al(2,3) H used_subset [of s] by auto
    then show ?thesis using al H by auto
  qed
  then show ?thesis using card_free_pages [OF ok] H by blast
qed

text \<open>A board with 16 pages of memory above the kernel: one page holds the bitmap, and one data
  page is marked.\<close>

definition board :: pmm where
  "board = \<lparr>pm_base = 0x80001000, pm_total = 15, pm_free = 14, pm_bitmap_at = 0x80000000,
     pm_bitmap = [1, 0], pm_slab_heads = [0, 0, 0], pm_mem = (\<lambda>_. 7)\<rparr>"

definition blank_pmm :: pmm where
  "blank_pmm = \<lparr>pm_base = 0, pm_total = 0, pm_free = 0, pm_bitmap_at = 0, pm_bitmap = [],
     pm_slab_heads = [], pm_mem = (\<lambda>_. 7)\<rparr>"

lemma pm_mem_init: "pm_mem (pmm_init k b z s) = pm_mem s"
proof -
  have "pm_mem (fold bm_set is s) = pm_mem s" for "is" s by (induction "is" arbitrary: s) simp_all
  then show ?thesis by (simp add: pmm_init_def Let_def)
qed

lemma board_boot: "pmm_init 0x100000 0x80000000 0x10000 blank_pmm = board"
proof (rule pmm.equality)
  show "pm_mem (pmm_init 0x100000 0x80000000 0x10000 blank_pmm) = pm_mem board"
    by (simp add: pm_mem_init blank_pmm_def board_def)
  show "pm_bitmap (pmm_init 0x100000 0x80000000 0x10000 blank_pmm) = pm_bitmap board" by code_simp
  show "pm_slab_heads (pmm_init 0x100000 0x80000000 0x10000 blank_pmm) = pm_slab_heads board" by code_simp
qed (code_simp | simp)+

lemma board_run: "pmm_run board {}"
proof -
  have "dram_ok 0x100000 0x80000000 0x10000" by (simp add: dram_ok_def)
  then show ?thesis using pmm_run.boot [of "0x100000" "0x80000000" "0x10000" blank_pmm] by (simp add: board_boot)
qed

theorem pmm_run_safe_witness:
  "\<exists>s'. pmm_alloc board = (Inr 0x80002000, s') \<and> 0x80002000 \<notin> used_pages board \<and> pm_mem s' 0x80002ff8 = 0 \<and>
     pm_mem s' 0x80003000 = 7 \<and> unat (pm_free board) = card (pages_of board - used_pages board)"
proof -
  have "fst (pmm_alloc board) = Inr 0x80002000" by code_simp
  then obtain s' where s: "pmm_alloc board = (Inr 0x80002000, s')" by (metis prod.collapse)
  have "pm_mem (snd (pmm_alloc board)) 0x80003000 = 7" by code_simp
  moreover have "in_page 0x80002000 0x80002ff8" by (simp add: in_page_def)
  moreover have "0x80002000 \<notin> used_pages board"
    using pmm_alloc_ok(3) [OF _ s] pmm_run_inv [OF board_run] by blast
  ultimately show ?thesis using s pmm_run_safe [OF board_run] by auto
qed

text \<open>C30: Asking for \<open>n\<close> contiguous pages succeeds exactly when there is a run of \<open>n\<close> unused pages;
  the pages handed out are the lowest such run, they and nothing else become used, and memory is
  left as it was. Asking for no page is refused.\<close>

theorem alloc_n_correct:
  assumes "pmm_ok s"
  shows "case alloc_n n s of
      (Inl e, s') \<Rightarrow> s' = s \<and> (if n = 0 then e = EInval else e = ENoMem \<and> (\<forall>st. \<not> free_run s st n))
    | (Inr pa, s') \<Rightarrow>
        (\<exists>st. pa = page_at s st \<and> 0 < n \<and> free_run s st n \<and> (\<forall>m. m < st \<longrightarrow> \<not> free_run s m n)) \<and>
        pmm_ok s' \<and> used_pages s' = used_pages s \<union> (\<lambda>k. pa + of_nat k * PAGE_SIZE) ` {..<n} \<and>
        used_pages s \<inter> (\<lambda>k. pa + of_nat k * PAGE_SIZE) ` {..<n} = {} \<and> pm_mem s' = pm_mem s"
proof (cases "0 < n")
  case True
  then show ?thesis
  proof (cases rule: alloc_n_cases [of n s])
    case (some st)
    then show ?thesis using alloc_n_ok [OF assms some(3)] True by auto
  qed (use True in simp)
qed (simp add: alloc_n_def)

theorem alloc_n_correct_witness:
  "\<exists>s'. alloc_n 3 board = (Inr 0x80002000, s') \<and> pmm_ok s' \<and> pm_mem s' = pm_mem board \<and>
     fst (alloc_n 15 board) = Inl ENoMem"
proof -
  have ok: "pmm_ok board" using pmm_run_inv [OF board_run] by simp
  have "fst (alloc_n 3 board) = Inr 0x80002000" by code_simp
  then obtain s' where s: "alloc_n 3 board = (Inr 0x80002000, s')" by (metis prod.collapse)
  moreover have "fst (alloc_n 15 board) = Inl ENoMem" by code_simp
  ultimately show ?thesis using alloc_n_correct [OF ok, of 3] by simp
qed

end
