(* ===== verification/Vmm.thy ===== *)
theory Vmm
  imports Pmm
begin

text \<open>
  Sv39 page tables (\<open>src/kernel/src/mm/vmm\<close>). Tables live in pages of the physical allocator and
  are read and written through \<open>pm_mem\<close>, one 8-byte entry at a time, exactly at the addresses
  the kernel computes. The lemmas abstract a page table to the address space it describes,
  \<open>view\<close>: each virtual address is unmapped or has a physical address and permission flags.
\<close>

section \<open>Entries\<close>

definition PTE_V :: u64 where "PTE_V = 1"
definition PTE_R :: u64 where "PTE_R = 2"
definition PTE_W :: u64 where "PTE_W = 4"
definition PTE_X :: u64 where "PTE_X = 8"
definition PTE_U :: u64 where "PTE_U = 16"
definition PTE_G :: u64 where "PTE_G = 32"
definition PTE_A :: u64 where "PTE_A = 64"
definition PTE_D :: u64 where "PTE_D = 128"
definition PTE_LEAF :: u64 where "PTE_LEAF = PTE_R OR PTE_X"
definition PTE_PPN_SHIFT :: nat where "PTE_PPN_SHIFT = 10"
definition PTE_PPN_MASK :: u64 where "PTE_PPN_MASK = push_bit 10 (push_bit 44 1 - 1)"
definition PTE_FLAGS_MASK :: u64 where "PTE_FLAGS_MASK = 0x3FF"
definition SATP_MODE_SV39 :: u64 where "SATP_MODE_SV39 = push_bit 60 8"

definition sv39_l2_idx :: "u64 \<Rightarrow> nat" where
  "sv39_l2_idx va = unat (drop_bit 30 va AND 0x1FF)"

definition sv39_l1_idx :: "u64 \<Rightarrow> nat" where
  "sv39_l1_idx va = unat (drop_bit 21 va AND 0x1FF)"

definition sv39_l0_idx :: "u64 \<Rightarrow> nat" where
  "sv39_l0_idx va = unat (drop_bit 12 va AND 0x1FF)"

text \<open>The \<open>match level\<close> that selects the index, the offset mask and the step of a level.\<close>

definition sv39_idx :: "nat \<Rightarrow> u64 \<Rightarrow> nat" where
  "sv39_idx level va = (if level = 2 then sv39_l2_idx va else if level = 1 then sv39_l1_idx va else sv39_l0_idx va)"

definition level_bits :: "nat \<Rightarrow> nat" where
  "level_bits level = (if level = 2 then 30 else if level = 1 then 21 else 12)"

definition pte_slot :: "u64 \<Rightarrow> nat \<Rightarrow> u64" where
  "pte_slot table idx = table + of_nat idx * 8"

definition pte_target :: "u64 \<Rightarrow> u64" where
  "pte_target pte = push_bit 12 (drop_bit PTE_PPN_SHIFT (pte AND PTE_PPN_MASK))"

definition mk_pte :: "u64 \<Rightarrow> u64 \<Rightarrow> u64" where
  "mk_pte flags pa = PTE_V OR flags OR push_bit PTE_PPN_SHIFT (drop_bit 12 pa)"

definition store :: "u64 \<Rightarrow> u64 \<Rightarrow> pmm \<Rightarrow> pmm" where
  "store a v s = s\<lparr>pm_mem := (pm_mem s)(a := v)\<rparr>"

section \<open>Walking and mapping\<close>

definition split_leaf :: "u64 \<Rightarrow> u64 \<Rightarrow> nat \<Rightarrow> (pmm, errno, unit) kmonad" where
  "split_leaf parent_pte_ptr parent_pte parent_level =
     kbind alloc_zero (\<lambda>new_pa.
     let orig_ppn = drop_bit PTE_PPN_SHIFT (parent_pte AND PTE_PPN_MASK);
         flags = parent_pte AND PTE_FLAGS_MASK in
     if parent_level \<noteq> 2 \<and> parent_level \<noteq> 1 then kthrow EInval
     else let shift = (if parent_level = 2 then 21 else 12) in
       kseq (kfor [0..<512] (\<lambda>i.
               let sub_pa = push_bit 12 orig_ppn + of_nat i * push_bit shift 1 in
               kmodify (store (pte_slot new_pa i) (mk_pte flags sub_pa))))
            (kmodify (store parent_pte_ptr (mk_pte 0 new_pa))))"

fun walk_levels :: "nat list \<Rightarrow> u64 \<Rightarrow> bool \<Rightarrow> u64 \<Rightarrow> (pmm, errno, u64) kmonad" where
  "walk_levels [] vaddr create table_pa = kret table_pa"
| "walk_levels (level # ls) vaddr create table_pa =
     (let pte_ptr = pte_slot table_pa (sv39_idx level vaddr) in
      kbind (kread (\<lambda>s. pm_mem s pte_ptr)) (\<lambda>pte.
      if pte AND PTE_V = 0 then
        (if \<not> create then kthrow ENoEnt
         else kbind alloc_zero (\<lambda>new_pa.
              kseq (kmodify (store pte_ptr (mk_pte 0 new_pa)))
              (walk_levels ls vaddr create new_pa)))
      else if pte AND PTE_LEAF \<noteq> 0 then
        (if \<not> create then kthrow EInval
         else kseq (split_leaf pte_ptr pte level)
              (kbind (kread (\<lambda>s. pm_mem s pte_ptr)) (\<lambda>new_pte.
               walk_levels ls vaddr create (pte_target new_pte))))
      else walk_levels ls vaddr create (pte_target pte)))"

definition walk :: "u64 \<Rightarrow> u64 \<Rightarrow> nat \<Rightarrow> bool \<Rightarrow> (pmm, errno, u64) kmonad" where
  "walk root_pa vaddr leaf_level create =
     kbind (walk_levels (rev [leaf_level + 1..<3]) vaddr create root_pa) (\<lambda>table_pa.
     if 2 < leaf_level then kthrow EInval
     else kret (pte_slot table_pa (sv39_idx leaf_level vaddr)))"

definition map_one :: "u64 \<Rightarrow> u64 \<Rightarrow> u64 \<Rightarrow> u64 \<Rightarrow> nat \<Rightarrow> (pmm, errno, unit) kmonad" where
  "map_one root_pa vaddr paddr flags level =
     kbind (walk root_pa vaddr level True) (\<lambda>pte_ptr.
     kmodify (store pte_ptr (mk_pte flags paddr)))"

definition map_one_pub :: "u64 \<Rightarrow> u64 \<Rightarrow> u64 \<Rightarrow> u64 \<Rightarrow> nat \<Rightarrow> (pmm, errno, unit) kmonad" where
  "map_one_pub root_pa vaddr paddr flags level = map_one root_pa vaddr paddr flags level"

definition best_level :: "u64 \<Rightarrow> u64 \<Rightarrow> u64 \<Rightarrow> nat" where
  "best_level va pa remaining =
     (if push_bit 30 1 \<le> remaining \<and> va AND (push_bit 30 1 - 1) = 0 \<and> pa AND (push_bit 30 1 - 1) = 0 then 2
      else if push_bit 21 1 \<le> remaining \<and> va AND (push_bit 21 1 - 1) = 0 \<and> pa AND (push_bit 21 1 - 1) = 0 then 1
      else 0)"

text \<open>Each round of \<open>map\<close> takes \<open>min(chunk, remaining)\<close> bytes, so the loop ends.\<close>

definition map_chunk :: "u64 \<Rightarrow> u64 \<Rightarrow> u64 \<Rightarrow> u64" where
  "map_chunk va pa remaining = min (push_bit (level_bits (best_level va pa remaining)) 1) remaining"

lemma map_chunk_pos: "remaining \<noteq> 0 \<Longrightarrow> unat (remaining - map_chunk va pa remaining) < unat remaining"
proof -
  assume r: "remaining \<noteq> 0"
  have "map_chunk va pa remaining \<le> remaining" by (simp add: map_chunk_def)
  moreover have "map_chunk va pa remaining \<noteq> 0"
    using r by (auto simp: map_chunk_def level_bits_def min_def)
  moreover from calculation(2) have "0 < unat (map_chunk va pa remaining)" by (simp add: unat_gt_0)
  ultimately show ?thesis by (simp add: unat_sub word_le_nat_alt)
qed

function map_loop :: "u64 \<Rightarrow> u64 \<Rightarrow> u64 \<Rightarrow> u64 \<Rightarrow> u64 \<Rightarrow> (pmm, errno, unit) kmonad" where
  "map_loop root_pa flags va pa remaining =
     (if remaining = 0 then kret ()
      else let chunk = map_chunk va pa remaining in
        kseq (map_one root_pa va pa (flags OR PTE_A OR PTE_D) (best_level va pa remaining))
             (map_loop root_pa flags (va + chunk) (pa + chunk) (remaining - chunk)))"
  by auto
termination by (relation "measure (\<lambda>(_, _, _, _, r). unat r)") (simp_all add: map_chunk_pos)

definition vmap :: "u64 \<Rightarrow> u64 \<Rightarrow> u64 \<Rightarrow> u64 \<Rightarrow> u64 \<Rightarrow> (pmm, errno, unit) kmonad" where
  "vmap root_pa vaddr paddr sz flags = map_loop root_pa flags vaddr paddr sz"

text \<open>\<open>map_anon\<close> and \<open>unmap\<close> count down by whole pages and stop at exactly zero, so for a size that
  is not a multiple of the page size the counter wraps; \<open>None\<close> is a loop that never ends.\<close>

partial_function (option) map_anon :: "u64 \<Rightarrow> u64 \<Rightarrow> u64 \<Rightarrow> u64 \<Rightarrow> pmm \<Rightarrow> ((errno + unit) \<times> pmm) option" where
  "map_anon root_pa va remaining flags s =
     (if remaining = 0 then Some (Inr (), s)
      else case kbind alloc_zero (\<lambda>page_pa. map_one root_pa va page_pa (flags OR PTE_A OR PTE_D) 0) s of
        (Inl e, s') \<Rightarrow> Some (Inl e, s')
      | (Inr _, s') \<Rightarrow> map_anon root_pa (va + push_bit 12 1) (remaining - push_bit 12 1) flags s')"

definition unmap_one :: "u64 \<Rightarrow> u64 \<Rightarrow> (pmm, errno, unit) kmonad" where
  "unmap_one root_pa va =
     kbind (walk root_pa va 0 False) (\<lambda>pte_ptr.
     kbind (kread (\<lambda>s. pm_mem s pte_ptr)) (\<lambda>pte.
     kseq (kwhen (pte AND PTE_V \<noteq> 0 \<and> pte AND PTE_U \<noteq> 0) (kmodify (pmm_free (pte_target pte))))
          (kmodify (store pte_ptr 0))))"

partial_function (option) unmap :: "u64 \<Rightarrow> u64 \<Rightarrow> u64 \<Rightarrow> pmm \<Rightarrow> ((errno + unit) \<times> pmm) option" where
  "unmap root_pa va remaining s =
     (if remaining = 0 then Some (Inr (), s)
      else case unmap_one root_pa va s of
        (Inl e, s') \<Rightarrow> Some (Inl e, s')
      | (Inr _, s') \<Rightarrow> unmap root_pa (va + 4096) (remaining - 4096) s')"

section \<open>Translation and teardown\<close>

fun translate_levels :: "nat list \<Rightarrow> u64 \<Rightarrow> pmm \<Rightarrow> u64 \<Rightarrow> u64" where
  "translate_levels [] vaddr s pa = 0"
| "translate_levels (level # ls) vaddr s pa =
     (let pte = pm_mem s (pte_slot pa (sv39_idx level vaddr)) in
      if pte AND PTE_V = 0 then 0
      else if pte AND PTE_LEAF \<noteq> 0 then
        let leaf_ppn = drop_bit PTE_PPN_SHIFT (pte AND PTE_PPN_MASK);
            off = vaddr AND (push_bit (level_bits level) 1 - 1)
        in push_bit 12 leaf_ppn + off
      else translate_levels ls vaddr s (pte_target pte))"

definition translate :: "u64 \<Rightarrow> u64 \<Rightarrow> pmm \<Rightarrow> u64" where
  "translate root_pa vaddr s = translate_levels (rev [0..<3]) vaddr s root_pa"

fun translate_user_levels :: "nat list \<Rightarrow> u64 \<Rightarrow> pmm \<Rightarrow> u64 \<Rightarrow> u64" where
  "translate_user_levels [] vaddr s pa = 0"
| "translate_user_levels (level # ls) vaddr s pa =
     (let pte = pm_mem s (pte_slot pa (sv39_idx level vaddr)) in
      if pte AND PTE_V = 0 then 0
      else if pte AND PTE_LEAF \<noteq> 0 then
        if pte AND PTE_U = 0 then 0
        else
          let leaf_ppn = drop_bit PTE_PPN_SHIFT (pte AND PTE_PPN_MASK);
              off = vaddr AND (push_bit (level_bits level) 1 - 1)
          in push_bit 12 leaf_ppn + off
      else translate_user_levels ls vaddr s (pte_target pte))"

definition translate_user :: "u64 \<Rightarrow> u64 \<Rightarrow> pmm \<Rightarrow> u64" where
  "translate_user root_pa vaddr s = translate_user_levels (rev [0..<3]) vaddr s root_pa"

definition new_root :: "(pmm, errno, u64) kmonad" where
  "new_root = alloc_zero"

fun free_subtree :: "nat \<Rightarrow> u64 \<Rightarrow> pmm \<Rightarrow> pmm" where
  "free_subtree level table s =
     fold (\<lambda>i s.
       let pte = pm_mem s (pte_slot table i) in
       if pte AND PTE_V = 0 then s
       else if pte AND PTE_LEAF \<noteq> 0 then
         if pte AND PTE_U \<noteq> 0 then pmm_free (pte_target pte) s else s
       else if 0 < level then pmm_free (pte_target pte) (free_subtree (level - 1) (pte_target pte) s)
       else s) [0..<512] s"

definition destroy_root :: "u64 \<Rightarrow> pmm \<Rightarrow> pmm" where
  "destroy_root root_pa s = pmm_free root_pa (free_subtree 2 root_pa s)"

text \<open>The kernel's own address space: \<open>G_KERNEL_ROOT_PA\<close> (kept twice) and the \<open>satp\<close> register.\<close>

record vmm =
  vm_pmm :: pmm
  vm_kernel_root :: u64
  vm_smp_root :: u64
  vm_satp :: u64

definition install_root :: "u64 \<Rightarrow> vmm \<Rightarrow> vmm" where
  "install_root root_pa v = v\<lparr>vm_satp := SATP_MODE_SV39 OR drop_bit 12 root_pa\<rparr>"

definition vmm_init :: "(vmm, errno, u64) kmonad" where
  "vmm_init v =
     (case new_root (vm_pmm v) of
        (Inl e, s) \<Rightarrow> (Inl e, v\<lparr>vm_pmm := s\<rparr>)
      | (Inr root_pa, s) \<Rightarrow>
          let leaf_flags = PTE_V OR PTE_R OR PTE_W OR PTE_X OR PTE_A OR PTE_D;
              s = fold (\<lambda>i. store (pte_slot root_pa i) (mk_pte leaf_flags (push_bit 30 (of_nat i)))) [0..<3] s
          in (Inr root_pa, install_root root_pa (v\<lparr>vm_pmm := s, vm_smp_root := root_pa, vm_kernel_root := root_pa\<rparr>)))"

definition kernel_root :: "vmm \<Rightarrow> u64" where
  "kernel_root v = vm_kernel_root v"

declare free_subtree.simps [simp del] map_loop.simps [simp del]

section \<open>Entries, bit by bit\<close>

lemma and_V_iff [simp]: "x AND PTE_V = 0 \<longleftrightarrow> \<not> bit x 0"
  using and_exp_eq_0_iff_not_bit [of x 0] by (simp add: PTE_V_def)

lemma and_U_iff [simp]: "x AND PTE_U = 0 \<longleftrightarrow> \<not> bit x 4"
  using and_exp_eq_0_iff_not_bit [of x 4] by (simp add: PTE_U_def)

lemma and_LEAF_iff [simp]: "x AND PTE_LEAF = 0 \<longleftrightarrow> \<not> bit x 1 \<and> \<not> bit x 3"
proof -
  have l: "PTE_LEAF = 2 ^ 1 OR 2 ^ 3" by (simp add: PTE_LEAF_def PTE_R_def PTE_X_def)
  have "x AND PTE_LEAF = (x AND 2 ^ 1) OR (x AND 2 ^ 3)" unfolding l by (rule bit.conj_disj_distrib)
  then have "x AND PTE_LEAF = 0 \<longleftrightarrow> x AND 2 ^ 1 = 0 \<and> x AND 2 ^ 3 = 0" by (simp only: or_eq_0_iff)
  then show ?thesis by (simp only: and_exp_eq_0_iff_not_bit)
qed

lemma bit_PPN_MASK: "bit PTE_PPN_MASK i \<longleftrightarrow> 10 \<le> i \<and> i < 54"
proof -
  have m: "PTE_PPN_MASK = push_bit 10 (mask 44)" by (simp add: PTE_PPN_MASK_def mask_eq_exp_minus_1)
  show ?thesis unfolding m by (auto simp: bit_push_bit_iff bit_mask_iff)
qed

lemma bit_FLAGS_MASK: "bit PTE_FLAGS_MASK i \<longleftrightarrow> i < 10"
proof -
  have m: "PTE_FLAGS_MASK = mask 10" by (simp add: PTE_FLAGS_MASK_def mask_eq_exp_minus_1)
  show ?thesis unfolding m by (auto simp: bit_mask_iff)
qed

lemma bit_pte_target: "bit (pte_target pte) i \<longleftrightarrow> 12 \<le> i \<and> i < 56 \<and> bit pte (i - 2)"
  by (auto simp: pte_target_def PTE_PPN_SHIFT_def bit_push_bit_iff bit_drop_bit_eq bit_and_iff bit_PPN_MASK)

lemma bit_mk_pte: "bit (mk_pte fl pa) i \<longleftrightarrow> i = 0 \<or> bit fl i \<or> 10 \<le> i \<and> bit pa (i + 2) \<and> i < 64"
  by (auto simp: mk_pte_def PTE_V_def PTE_PPN_SHIFT_def bit_or_iff bit_push_bit_iff bit_drop_bit_eq bit_1_iff)

lemma unat_take_bit_nat: "unat (take_bit n x :: u64) = unat x mod 2 ^ n"
  by (simp only: unsigned_take_bit_eq) (simp only: take_bit_eq_mod)

definition flags_ok :: "u64 \<Rightarrow> bool" where
  "flags_ok fl \<longleftrightarrow> fl = take_bit 10 fl"

definition frame_ok :: "u64 \<Rightarrow> bool" where
  "frame_ok pa \<longleftrightarrow> 4096 dvd unat pa \<and> unat pa < 2 ^ 56"

lemma flags_ok_bit: "flags_ok fl \<Longrightarrow> bit fl i \<Longrightarrow> i < 10"
  by (metis bit_take_bit_iff flags_ok_def)

lemma flags_ok_0 [simp]: "flags_ok 0"
  by (simp add: flags_ok_def)

lemma flags_ok_mask [simp]: "flags_ok (pte AND PTE_FLAGS_MASK)"
  unfolding flags_ok_def by (rule bit_word_eqI) (auto simp: bit_take_bit_iff bit_and_iff bit_FLAGS_MASK)

lemma frame_ok_bit: "frame_ok pa \<Longrightarrow> bit pa i \<Longrightarrow> 12 \<le> i \<and> i < 56"
proof -
  assume f: "frame_ok pa" and b: "bit pa i"
  have "take_bit 12 pa = 0" using f by (simp add: frame_ok_def word_unat_eq_iff unat_take_bit_nat dvd_eq_mod_eq_0)
  then have "12 \<le> i" using b by (metis bit_0_eq bit_take_bit_iff bot_apply bot_bool_def not_less)
  moreover have "take_bit 56 pa = pa"
    using f by (simp add: frame_ok_def word_unat_eq_iff unat_take_bit_nat)
  then have "i < 56" using b by (metis bit_take_bit_iff)
  ultimately show ?thesis by simp
qed

lemma Suc_Suc_diff_2 [simp]: "2 \<le> n \<Longrightarrow> Suc (Suc (n - 2)) = n"
  by simp

lemma target_mk_pte: "flags_ok fl \<Longrightarrow> frame_ok pa \<Longrightarrow> pte_target (mk_pte fl pa) = pa"
  by (rule bit_word_eqI) (auto simp: bit_pte_target bit_mk_pte dest: flags_ok_bit frame_ok_bit)

lemma flags_mk_pte: "flags_ok fl \<Longrightarrow> mk_pte fl pa AND PTE_FLAGS_MASK = PTE_V OR fl"
  by (rule bit_word_eqI)
    (auto simp: bit_mk_pte bit_and_iff bit_or_iff bit_FLAGS_MASK PTE_V_def bit_1_iff dest: flags_ok_bit)

lemma frame_ok_target: "frame_ok (pte_target pte)"
proof -
  have "take_bit 12 (pte_target pte) = 0" "take_bit 56 (pte_target pte) = pte_target pte"
    by (rule bit_word_eqI, auto simp: bit_take_bit_iff bit_pte_target)+
  then have "unat (take_bit 12 (pte_target pte)) = 0" "unat (take_bit 56 (pte_target pte)) = unat (pte_target pte)"
    by simp_all
  then show ?thesis
    by (simp add: frame_ok_def unat_take_bit_nat dvd_eq_mod_eq_0 mod_eq_self_iff_div_eq_0 div_eq_0_iff)
qed

lemma sv39_idx_less: "sv39_idx l va < 512"
proof -
  have "unat (x AND 0x1FF :: u64) < 512" for x
  proof -
    have "x AND 0x1FF \<le> 0x1FF" by (rule word_and_le1)
    then show ?thesis by (simp add: word_le_nat_alt)
  qed
  then show ?thesis by (simp add: sv39_idx_def sv39_l2_idx_def sv39_l1_idx_def sv39_l0_idx_def)
qed

section \<open>Slots\<close>

lemma in_page_slot: "i < 512 \<Longrightarrow> in_page t (pte_slot t i)"
  by (simp add: in_page_def pte_slot_def unat_word_ariths unat_of_nat)

lemma slot_inj_page: "i < 512 \<Longrightarrow> j < 512 \<Longrightarrow> pte_slot t i = pte_slot t j \<longleftrightarrow> i = j"
proof -
  assume l: "i < 512" "j < 512"
  have "unat (of_nat k * 8 :: u64) = k * 8" if "k < 512" for k using that by (simp add: unat_word_ariths unat_of_nat)
  then show ?thesis using l unfolding pte_slot_def by (metis add_left_cancel mult_right_cancel zero_neq_numeral)
qed

section \<open>The tree of tables and the address space it describes\<close>

definition leaf_pte :: "u64 \<Rightarrow> bool" where
  "leaf_pte e \<longleftrightarrow> bit e 0 \<and> (bit e 1 \<or> bit e 3)"

definition table_pte :: "u64 \<Rightarrow> bool" where
  "table_pte e \<longleftrightarrow> bit e 0 \<and> \<not> bit e 1 \<and> \<not> bit e 3"

definition child :: "(u64 \<Rightarrow> u64) \<Rightarrow> u64 \<Rightarrow> nat \<Rightarrow> u64 option" where
  "child m t i = (if table_pte (m (pte_slot t i)) then Some (pte_target (m (pte_slot t i))) else None)"

fun tbl :: "(u64 \<Rightarrow> u64) \<Rightarrow> u64 \<Rightarrow> nat list \<Rightarrow> u64 option" where
  "tbl m t [] = Some t"
| "tbl m t (i # p) = (case child m t i of None \<Rightarrow> None | Some t' \<Rightarrow> tbl m t' p)"

definition is_path :: "nat list \<Rightarrow> bool" where
  "is_path p \<longleftrightarrow> length p \<le> 2 \<and> (\<forall>i\<in>set p. i < 512)"

text \<open>The tables form a tree of pages in use, and no large leaf reaches past the end of the
  56-bit physical address space.\<close>

definition pt_ok :: "pmm \<Rightarrow> u64 \<Rightarrow> bool" where
  "pt_ok s root \<longleftrightarrow>
     pmm_ok s \<and> unat (pm_base s) + 4096 * unat (pm_total s) \<le> 2 ^ 56 \<and>
     (\<forall>p t. is_path p \<and> tbl (pm_mem s) root p = Some t \<longrightarrow> t \<in> used_pages s) \<and>
     (\<forall>p q t. is_path p \<and> is_path q \<and> tbl (pm_mem s) root p = Some t \<and> tbl (pm_mem s) root q = Some t \<longrightarrow> p = q) \<and>
     (\<forall>p t i. is_path p \<and> length p \<le> 1 \<and> tbl (pm_mem s) root p = Some t \<and> i < 512 \<and> leaf_pte (pm_mem s (pte_slot t i)) \<longrightarrow>
        unat (pte_target (pm_mem s (pte_slot t i))) + 2 ^ level_bits (2 - length p) \<le> 2 ^ 56)"

fun vlook :: "(u64 \<Rightarrow> u64) \<Rightarrow> u64 \<Rightarrow> u64 \<Rightarrow> nat list \<Rightarrow> (nat \<times> u64) option" where
  "vlook m va t [] = None"
| "vlook m va t (l # ls) =
     (let e = m (pte_slot t (sv39_idx l va)) in
      if leaf_pte e then Some (l, e) else if table_pte e then vlook m va (pte_target e) ls else None)"

definition leaf_view :: "u64 \<Rightarrow> nat \<times> u64 \<Rightarrow> u64 \<times> u64" where
  "leaf_view va le = (case le of (l, e) \<Rightarrow>
     (pte_target e + (va AND (push_bit (level_bits l) 1 - 1)), e AND PTE_FLAGS_MASK))"

definition view :: "pmm \<Rightarrow> u64 \<Rightarrow> u64 \<Rightarrow> (u64 \<times> u64) option" where
  "view s root va = map_option (leaf_view va) (vlook (pm_mem s) va root [2, 1, 0])"

definition idxs :: "u64 \<Rightarrow> nat list \<Rightarrow> nat list" where
  "idxs va ls = map (\<lambda>l. sv39_idx l va) ls"

lemma rev_levels: "rev [0..<3] = [2, 1, 0 :: nat]" "rev [Suc 0..<3] = [2, 1 :: nat]" "rev [2..<3] = [2 :: nat]"
  "rev [3..<3] = ([] :: nat list)"
  by (simp_all add: upt_rec numeral_2_eq_2 numeral_3_eq_3)

lemma translate_levels_view:
  "translate_levels ls va s t = (case vlook (pm_mem s) va t ls of None \<Rightarrow> 0 | Some le \<Rightarrow> fst (leaf_view va le))"
proof (induction ls arbitrary: t)
  case (Cons l ls)
  then show ?case by (auto simp: Let_def leaf_pte_def table_pte_def leaf_view_def pte_target_def)
qed simp

lemma translate_view: "translate root va s = (case view s root va of None \<Rightarrow> 0 | Some (pa, fl) \<Rightarrow> pa)"
  unfolding translate_def rev_levels translate_levels_view view_def
  by (auto simp: case_prod_beta simp del: vlook.simps split: option.splits)

lemma translate_user_levels_view:
  "translate_user_levels ls va s t =
     (case vlook (pm_mem s) va t ls of None \<Rightarrow> 0
      | Some le \<Rightarrow> if snd (leaf_view va le) AND PTE_U = 0 then 0 else fst (leaf_view va le))"
proof (induction ls arbitrary: t)
  case (Cons l ls)
  have "(e AND PTE_FLAGS_MASK) AND PTE_U = 0 \<longleftrightarrow> \<not> bit e 4" for e
    by (simp add: bit_and_iff bit_FLAGS_MASK)
  then show ?case using Cons by (auto simp: Let_def leaf_pte_def table_pte_def leaf_view_def pte_target_def)
qed simp

lemma translate_user_view:
  "translate_user root va s = (case view s root va of None \<Rightarrow> 0 | Some (pa, fl) \<Rightarrow> if bit fl 4 then pa else 0)"
  unfolding translate_user_def rev_levels translate_user_levels_view view_def
  by (auto simp: case_prod_beta simp del: vlook.simps split: option.splits)

lemma tbl_append: "tbl m t (p @ q) = (case tbl m t p of None \<Rightarrow> None | Some t' \<Rightarrow> tbl m t' q)"
  by (induction p arbitrary: t) (auto split: option.splits)

lemma tbl_snoc: "tbl m t (p @ [i]) = (case tbl m t p of None \<Rightarrow> None | Some t' \<Rightarrow> child m t' i)"
  by (auto simp: tbl_append split: option.splits)

lemma is_path_append: "is_path (p @ q) \<Longrightarrow> is_path p"
  by (auto simp: is_path_def)

lemma is_path_idxs: "length ls \<le> 2 \<Longrightarrow> is_path (idxs va ls)"
  by (auto simp: is_path_def idxs_def sv39_idx_less)

lemma vlook_append:
  "tbl m t (idxs va ls) = Some t' \<Longrightarrow> vlook m va t (ls @ ls') = vlook m va t' ls'"
  by (induction ls arbitrary: t) (auto simp: idxs_def child_def Let_def table_pte_def leaf_pte_def split: if_splits)

lemma vlook_cong:
  assumes "\<forall>ls1 l ls2 t. ls = ls1 @ l # ls2 \<and> tbl m t0 (idxs va ls1) = Some t \<longrightarrow>
    m' (pte_slot t (sv39_idx l va)) = m (pte_slot t (sv39_idx l va))"
  shows "vlook m' va t0 ls = vlook m va t0 ls"
  using assms
proof (induction ls arbitrary: t0)
  case (Cons l ls)
  let ?e = "m (pte_slot t0 (sv39_idx l va))"
  have e: "m' (pte_slot t0 (sv39_idx l va)) = ?e" using Cons.prems by (force simp: idxs_def)
  have "vlook m' va (pte_target ?e) ls = vlook m va (pte_target ?e) ls" if "table_pte ?e"
  proof (rule Cons.IH, intro allI impI)
    fix ls1 l' ls2 t assume "ls = ls1 @ l' # ls2 \<and> tbl m (pte_target ?e) (idxs va ls1) = Some t"
    then show "m' (pte_slot t (sv39_idx l' va)) = m (pte_slot t (sv39_idx l' va))"
      using Cons.prems [rule_format, of "l # ls1" l' ls2 t] that by (simp add: idxs_def child_def)
  qed
  then show ?case using e by (simp add: Let_def)
qed simp

lemma pt_okD:
  assumes "pt_ok s root"
  shows "pmm_ok s" and "unat (pm_base s) + 4096 * unat (pm_total s) \<le> 2 ^ 56"
    and "is_path p \<Longrightarrow> tbl (pm_mem s) root p = Some t \<Longrightarrow> t \<in> used_pages s"
    and "is_path p \<Longrightarrow> is_path q \<Longrightarrow> tbl (pm_mem s) root p = Some t \<Longrightarrow> tbl (pm_mem s) root q = Some t \<Longrightarrow> p = q"
    and "is_path p \<Longrightarrow> length p \<le> 1 \<Longrightarrow> tbl (pm_mem s) root p = Some t \<Longrightarrow> i < 512 \<Longrightarrow> leaf_pte (pm_mem s (pte_slot t i)) \<Longrightarrow>
      unat (pte_target (pm_mem s (pte_slot t i))) + 2 ^ level_bits (2 - length p) \<le> 2 ^ 56"
  using assms unfolding pt_ok_def by blast+

lemma pool_frame_ok: "pt_ok s root \<Longrightarrow> pa \<in> pages_of s \<Longrightarrow> frame_ok pa"
proof -
  assume ok: "pt_ok s root" and "pa \<in> pages_of s"
  then obtain i where i: "i < unat (pm_total s)" "pa = page_at s i" by (auto simp: pages_of_def)
  note [simp] = unat_page_at [OF pt_okD(1) [OF ok] i(1)]
  have "unat pa < 2 ^ 56" using pt_okD(2) [OF ok] i by simp
  then show ?thesis using page_aligned [OF pt_okD(1) [OF ok]] \<open>pa \<in> pages_of s\<close> by (simp add: frame_ok_def)
qed

lemma slot_eq_iff:
  assumes "pmm_ok s" and "t \<in> pages_of s" and "t' \<in> pages_of s" and "i < 512" and "j < 512"
  shows "pte_slot t i = pte_slot t' j \<longleftrightarrow> t = t' \<and> i = j"
  using pages_disjoint [OF assms(1-3), of "pte_slot t i"] in_page_slot [OF assms(4), of t]
    in_page_slot [OF assms(5), of t'] slot_inj_page [OF assms(4,5), of t] by auto

lemma tbl_used_pages: "pt_ok s root \<Longrightarrow> is_path p \<Longrightarrow> tbl (pm_mem s) root p = Some t \<Longrightarrow> t \<in> pages_of s"
  using pt_okD(3) used_subset by blast

text \<open>\<open>m'\<close> differs from the memory of \<open>s\<close>, as far as its tables are concerned, at most in entry
  \<open>i\<close> of the table at path \<open>p\<close>.\<close>

definition agree_but :: "pmm \<Rightarrow> u64 \<Rightarrow> (u64 \<Rightarrow> u64) \<Rightarrow> nat list \<Rightarrow> nat \<Rightarrow> bool" where
  "agree_but s root m' p i \<longleftrightarrow>
     (\<forall>q t j. is_path q \<and> tbl (pm_mem s) root q = Some t \<and> j < 512 \<and> (q, j) \<noteq> (p, i) \<longrightarrow>
        m' (pte_slot t j) = pm_mem s (pte_slot t j))"

lemma agree_tbl:
  assumes "agree_but s root m' p i" and "is_path q" and "\<forall>r. q \<noteq> p @ i # r"
  shows "tbl m' root q = tbl (pm_mem s) root q"
  using assms(2,3)
proof (induction q rule: rev_induct)
  case (snoc j q)
  have q: "is_path q" "\<forall>r. q \<noteq> p @ i # r" and "(q, j) \<noteq> (p, i)" "j < 512"
    using snoc.prems by (auto simp: is_path_def)
  then show ?case using snoc.IH [OF q] assms(1)
    by (auto simp: tbl_snoc child_def agree_but_def split: option.splits)
qed simp

lemma agree_vlook:
  assumes "agree_but s root m' p i" and "length p \<le> 2" and "\<forall>r. idxs va [2, 1, 0] \<noteq> p @ i # r"
  shows "vlook m' va root [2, 1, 0] = vlook (pm_mem s) va root [2, 1, 0]"
proof (rule vlook_cong, intro allI impI)
  fix ls1 l ls2 t assume a: "[2, 1, 0] = ls1 @ l # ls2 \<and> tbl (pm_mem s) root (idxs va ls1) = Some t"
  then have eq: "idxs va [2, 1, 0] = idxs va ls1 @ sv39_idx l va # idxs va ls2" by (simp add: idxs_def)
  have "length ls1 \<le> 2" using arg_cong [OF conjunct1 [OF a], of length] by simp
  then have path: "is_path (idxs va ls1)" by (rule is_path_idxs)
  have "(idxs va ls1, sv39_idx l va) \<noteq> (p, i)" using assms(3) eq by auto
  then show "m' (pte_slot t (sv39_idx l va)) = pm_mem s (pte_slot t (sv39_idx l va))"
    using assms(1) a path sv39_idx_less unfolding agree_but_def by blast
qed

text \<open>Entry \<open>i\<close> of the table at \<open>p\<close> becomes a pointer to a fresh page \<open>n\<close> whose entries are no
  table pointers.\<close>

lemma attach_table:
  assumes ok: "pt_ok s root" and path: "is_path (p @ [i])" and t: "tbl (pm_mem s) root p = Some t"
    and n: "n \<in> pages_of s - used_pages s" and s': "pmm_ok s'" "pm_base s' = pm_base s" "pm_total s' = pm_total s"
      "used_pages s' = insert n (used_pages s)"
    and slot: "pm_mem s' (pte_slot t i) = mk_pte 0 n"
    and agree: "agree_but s root (pm_mem s') p i"
    and fresh: "\<forall>j<512. \<not> table_pte (pm_mem s' (pte_slot n j))"
    and leaves: "\<forall>j<512. p = [] \<and> leaf_pte (pm_mem s' (pte_slot n j)) \<longrightarrow>
       unat (pte_target (pm_mem s' (pte_slot n j))) + 2 ^ 21 \<le> 2 ^ 56"
  shows "pt_ok s' root" and "tbl (pm_mem s') root (p @ [i]) = Some n"
proof -
  let ?m = "pm_mem s" and ?m' = "pm_mem s'"
  have tp: "tbl ?m' root p = Some t" using agree_tbl [OF agree, of p] path t by (auto intro: is_path_append)
  have tgt: "pte_target (mk_pte 0 n) = n" using pool_frame_ok [OF ok] n by (simp add: target_mk_pte)
  have c: "child ?m' t i = Some n" using slot tgt by (simp add: child_def table_pte_def bit_mk_pte)
  show at: "tbl ?m' root (p @ [i]) = Some n" by (simp add: tbl_snoc tp c)
  have deeper: "tbl ?m' root (p @ i # r) = (if r = [] then Some n else None)" if "is_path (p @ i # r)" for r
  proof (cases r)
    case (Cons j r')
    then have "j < 512" using that by (simp add: is_path_def)
    then have "child ?m' n j = None" using fresh by (simp add: child_def)
    then show ?thesis using Cons tp c by (simp add: tbl_append)
  qed (use at in simp)
  have cases: "tbl ?m' root q = Some u \<Longrightarrow> is_path q \<Longrightarrow> (q = p @ [i] \<and> u = n) \<or> (tbl ?m root q = Some u \<and> u \<in> used_pages s \<and> (\<forall>r. q \<noteq> p @ i # r))" for q u
    using deeper agree_tbl [OF agree, of q] pt_okD(3) [OF ok, of q u] by (metis option.distinct(1) option.inject)
  have big: "unat (pte_target (?m' (pte_slot u j))) + 2 ^ level_bits (2 - length q) \<le> 2 ^ 56"
    if "is_path q" "length q \<le> 1" "tbl ?m' root q = Some u" "j < 512" "leaf_pte (?m' (pte_slot u j))" for q u j
    using cases [OF that(3,1)]
  proof
    assume "q = p @ [i] \<and> u = n"
    then show ?thesis using leaves that by (simp add: level_bits_def)
  next
    assume a: "tbl ?m root q = Some u \<and> u \<in> used_pages s \<and> (\<forall>r. q \<noteq> p @ i # r)"
    show ?thesis
    proof (cases "(q, j) = (p, i)")
      case True
      then have "u = t" using a t by simp
      then show ?thesis using True that(5) slot by (simp add: leaf_pte_def bit_mk_pte)
    next
      case False
      then have "?m' (pte_slot u j) = ?m (pte_slot u j)" using agree that a by (auto simp: agree_but_def)
      then show ?thesis using pt_okD(5) [OF ok that(1,2), of u j] a that(4,5) by simp
    qed
  qed
  show "pt_ok s' root" unfolding pt_ok_def
  proof (intro conjI allI impI)
    show "pmm_ok s'" by fact
    show "unat (pm_base s') + 4096 * unat (pm_total s') \<le> 2 ^ 56" using pt_okD(2) [OF ok] s' by simp
    fix q u assume "is_path q \<and> tbl ?m' root q = Some u"
    then show "u \<in> used_pages s'" using cases [of q u] s'(4) by blast
  next
    fix q r u assume "is_path q \<and> is_path r \<and> tbl ?m' root q = Some u \<and> tbl ?m' root r = Some u"
    then show "q = r" using cases [of q u] cases [of r u] n pt_okD(4) [OF ok, of q r u] by blast
  next
    fix q u j assume "is_path q \<and> length q \<le> 1 \<and> tbl ?m' root q = Some u \<and> j < 512 \<and> leaf_pte (?m' (pte_slot u j))"
    then show "unat (pte_target (?m' (pte_slot u j))) + 2 ^ level_bits (2 - length q) \<le> 2 ^ 56" using big by blast
  qed
qed

text \<open>The address space when entry \<open>i\<close> of the table at \<open>p\<close> is replaced: addresses that do not go
  through it keep their translation, the others continue from the new entry.\<close>

lemma vlook_through:
  assumes "tbl m root (idxs va ls1) = Some t"
  shows "vlook m va root (ls1 @ l # ls2) = vlook m va t (l # ls2)"
  by (rule vlook_append) fact

lemma levels_split:
  assumes "length p \<le> 2" and "idxs va [2, 1, 0] = p @ i # r"
  shows "[2, 1, 0] = rev [3 - length p..<3] @ (2 - length p) # rev [0..<2 - length p] \<and>
    p = idxs va (rev [3 - length p..<3]) \<and> i = sv39_idx (2 - length p) va \<and> r = idxs va (rev [0..<2 - length p])"
proof -
  consider "p = []" | a where "p = [a]" | a b where "p = [a, b]"
    using assms(1) by (metis One_nat_def Suc_1 Suc_le_length_iff le_zero_eq length_0_conv not_less_eq_eq
        list.exhaust list.size(3))
  then show ?thesis
    using assms(2) by cases (auto simp: idxs_def upt_rec numeral_2_eq_2 numeral_3_eq_3)
qed

lemma low_mask: "va AND (push_bit n 1 - 1) = take_bit n (va :: u64)"
  by (simp add: take_bit_eq_mask mask_eq_exp_minus_1)

lemma sv39_idx_bits: "l \<le> 2 \<Longrightarrow> of_nat (sv39_idx l va) = take_bit 9 (drop_bit (level_bits l) va)"
proof -
  have "x AND 0x1FF = take_bit 9 x" for x :: u64 by (simp add: take_bit_eq_mask mask_eq_exp_minus_1)
  moreover assume "l \<le> 2"
  ultimately show ?thesis
    by (auto simp: sv39_idx_def sv39_l2_idx_def sv39_l1_idx_def sv39_l0_idx_def level_bits_def)
qed

text \<open>An offset in a large page is the index of a smaller page in it and an offset there.\<close>

lemma offset_split:
  assumes "l = 2 \<or> l = 1"
  shows "of_nat (sv39_idx (l - 1) va) * push_bit (level_bits (l - 1)) 1 + take_bit (level_bits (l - 1)) va
    = take_bit (level_bits l) (va :: u64)"
proof -
  let ?n = "level_bits (l - 1)"
  have n: "level_bits l = ?n + 9" using assms by (auto simp: level_bits_def)
  have "of_nat (sv39_idx (l - 1) va) = take_bit 9 (drop_bit ?n va)" using assms by (intro sv39_idx_bits) auto
  then have e: "of_nat (sv39_idx (l - 1) va) * push_bit ?n 1 = push_bit ?n (take_bit 9 (drop_bit ?n va))"
    by (simp add: push_bit_eq_mult)
  have "push_bit ?n (take_bit 9 (drop_bit ?n va)) + take_bit ?n va
      = push_bit ?n (take_bit 9 (drop_bit ?n va)) OR take_bit ?n va"
    by (rule disjunctive_add_eq_or, rule bit_word_eqI) (auto simp: bit_and_iff bit_push_bit_iff bit_take_bit_iff)
  also have "\<dots> = take_bit (level_bits l) va"
    unfolding n by (rule bit_word_eqI) (auto simp: bit_or_iff bit_push_bit_iff bit_take_bit_iff bit_drop_bit_eq)
  finally show ?thesis unfolding e .
qed

section \<open>Splitting a leaf\<close>

lemma kfor_modify: "kfor xs (\<lambda>x. kmodify (f x)) s = (Inr (), fold f xs s)"
  by (induction xs arbitrary: s) (simp_all add: kseq_def)

lemma fold_store:
  "fold (\<lambda>i. store (a i) (g i)) xs s = s\<lparr>pm_mem := fold (\<lambda>i m. m(a i := g i)) xs (pm_mem s)\<rparr>"
  by (induction xs arbitrary: s) (simp_all add: store_def)

definition fill :: "u64 \<Rightarrow> (nat \<Rightarrow> u64) \<Rightarrow> (u64 \<Rightarrow> u64) \<Rightarrow> u64 \<Rightarrow> u64" where
  "fill n g m = fold (\<lambda>i m. m(pte_slot n i := g i)) [0..<512] m"

lemma fill_prefix:
  "k \<le> 512 \<Longrightarrow> j < 512 \<Longrightarrow>
   fold (\<lambda>i m. m(pte_slot n i := g i)) [0..<k] m (pte_slot n j) = (if j < k then g j else m (pte_slot n j))"
  by (induction k) (auto simp: slot_inj_page less_Suc_eq)

lemma fill_slot: "j < 512 \<Longrightarrow> fill n g m (pte_slot n j) = g j"
  by (simp add: fill_def fill_prefix)

lemma fill_other: "\<not> in_page n a \<Longrightarrow> fill n g m a = m a"
proof -
  assume "\<not> in_page n a"
  then have "a \<noteq> pte_slot n i" if "i < 512" for i using in_page_slot [OF that] by blast
  then have "\<forall>i\<in>set is. i < 512 \<Longrightarrow> fold (\<lambda>i m. m(pte_slot n i := g i)) is m a = m a" for "is"
    by (induction "is" arbitrary: m) auto
  then show ?thesis by (simp add: fill_def)
qed

definition sub_leaf :: "u64 \<Rightarrow> nat \<Rightarrow> nat \<Rightarrow> u64" where
  "sub_leaf e l i = mk_pte (e AND PTE_FLAGS_MASK) (pte_target e + of_nat i * push_bit (level_bits (l - 1)) 1)"

lemma split_leaf_eq:
  assumes "pmm_alloc s = (Inr n, s1)" and "l = 2 \<or> l = 1"
  shows "split_leaf ptr e l s =
    (Inr (), s1\<lparr>pm_mem := (fill n (sub_leaf e l) (pm_mem s1))(ptr := mk_pte 0 n)\<rparr>)"
proof -
  have bits: "(if l = 2 then 21 else 12) = level_bits (l - 1)" using assms(2) by (auto simp: level_bits_def)
  have loop: "kfor [0..<512] (\<lambda>i. kmodify (store (pte_slot n i) (sub_leaf e l i))) s1 =
      (Inr (), s1\<lparr>pm_mem := fill n (sub_leaf e l) (pm_mem s1)\<rparr>)"
    by (simp only: kfor_modify fold_store fill_def)
  have alloc: "alloc_zero s = (Inr n, s1)" using assms(1) by (simp add: alloc_zero_def)
  have level: "(l \<noteq> 2 \<and> l \<noteq> 1) = False" using assms(2) by auto
  have "split_leaf ptr e l s =
      kseq (kfor [0..<512] (\<lambda>i. kmodify (store (pte_slot n i) (sub_leaf e l i)))) (kmodify (store ptr (mk_pte 0 n))) s1"
    unfolding split_leaf_def Let_def kbind_Inr [where m = alloc_zero, OF alloc] level if_False sub_leaf_def pte_target_def bits ..
  then show ?thesis by (simp only: kseq_def kbind_def loop prod.case sum.case) (simp add: store_def)
qed

lemma split_leaf_fails: "pmm_alloc s = (Inl err, s1) \<Longrightarrow> split_leaf ptr e l s = (Inl err, s1)"
  by (simp add: split_leaf_def alloc_zero_def)

lemma frame_ok_plus:
  assumes "frame_ok pa" and "unat pa + k * 2 ^ b + 2 ^ b \<le> 2 ^ 56" and "12 \<le> b" and "b < 64"
  shows "frame_ok (pa + of_nat k * push_bit b 1)" and "unat (pa + of_nat k * push_bit b 1 :: u64) = unat pa + k * 2 ^ b"
proof -
  have w: "of_nat k * push_bit b 1 = (of_nat (k * 2 ^ b) :: u64)" by (simp add: push_bit_eq_mult)
  have "unat pa + k * 2 ^ b < 2 ^ 56" using assms(2) by (smt (verit, best) add_lessD1 le_add1 le_eq_less_or_eq less_add_same_cancel1 order_less_le_trans zero_less_numeral zero_less_power)
  then have u: "unat (pa + of_nat (k * 2 ^ b) :: u64) = unat pa + k * 2 ^ b"
    by (simp add: unat_word_ariths unat_of_nat mod_add_right_eq del: of_nat_mult of_nat_add)
  moreover have "(2 :: nat) ^ 12 dvd 2 ^ b" using assms(3) by (rule le_imp_power_dvd)
  ultimately show "frame_ok (pa + of_nat k * push_bit b 1)"
    using assms(1) \<open>unat pa + k * 2 ^ b < 2 ^ 56\<close> unfolding w by (auto simp: frame_ok_def intro: dvd_add dvd_mult)
  show "unat (pa + of_nat k * push_bit b 1 :: u64) = unat pa + k * 2 ^ b" using u unfolding w .
qed

section \<open>One level of the walk\<close>

lemma rev_upt_pos: "0 < l \<Longrightarrow> rev [0..<l] = (l - 1) # rev [0..<l - 1]"
  by (cases l) simp_all

lemma view_through:
  assumes "tbl (pm_mem s) root p = Some t" and "length p \<le> 2" and "idxs va [2, 1, 0] = p @ i # r"
  shows "view s root va = map_option (leaf_view va) (vlook (pm_mem s) va t ((2 - length p) # rev [0..<2 - length p]))"
proof -
  note sp = levels_split [OF assms(2,3)]
  have "tbl (pm_mem s) root (idxs va (rev [3 - length p..<3])) = Some t" using assms(1) sp by simp
  then have "vlook (pm_mem s) va root (rev [3 - length p..<3] @ (2 - length p) # rev [0..<2 - length p])
      = vlook (pm_mem s) va t ((2 - length p) # rev [0..<2 - length p])" by (rule vlook_append)
  then show ?thesis using sp by (simp only: view_def)
qed

lemma view_replaced:
  assumes "agree_but s root (pm_mem s') p i" and "is_path p" and "tbl (pm_mem s) root p = Some t"
  shows "view s' root va =
    (if \<exists>r. idxs va [2, 1, 0] = p @ i # r
     then map_option (leaf_view va) (vlook (pm_mem s') va t ((2 - length p) # rev [0..<2 - length p]))
     else view s root va)"
proof (cases "\<exists>r. idxs va [2, 1, 0] = p @ i # r")
  case True
  then obtain r where r: "idxs va [2, 1, 0] = p @ i # r" by blast
  have "tbl (pm_mem s') root p = Some t" using agree_tbl [OF assms(1,2)] assms(3) by simp
  then show ?thesis using view_through [of s' root p t va i r] r assms(2) True by (simp add: is_path_def)
next
  case False
  then show ?thesis using agree_vlook [OF assms(1), of va] assms(2) by (simp only: view_def is_path_def) simp
qed

lemma agree_alloc_store:
  assumes ok: "pt_ok s root" and p: "is_path p" and t: "tbl (pm_mem s) root p = Some t" and i: "i < 512"
    and n: "n \<in> pages_of s - used_pages s"
    and m: "\<forall>a. \<not> in_page n a \<longrightarrow> m a = pm_mem s a"
  shows "agree_but s root (m(pte_slot t i := e)) p i"
    and "j < 512 \<Longrightarrow> (m(pte_slot t i := e)) (pte_slot n j) = m (pte_slot n j)"
proof -
  note pok = pt_okD(1) [OF ok]
  have tu: "t \<in> used_pages s" and tp: "t \<in> pages_of s"
    using pt_okD(3) [OF ok p t] tbl_used_pages [OF ok p t] by auto
  show "agree_but s root (m(pte_slot t i := e)) p i" unfolding agree_but_def
  proof (intro allI impI)
    fix q u j assume a: "is_path q \<and> tbl (pm_mem s) root q = Some u \<and> j < 512 \<and> (q, j) \<noteq> (p, i)"
    then have u: "u \<in> used_pages s" "u \<in> pages_of s" using pt_okD(3) [OF ok] tbl_used_pages [OF ok] by auto
    have "\<not> in_page n (pte_slot u j)"
      using pages_disjoint [OF pok u(2), of n] in_page_slot [of j u] a n u(1) by auto
    moreover have "pte_slot u j \<noteq> pte_slot t i"
    proof
      assume "pte_slot u j = pte_slot t i"
      then have "u = t" "j = i" using slot_eq_iff [OF pok u(2) tp] a i by auto
      then show False using a pt_okD(4) [OF ok, of q p t] p t by auto
    qed
    ultimately show "(m(pte_slot t i := e)) (pte_slot u j) = pm_mem s (pte_slot u j)" using m by simp
  qed
  show "j < 512 \<Longrightarrow> (m(pte_slot t i := e)) (pte_slot n j) = m (pte_slot n j)"
    using slot_eq_iff [OF pok, of n t j i] n tp tu i by auto
qed

lemma pmm_alloc_shape: "pmm_alloc s = (r, s') \<Longrightarrow> pm_base s' = pm_base s \<and> pm_total s' = pm_total s"
  by (cases rule: pmm_alloc_cases [of s]) auto

lemma store_simps [simp]:
  "pmm_ok (store a v s) = pmm_ok s" "used_pages (store a v s) = used_pages s" "pages_of (store a v s) = pages_of s"
  "pm_base (store a v s) = pm_base s" "pm_total (store a v s) = pm_total s" "pm_mem (store a v s) = (pm_mem s)(a := v)"
  by (simp_all add: store_def)

text \<open>\<open>same_space s s' root\<close>: from \<open>s\<close> to \<open>s'\<close> only the shape of the page table has changed.\<close>

definition same_space :: "pmm \<Rightarrow> pmm \<Rightarrow> u64 \<Rightarrow> bool" where
  "same_space s s' root \<longleftrightarrow> pt_ok s' root \<and> view s' root = view s root \<and> pages_of s' = pages_of s \<and>
     used_pages s \<subseteq> used_pages s'"

lemma same_space_refl: "pt_ok s root \<Longrightarrow> same_space s s root"
  by (simp add: same_space_def)

lemma same_space_trans: "same_space s s1 root \<Longrightarrow> same_space s1 s2 root \<Longrightarrow> same_space s s2 root"
  by (auto simp: same_space_def)

lemma step_new:
  assumes ok: "pt_ok s root" and path: "is_path (p @ [i])" and t: "tbl (pm_mem s) root p = Some t"
    and inv: "\<not> bit (pm_mem s (pte_slot t i)) 0" and al: "pmm_alloc s = (Inr n, s1)"
  defines "s' \<equiv> store (pte_slot t i) (mk_pte 0 n) s1"
  shows "same_space s s' root" and "tbl (pm_mem s') root (p @ [i]) = Some n"
proof -
  note a = pmm_alloc_ok [OF pt_okD(1) [OF ok] al]
  have n: "n \<in> pages_of s - used_pages s" using a by simp
  have p: "is_path p" "i < 512" "length p \<le> 1" using path by (auto simp: is_path_def)
  have out: "\<forall>x. \<not> in_page n x \<longrightarrow> pm_mem s1 x = pm_mem s x" using a(7) by simp
  note ag = agree_alloc_store [OF ok p(1) t p(2) n out, where e = "mk_pte 0 n"]
  have agree: "agree_but s root (pm_mem s') p i" using ag(1) by (simp add: s'_def)
  have zero: "pm_mem s' (pte_slot n j) = 0" if "j < 512" for j
    using ag(2) [OF that] a(7) in_page_slot [OF that] by (simp add: s'_def)
  have shape: "pm_base s' = pm_base s" "pm_total s' = pm_total s" using pmm_alloc_shape [OF al] by (simp_all add: s'_def)
  have "\<forall>j<512. \<not> table_pte (pm_mem s' (pte_slot n j))" "\<forall>j<512. \<not> leaf_pte (pm_mem s' (pte_slot n j))"
    using zero by (simp_all add: table_pte_def leaf_pte_def)
  then have att: "pt_ok s' root \<and> tbl (pm_mem s') root (p @ [i]) = Some n"
    using attach_table [OF ok path t n _ shape _ _ agree] a(1,4) by (simp add: s'_def)
  then show "tbl (pm_mem s') root (p @ [i]) = Some n" by blast
  have "view s' root va = view s root va" for va
  proof (cases "\<exists>r. idxs va [2, 1, 0] = p @ i # r")
    case True
    then obtain r where r: "idxs va [2, 1, 0] = p @ i # r" by blast
    have i: "i = sv39_idx (2 - length p) va" using levels_split [OF _ r] p(3) by simp
    have "view s root va = None"
      using view_through [OF t _ r] p(3) i inv by (simp add: leaf_pte_def table_pte_def)
    moreover have "pm_mem s' (pte_slot t (sv39_idx (2 - length p) va)) = mk_pte 0 n" using i by (simp add: s'_def)
    moreover have "pte_target (mk_pte 0 n) = n" using pool_frame_ok [OF ok] n by (simp add: target_mk_pte)
    moreover have "rev [0..<2 - length p] = (2 - length p - 1) # rev [0..<2 - length p - 1]"
      using p(3) by (intro rev_upt_pos) simp
    ultimately show ?thesis using view_replaced [OF agree p(1) t, of va] True zero sv39_idx_less
      by (simp add: leaf_pte_def table_pte_def bit_mk_pte)
  qed (simp add: view_replaced [OF agree p(1) t])
  then show "same_space s s' root" using att a by (auto simp: same_space_def s'_def)
qed

lemma bit_sub_leaf: "j < 10 \<Longrightarrow> bit (sub_leaf e l i) j \<longleftrightarrow> j = 0 \<or> bit e j"
  by (auto simp: sub_leaf_def bit_mk_pte bit_and_iff bit_FLAGS_MASK)

lemma sub_leaf_target:
  assumes "unat (pte_target e) + 2 ^ level_bits l \<le> 2 ^ 56" and "l = 2 \<or> l = 1" and "i < 512"
  shows "pte_target (sub_leaf e l i) = pte_target e + of_nat i * push_bit (level_bits (l - 1)) 1"
    and "unat (pte_target (sub_leaf e l i)) + 2 ^ level_bits (l - 1) \<le> 2 ^ 56"
proof -
  let ?b = "level_bits (l - 1)"
  have b: "level_bits l = ?b + 9" "12 \<le> ?b" "?b < 64" using assms(2) by (auto simp: level_bits_def)
  have "i * 2 ^ ?b + 2 ^ ?b \<le> 512 * 2 ^ ?b" using assms(3) mult_le_mono1 [of "Suc i" 512 "2 ^ ?b"] by simp
  then have fit: "unat (pte_target e) + i * 2 ^ ?b + 2 ^ ?b \<le> 2 ^ 56"
  proof -
    have "(2 :: nat) ^ level_bits l = 512 * 2 ^ ?b" unfolding b(1) power_add by simp
    with \<open>i * 2 ^ ?b + 2 ^ ?b \<le> 512 * 2 ^ ?b\<close> assms(1) show ?thesis by linarith
  qed
  note fr = frame_ok_plus [OF frame_ok_target fit b(2,3)]
  show t: "pte_target (sub_leaf e l i) = pte_target e + of_nat i * push_bit ?b 1"
    unfolding sub_leaf_def by (rule target_mk_pte [OF flags_ok_mask fr(1)])
  show "unat (pte_target (sub_leaf e l i)) + 2 ^ ?b \<le> 2 ^ 56" unfolding t fr(2) by (rule fit)
qed

lemma sub_leaf_view:
  assumes "unat (pte_target e) + 2 ^ level_bits l \<le> 2 ^ 56" and "l = 2 \<or> l = 1" and "leaf_pte e"
  shows "leaf_view va (l - 1, sub_leaf e l (sv39_idx (l - 1) va)) = leaf_view va (l, e)"
proof -
  have "sub_leaf e l (sv39_idx (l - 1) va) AND PTE_FLAGS_MASK = e AND PTE_FLAGS_MASK"
    by (rule bit_word_eqI) (use assms(3) in \<open>auto simp: bit_and_iff bit_FLAGS_MASK bit_sub_leaf leaf_pte_def\<close>)
  then show ?thesis
    using sub_leaf_target(1) [OF assms(1,2) sv39_idx_less, of "l - 1" va] offset_split [OF assms(2), of va]
    unfolding leaf_view_def low_mask by (simp only: prod.case add.assoc)
qed

lemma step_split:
  assumes ok: "pt_ok s root" and path: "is_path (p @ [i])" and t: "tbl (pm_mem s) root p = Some t"
    and leaf: "leaf_pte (pm_mem s (pte_slot t i))" and al: "pmm_alloc s = (Inr n, s1)"
  defines "l \<equiv> 2 - length p"
  defines "s' \<equiv> s1\<lparr>pm_mem := (fill n (sub_leaf (pm_mem s (pte_slot t i)) l) (pm_mem s1))(pte_slot t i := mk_pte 0 n)\<rparr>"
  shows "same_space s s' root" and "tbl (pm_mem s') root (p @ [i]) = Some n"
proof -
  let ?e = "pm_mem s (pte_slot t i)" and ?f = "fill n (sub_leaf (pm_mem s (pte_slot t i)) l) (pm_mem s1)"
  note a = pmm_alloc_ok [OF pt_okD(1) [OF ok] al]
  have n: "n \<in> pages_of s - used_pages s" using a by simp
  have p: "is_path p" "i < 512" "length p \<le> 1" using path by (auto simp: is_path_def)
  then have l: "l = 2 \<or> l = 1" by (auto simp: l_def)
  have out: "\<forall>x. \<not> in_page n x \<longrightarrow> ?f x = pm_mem s x" using a(7) by (simp add: fill_other)
  note ag = agree_alloc_store [OF ok p(1) t p(2) n out, where e = "mk_pte 0 n"]
  have agree: "agree_but s root (pm_mem s') p i" using ag(1) by (simp add: s'_def)
  have subs: "pm_mem s' (pte_slot n j) = sub_leaf ?e l j" if "j < 512" for j
    using ag(2) [OF that] that by (simp add: s'_def fill_slot)
  have big: "unat (pte_target ?e) + 2 ^ level_bits l \<le> 2 ^ 56"
    unfolding l_def by (rule pt_okD(5) [OF ok p(1,3) t p(2) leaf])
  have isleaf: "leaf_pte (sub_leaf ?e l j)" for j using leaf by (auto simp: leaf_pte_def bit_sub_leaf)
  have shape: "pm_base s' = pm_base s" "pm_total s' = pm_total s" using pmm_alloc_shape [OF al] by (simp_all add: s'_def)
  have "\<forall>j<512. \<not> table_pte (pm_mem s' (pte_slot n j))" using subs isleaf by (auto simp: table_pte_def leaf_pte_def)
  moreover have "\<forall>j<512. p = [] \<and> leaf_pte (pm_mem s' (pte_slot n j)) \<longrightarrow>
       unat (pte_target (pm_mem s' (pte_slot n j))) + 2 ^ 21 \<le> 2 ^ 56"
    using sub_leaf_target(2) [OF big l] subs by (auto simp: l_def level_bits_def)
  ultimately have att: "pt_ok s' root \<and> tbl (pm_mem s') root (p @ [i]) = Some n"
    using attach_table [OF ok path t n _ shape _ _ agree] a(1,4) by (simp add: s'_def)
  then show "tbl (pm_mem s') root (p @ [i]) = Some n" by blast
  have "view s' root va = view s root va" for va
  proof (cases "\<exists>r. idxs va [2, 1, 0] = p @ i # r")
    case True
    then obtain r where r: "idxs va [2, 1, 0] = p @ i # r" by blast
    have i: "i = sv39_idx l va" using levels_split [OF _ r] p(3) by (simp add: l_def)
    have "view s root va = Some (leaf_view va (l, ?e))"
      using view_through [OF t _ r] p(3) i leaf by (simp add: l_def)
    moreover have "pm_mem s' (pte_slot t (sv39_idx l va)) = mk_pte 0 n" using i by (simp add: s'_def)
    moreover have "pte_target (mk_pte 0 n) = n" using pool_frame_ok [OF ok] n by (simp add: target_mk_pte)
    moreover have "rev [0..<l] = (l - 1) # rev [0..<l - 1]" using l by (intro rev_upt_pos) auto
    moreover have "vlook (pm_mem s') va n ((l - 1) # rev [0..<l - 1]) = Some (l - 1, sub_leaf ?e l (sv39_idx (l - 1) va))"
      using subs [OF sv39_idx_less] isleaf by simp
    moreover have "leaf_pte (mk_pte 0 n) = False" "table_pte (mk_pte 0 n) = True"
      by (simp_all add: leaf_pte_def table_pte_def bit_mk_pte)
    ultimately show ?thesis
      using view_replaced [OF agree p(1) t, of va] True sub_leaf_view [OF big l leaf, of va] unfolding l_def [symmetric]
      by (simp only: vlook.simps Let_def if_True if_False option.map)
  qed (simp add: view_replaced [OF agree p(1) t])
  then show "same_space s s' root" using att a by (auto simp: same_space_def s'_def)
qed

section \<open>The walk\<close>

lemma walk_levels_create:
  assumes "pt_ok s root" and "tbl (pm_mem s) root (idxs va ls1) = Some t" and "[2, 1, 0] = ls1 @ ls @ ls3" and "ls3 \<noteq> []"
  shows "case walk_levels ls va True t s of
      (Inl e, s') \<Rightarrow> e = ENoMem \<and> same_space s s' root
    | (Inr t', s') \<Rightarrow> same_space s s' root \<and> tbl (pm_mem s') root (idxs va (ls1 @ ls)) = Some t'"
  using assms
proof (induction ls arbitrary: ls1 t s)
  case Nil
  then show ?case by (simp add: same_space_refl)
next
  case (Cons l ls)
  let ?e = "pm_mem s (pte_slot t (sv39_idx l va))" and ?i = "sv39_idx l va"
  have len: "length ls1 \<le> 1" using arg_cong [OF Cons.prems(3), of length] Cons.prems(4)
    by (cases ls3) auto
  have lv: "l = 2 - length ls1" using Cons.prems(3) len
    by (cases ls1) (auto simp: Cons_eq_append_conv)
  have path: "is_path (idxs va ls1 @ [?i])"
    using is_path_idxs [of "ls1 @ [l]" va] len by (simp add: idxs_def)
  have nxt: "[2, 1, 0] = (ls1 @ [l]) @ ls @ ls3" using Cons.prems(3) by simp
  have ix: "idxs va (ls1 @ [l]) = idxs va ls1 @ [?i]" by (simp add: idxs_def)
  have go: ?case
    if s1: "same_space s s1 root" and t1: "tbl (pm_mem s1) root (idxs va ls1 @ [?i]) = Some t1"
      and w: "walk_levels (l # ls) va True t s = walk_levels ls va True t1 s1" for s1 t1
  proof -
    have ok1: "pt_ok s1 root" using s1 by (simp add: same_space_def)
    show ?thesis using Cons.IH [OF ok1, of "ls1 @ [l]" t1] t1 nxt Cons.prems(4) s1 unfolding w
      by (auto simp: ix split: prod.splits sum.splits intro: same_space_trans)
  qed
  have fail: ?case if "walk_levels (l # ls) va True t s = (Inl ENoMem, s)"
    unfolding that using same_space_refl [OF Cons.prems(1)] by simp
  consider (inv) "\<not> bit ?e 0" | (leaf) "leaf_pte ?e" | (table) "table_pte ?e"
    by (auto simp: leaf_pte_def table_pte_def)
  then show ?case
  proof cases
    case inv
    show ?thesis
    proof (cases "pmm_alloc s")
      case (Pair r s1)
      show ?thesis
      proof (cases r)
        case (Inl e)
        then have al: "pmm_alloc s = (Inl e, s1)" using Pair by simp
        show ?thesis by (rule fail)
          (use inv al pmm_alloc_fails [OF pt_okD(1) [OF Cons.prems(1)] al] in \<open>simp add: Let_def kbind_def alloc_zero_def\<close>)
      next
        case (Inr n)
        then have al: "pmm_alloc s = (Inr n, s1)" using Pair by simp
        show ?thesis by (rule go [OF step_new [OF Cons.prems(1) path Cons.prems(2) inv al]])
            (use inv al in \<open>simp add: Let_def kbind_def kseq_def alloc_zero_def\<close>)
      qed
    qed
  next
    case leaf
    then have b: "bit ?e 0" "\<not> (\<not> bit ?e 1 \<and> \<not> bit ?e 3)" by (auto simp: leaf_pte_def)
    show ?thesis
    proof (cases "pmm_alloc s")
      case (Pair r s1)
      show ?thesis
      proof (cases r)
        case (Inl e)
        then have al: "pmm_alloc s = (Inl e, s1)" using Pair by simp
        show ?thesis by (rule fail)
          (use b al pmm_alloc_fails [OF pt_okD(1) [OF Cons.prems(1)] al] in
            \<open>simp add: Let_def kbind_def kseq_def split_leaf_fails [OF al]\<close>)
      next
        case (Inr n)
        then have al: "pmm_alloc s = (Inr n, s1)" using Pair by simp
        have n: "pte_target (mk_pte 0 n) = n"
          using pool_frame_ok [OF Cons.prems(1)] pmm_alloc_ok(2) [OF pt_okD(1) [OF Cons.prems(1)] al]
          by (simp add: target_mk_pte)
        have l12: "l = 2 \<or> l = 1" and l': "2 - length (idxs va ls1) = l" using lv len by (auto simp: idxs_def)
        show ?thesis by (rule go [OF step_split [OF Cons.prems(1) path Cons.prems(2) leaf al]])
            (use b n l' in \<open>simp add: Let_def kbind_def kseq_def split_leaf_eq [OF al l12]\<close>)
      qed
    qed
  next
    case table
    have "tbl (pm_mem s) root (idxs va ls1 @ [?i]) = Some (pte_target ?e)"
      using Cons.prems(2) table by (simp add: tbl_snoc child_def)
    then show ?thesis by (rule go [OF same_space_refl [OF Cons.prems(1)]])
        (use table in \<open>simp add: Let_def kbind_def table_pte_def\<close>)
  qed
qed

lemma walk_create:
  assumes "pt_ok s root" and "l \<le> 2"
  shows "case walk root va l True s of
      (Inl e, s') \<Rightarrow> e = ENoMem \<and> same_space s s' root
    | (Inr ptr, s') \<Rightarrow> same_space s s' root \<and>
        (\<exists>t. tbl (pm_mem s') root (idxs va (rev [Suc l..<3])) = Some t \<and> ptr = pte_slot t (sv39_idx l va))"
proof -
  have sp: "[2, 1, 0] = [] @ rev [Suc l..<3] @ rev [0..<Suc l]"
    using assms(2) by (auto simp: le_Suc_eq numeral_2_eq_2 numeral_3_eq_3)
  have "case walk_levels (rev [Suc l..<3]) va True root s of
      (Inl e, s') \<Rightarrow> e = ENoMem \<and> same_space s s' root
    | (Inr t', s') \<Rightarrow> same_space s s' root \<and> tbl (pm_mem s') root (idxs va ([] @ rev [Suc l..<3])) = Some t'"
    by (rule walk_levels_create [OF assms(1) _ sp]) (simp_all add: idxs_def)
  then show ?thesis using assms(2) by (auto simp: walk_def kbind_def split: prod.splits sum.splits)
qed

text \<open>Writing a leaf into an existing table.\<close>

definition same_block :: "nat \<Rightarrow> u64 \<Rightarrow> u64 \<Rightarrow> bool" where
  "same_block l va va' \<longleftrightarrow> (\<forall>k. l \<le> k \<and> k \<le> 2 \<longrightarrow> sv39_idx k va' = sv39_idx k va)"

lemma same_block_path:
  assumes "l \<le> 2"
  shows "same_block l va va' \<longleftrightarrow> (\<exists>r. idxs va' [2, 1, 0] = idxs va (rev [Suc l..<3]) @ sv39_idx l va # r)"
proof -
  consider "l = 0" | "l = 1" | "l = 2" using assms by linarith
  then show ?thesis
    by cases (auto simp: same_block_def idxs_def numeral_2_eq_2 numeral_3_eq_3 le_Suc_eq)
qed

lemma agree_store:
  assumes ok: "pt_ok s root" and p: "is_path p" and t: "tbl (pm_mem s) root p = Some t" and i: "i < 512"
  shows "agree_but s root ((pm_mem s)(pte_slot t i := e)) p i"
  unfolding agree_but_def
proof (intro allI impI)
  fix q u j assume a: "is_path q \<and> tbl (pm_mem s) root q = Some u \<and> j < 512 \<and> (q, j) \<noteq> (p, i)"
  have "pte_slot u j \<noteq> pte_slot t i"
  proof
    assume "pte_slot u j = pte_slot t i"
    then have "u = t" "j = i"
      using slot_eq_iff [OF pt_okD(1) [OF ok] tbl_used_pages [OF ok, of q u] tbl_used_pages [OF ok p t], of j i] a i by auto
    then show False using a pt_okD(4) [OF ok, of q p t] p t by auto
  qed
  then show "((pm_mem s)(pte_slot t i := e)) (pte_slot u j) = pm_mem s (pte_slot u j)" by simp
qed

lemma pt_ok_store:
  assumes ok: "pt_ok s root" and p: "is_path p" and t: "tbl (pm_mem s) root p = Some t" and i: "i < 512"
    and e: "\<not> table_pte e"
    and big: "length p \<le> 1 \<Longrightarrow> leaf_pte e \<Longrightarrow> unat (pte_target e) + 2 ^ level_bits (2 - length p) \<le> 2 ^ 56"
  shows "pt_ok (store (pte_slot t i) e s) root"
proof -
  let ?m' = "(pm_mem s)(pte_slot t i := e)"
  note agree = agree_store [OF ok p t i, of e]
  have tp: "tbl ?m' root p = Some t" using agree_tbl [OF agree p] t by simp
  have cut: "tbl ?m' root (p @ i # r) = None" for r
    using tp e by (simp add: tbl_append child_def)
  have old: "tbl (pm_mem s) root q = Some u \<and> (\<forall>r. q \<noteq> p @ i # r)" if "is_path q" "tbl ?m' root q = Some u" for q u
    using that cut agree_tbl [OF agree that(1)] by (metis option.distinct(1))
  have leaves: "unat (pte_target (?m' (pte_slot u j))) + 2 ^ level_bits (2 - length q) \<le> 2 ^ 56"
    if a: "is_path q" "length q \<le> 1" "tbl ?m' root q = Some u" "j < 512" "leaf_pte (?m' (pte_slot u j))" for q u j
  proof (cases "(q, j) = (p, i)")
    case True
    then have "u = t" using old [OF a(1,3)] t by simp
    then show ?thesis using True a(2,5) big by simp
  next
    case False
    then have "?m' (pte_slot u j) = pm_mem s (pte_slot u j)"
      using agree a old [OF a(1,3)] unfolding agree_but_def by blast
    then show ?thesis using pt_okD(5) [OF ok a(1,2), of u j] old [OF a(1,3)] a(4,5) by simp
  qed
  show ?thesis unfolding pt_ok_def store_simps
  proof (intro conjI allI impI)
    show "pmm_ok s" "unat (pm_base s) + 4096 * unat (pm_total s) \<le> 2 ^ 56" using pt_okD(1,2) [OF ok] .
    fix q u assume "is_path q \<and> tbl ?m' root q = Some u"
    then show "u \<in> used_pages s" using old [of q u] pt_okD(3) [OF ok, of q u] by simp
  next
    fix q r u assume "is_path q \<and> is_path r \<and> tbl ?m' root q = Some u \<and> tbl ?m' root r = Some u"
    then show "q = r" using old [of q u] old [of r u] pt_okD(4) [OF ok, of q r u] by simp
  next
    fix q u j assume "is_path q \<and> length q \<le> 1 \<and> tbl ?m' root q = Some u \<and> j < 512 \<and> leaf_pte (?m' (pte_slot u j))"
    then show "unat (pte_target (?m' (pte_slot u j))) + 2 ^ level_bits (2 - length q) \<le> 2 ^ 56" using leaves by blast
  qed
qed

lemma view_store:
  assumes ok: "pt_ok s root" and l: "l \<le> 2" and t: "tbl (pm_mem s) root (idxs va (rev [Suc l..<3])) = Some t"
    and e: "\<not> table_pte e"
  shows "view (store (pte_slot t (sv39_idx l va)) e s) root va' =
    (if same_block l va va' then if leaf_pte e then Some (leaf_view va' (l, e)) else None else view s root va')"
proof -
  let ?p = "idxs va (rev [Suc l..<3])"
  have len: "length ?p = 2 - l" by (simp add: idxs_def)
  have p: "is_path ?p" using l by (intro is_path_idxs) simp
  have ag: "agree_but s root (pm_mem (store (pte_slot t (sv39_idx l va)) e s)) ?p (sv39_idx l va)"
    using agree_store [OF ok p t sv39_idx_less] by simp
  show ?thesis
  proof (cases "same_block l va va'")
    case True
    then have "sv39_idx l va' = sv39_idx l va" using l by (simp add: same_block_def)
    moreover have "2 - length ?p = l" using len l by simp
    ultimately show ?thesis
      using view_replaced [OF ag p t, of va'] True e unfolding same_block_path [OF l, symmetric] by simp
  next
    case False
    then show ?thesis using view_replaced [OF ag p t, of va'] unfolding same_block_path [OF l, symmetric] by simp
  qed
qed

section \<open>Mapping one page\<close>

definition leaf_flags :: "u64 \<Rightarrow> bool" where
  "leaf_flags fl \<longleftrightarrow> flags_ok fl \<and> (bit fl 1 \<or> bit fl 3)"

text \<open>A mapping request: a level, flags that make a leaf, and a page frame that ends within the
  physical address space.\<close>

definition map_arg :: "u64 \<Rightarrow> u64 \<Rightarrow> nat \<Rightarrow> bool" where
  "map_arg paddr flags l \<longleftrightarrow> l \<le> 2 \<and> leaf_flags flags \<and> frame_ok paddr \<and> unat paddr + 2 ^ level_bits l \<le> 2 ^ 56"

definition map_block :: "nat \<Rightarrow> u64 \<Rightarrow> u64 \<Rightarrow> u64 \<Rightarrow> (u64 \<Rightarrow> (u64 \<times> u64) option) \<Rightarrow> u64 \<Rightarrow> (u64 \<times> u64) option" where
  "map_block l vaddr paddr flags f va =
     (if same_block l vaddr va then Some (paddr + take_bit (level_bits l) va, PTE_V OR flags) else f va)"

lemma map_one_ok:
  assumes ok: "pt_ok s root" and arg: "map_arg paddr flags l"
  shows "case map_one root vaddr paddr flags l s of
      (Inl e, s') \<Rightarrow> e = ENoMem \<and> same_space s s' root
    | (Inr _, s') \<Rightarrow> pt_ok s' root \<and> view s' root = map_block l vaddr paddr flags (view s root) \<and>
        pages_of s' = pages_of s \<and> used_pages s \<subseteq> used_pages s'"
proof -
  have l: "l \<le> 2" and fl: "flags_ok flags" "bit flags 1 \<or> bit flags 3" and fr: "frame_ok paddr"
    and fit: "unat paddr + 2 ^ level_bits l \<le> 2 ^ 56"
    using arg by (auto simp: map_arg_def leaf_flags_def)
  note w = walk_create [OF ok l, of vaddr]
  show ?thesis
  proof (cases "walk root vaddr l True s")
    case (Pair r s1)
    show ?thesis
    proof (cases r)
      case (Inl e)
      then show ?thesis using w Pair by (simp add: map_one_def kbind_def)
    next
      case (Inr ptr)
      then obtain t where s1: "same_space s s1 root" and t: "tbl (pm_mem s1) root (idxs vaddr (rev [Suc l..<3])) = Some t"
        and ptr: "ptr = pte_slot t (sv39_idx l vaddr)" using w Pair by auto
      let ?e = "mk_pte flags paddr"
      have ok1: "pt_ok s1 root" using s1 by (simp add: same_space_def)
      have leaf: "leaf_pte ?e" "\<not> table_pte ?e" using fl by (auto simp: leaf_pte_def table_pte_def bit_mk_pte)
      have "is_path (idxs vaddr (rev [Suc l..<3]))" using l by (intro is_path_idxs) simp
      then have "pt_ok (store ptr ?e s1) root" unfolding ptr
        by (rule pt_ok_store [OF ok1 _ t sv39_idx_less leaf(2)])
          (use l fit in \<open>simp add: target_mk_pte [OF fl(1) fr] idxs_def\<close>)
      moreover have "view (store ptr ?e s1) root = map_block l vaddr paddr flags (view s root)"
      proof
        fix va'
        have "leaf_view va' (l, ?e) = (paddr + take_bit (level_bits l) va', PTE_V OR flags)"
          unfolding leaf_view_def low_mask by (simp add: target_mk_pte [OF fl(1) fr] flags_mk_pte [OF fl(1)])
        then show "view (store ptr ?e s1) root va' = map_block l vaddr paddr flags (view s root) va'"
          using view_store [OF ok1 l t leaf(2), of va'] leaf(1) s1 unfolding ptr
          by (simp add: map_block_def same_space_def)
      qed
      ultimately show ?thesis using Pair Inr s1 by (simp add: map_one_def kbind_def same_space_def)
    qed
  qed
qed

end
