(* ===== verification/Vmm_Space.thy ===== *)
theory Vmm_Space
  imports Vmm
begin

text \<open>
  Address spaces built from the page tables of \<open>Vmm\<close>: how many pages a mapping needs, the loop that
  maps a range with the largest pages that fit, and the removal of a single page.
\<close>

section \<open>How many pages a mapping needs\<close>

definition free_n :: "pmm \<Rightarrow> nat" where
  "free_n s = unat (pm_free s)"

lemma free_n_alloc:
  assumes "pmm_ok s"
  shows "case pmm_alloc s of (Inl e, s') \<Rightarrow> free_n s = 0 \<and> e = ENoMem
    | (Inr pa, s') \<Rightarrow> pmm_ok s' \<and> free_n s = Suc (free_n s')"
proof (cases rule: pmm_alloc_cases [of s])
  case none
  then have "used_pages s = pages_of s" by (auto simp: used_pages_def pages_of_def)
  then show ?thesis using none card_free_pages [OF assms] by (simp add: free_n_def)
next
  case (some i)
  then have "0 < unat (pm_free s)" using assms free_count_put [of i "unat (pm_total s)" "pm_bitmap s"]
    by (simp add: pmm_ok_def)
  then have "pm_free s \<noteq> 0" by auto
  then have "unat (pm_free s) = Suc (unat (pm_free s - 1))"
    using unat_minus_one [of "pm_free s"] \<open>0 < unat (pm_free s)\<close> by simp
  then show ?thesis using some bm_set_ok(1) [OF assms some(1,2)] by (simp add: free_n_def)
qed

lemma free_n_mem [simp]: "free_n (s\<lparr>pm_mem := m\<rparr>) = free_n s" "free_n (store a v s) = free_n s"
  by (simp_all add: free_n_def store_def)

lemma free_n_split_leaf:
  assumes "pmm_ok s" and "l = 2 \<or> l = 1"
  shows "case split_leaf ptr e l s of (Inl err, s') \<Rightarrow> free_n s = 0
    | (Inr _, s') \<Rightarrow> pmm_ok s' \<and> free_n s = Suc (free_n s')"
proof (cases "pmm_alloc s")
  case (Pair r s1)
  then show ?thesis using free_n_alloc [OF assms(1)] assms(2)
    by (cases r) (auto simp: split_leaf_fails split_leaf_eq)
qed

lemma free_n_walk_levels:
  assumes "pmm_ok s" and "set ls \<subseteq> {1, 2}"
  shows "case walk_levels ls va True t s of (Inl e, s') \<Rightarrow> free_n s < length ls
    | (Inr _, s') \<Rightarrow> pmm_ok s' \<and> free_n s \<le> free_n s' + length ls"
  using assms
proof (induction ls arbitrary: t s)
  case (Cons l ls)
  let ?e = "pm_mem s (pte_slot t (sv39_idx l va))"
  have l: "l = 2 \<or> l = 1" and ls: "set ls \<subseteq> {1, 2}" using Cons.prems(2) by auto
  have go: ?case if "pmm_ok s1" "free_n s \<le> Suc (free_n s1)"
      "walk_levels (l # ls) va True t s = walk_levels ls va True t1 s1" for s1 t1
    using Cons.IH [OF that(1) ls, of t1] that(2,3) by (auto split: prod.splits sum.splits)
  consider (inv) "\<not> bit ?e 0" | (leaf) "bit ?e 0" "bit ?e 1 \<or> bit ?e 3" | (table) "bit ?e 0" "\<not> bit ?e 1" "\<not> bit ?e 3" by blast
  then show ?case
  proof cases
    case inv
    show ?thesis
    proof (cases "pmm_alloc s")
      case (Pair r s1)
      show ?thesis
      proof (cases r)
        case (Inl e)
        then have "walk_levels (l # ls) va True t s = (Inl e, s1)"
          using inv Pair by (simp add: Let_def kbind_def alloc_zero_def)
        then show ?thesis using free_n_alloc [OF Cons.prems(1)] Pair Inl by simp
      next
        case (Inr n)
        have "pmm_ok (store (pte_slot t (sv39_idx l va)) (mk_pte 0 n) s1)"
          "free_n s \<le> Suc (free_n (store (pte_slot t (sv39_idx l va)) (mk_pte 0 n) s1))"
          using free_n_alloc [OF Cons.prems(1)] Pair Inr by simp_all
        then show ?thesis by (rule go) (use inv Pair Inr in \<open>simp add: Let_def kbind_def kseq_def alloc_zero_def\<close>)
      qed
    qed
  next
    case leaf
    show ?thesis
    proof (cases "split_leaf (pte_slot t (sv39_idx l va)) ?e l s")
      case (Pair r s1)
      note sp = free_n_split_leaf [OF Cons.prems(1) l, of "pte_slot t (sv39_idx l va)" ?e]
      show ?thesis
      proof (cases r)
        case (Inl e)
        then have "walk_levels (l # ls) va True t s = (Inl e, s1)"
          using leaf Pair by (simp add: Let_def kbind_def kseq_def)
        then show ?thesis using sp Pair Inl by simp
      next
        case (Inr u)
        have "pmm_ok s1" "free_n s \<le> Suc (free_n s1)" using sp Pair Inr by simp_all
        then show ?thesis by (rule go) (use leaf Pair Inr in \<open>simp add: Let_def kbind_def kseq_def\<close>)
      qed
    qed
  next
    case table
    show ?thesis by (rule go [OF Cons.prems(1)]) (use table in \<open>simp_all add: Let_def kbind_def\<close>)
  qed
qed simp

lemma free_n_map_one:
  assumes "pmm_ok s"
  shows "case map_one root va pa fl l s of (Inl e, s') \<Rightarrow> l \<le> 2 \<longrightarrow> free_n s < 2
    | (Inr _, s') \<Rightarrow> pmm_ok s' \<and> free_n s \<le> free_n s' + 2"
proof -
  have ls: "set (rev [Suc l..<3]) \<subseteq> {1, 2}" by auto
  have len: "length (rev [Suc l..<3]) \<le> 2" by simp
  show ?thesis using free_n_walk_levels [OF assms ls, of va root] len
    by (auto simp: map_one_def walk_def kbind_def split: prod.splits sum.splits if_splits)
qed

section \<open>Mapping a range\<close>

lemma sv39_idx_nat: "k \<le> 2 \<Longrightarrow> sv39_idx k va = unat va div 2 ^ level_bits k mod 512"
proof -
  assume k: "k \<le> 2"
  have "sv39_idx k va = unat (of_nat (sv39_idx k va) :: u64)" using sv39_idx_less [of k va] by (simp add: unat_of_nat)
  also have "\<dots> = unat (take_bit 9 (drop_bit (level_bits k) va))" by (simp only: sv39_idx_bits [OF k])
  also have "\<dots> = unat va div 2 ^ level_bits k mod 512"
    by (simp only: unat_take_bit_nat unat_drop_bit_eq) (simp only: drop_bit_eq_div, simp)
  finally show ?thesis .
qed

lemma split_512: "(a :: nat) = b \<longleftrightarrow> a mod 512 = b mod 512 \<and> a div 512 = b div 512"
  by (metis mult_div_mod_eq)

lemma same_block_levels:
  "same_block 2 va va' \<longleftrightarrow> sv39_idx 2 va' = sv39_idx 2 va"
  "same_block 1 va va' \<longleftrightarrow> sv39_idx 1 va' = sv39_idx 1 va \<and> sv39_idx 2 va' = sv39_idx 2 va"
  "same_block 0 va va' \<longleftrightarrow> sv39_idx 0 va' = sv39_idx 0 va \<and> sv39_idx 1 va' = sv39_idx 1 va \<and> sv39_idx 2 va' = sv39_idx 2 va"
  by (auto simp: same_block_def le_Suc_eq numeral_2_eq_2)

lemma div_levels: "x div 2 ^ 30 = x div 2 ^ 21 div 512" "x div 2 ^ 21 = x div 2 ^ 12 div 512" for x :: nat
  by (simp_all flip: div_mult2_eq)

lemma sv39_idx_levels:
  "unat x < 2 ^ 39 \<Longrightarrow> sv39_idx 2 x = unat x div 2 ^ 30"
  "sv39_idx 1 x = unat x div 2 ^ 21 mod 512" "sv39_idx 0 x = unat x div 2 ^ 12 mod 512"
proof -
  show "sv39_idx 1 x = unat x div 2 ^ 21 mod 512" "sv39_idx 0 x = unat x div 2 ^ 12 mod 512"
    using sv39_idx_nat [of 1 x] sv39_idx_nat [of 0 x] by (simp_all add: level_bits_def)
  assume "unat x < 2 ^ 39"
  then have "unat x div 2 ^ 30 < 512" by (simp add: div_less_iff_less_mult)
  then show "sv39_idx 2 x = unat x div 2 ^ 30" using sv39_idx_nat [of 2 x] by (simp add: level_bits_def)
qed

lemma same_block_nat:
  assumes "l \<le> 2" and "unat va < 2 ^ 39" and "unat va' < 2 ^ 39"
  shows "same_block l va va' \<longleftrightarrow> unat va' div 2 ^ level_bits l = unat va div 2 ^ level_bits l"
proof -
  note ix = sv39_idx_levels(1) [OF assms(2)] sv39_idx_levels(1) [OF assms(3)] sv39_idx_levels(2,3)
  have b2: "same_block 2 va va' \<longleftrightarrow> unat va' div 2 ^ 30 = unat va div 2 ^ 30"
    by (simp only: same_block_levels ix)
  have b1: "same_block 1 va va' \<longleftrightarrow> unat va' div 2 ^ 21 = unat va div 2 ^ 21"
    unfolding same_block_levels ix div_levels(1) by (rule split_512 [symmetric])
  have "same_block 0 va va' \<longleftrightarrow> sv39_idx 0 va' = sv39_idx 0 va \<and> same_block 1 va va'"
    by (simp only: same_block_levels)
  then have b0: "same_block 0 va va' \<longleftrightarrow> unat va' div 2 ^ 12 = unat va div 2 ^ 12"
    unfolding b1 ix div_levels(2) using split_512 by blast
  consider "l = 0" | "l = 1" | "l = 2" using assms(1) by linarith
  then show ?thesis by cases (use b0 b1 b2 in \<open>simp_all add: level_bits_def\<close>)
qed

definition map_range :: "u64 \<Rightarrow> u64 \<Rightarrow> nat \<Rightarrow> u64 \<Rightarrow> (u64 \<Rightarrow> (u64 \<times> u64) option) \<Rightarrow> u64 \<Rightarrow> (u64 \<times> u64) option" where
  "map_range vaddr paddr n flags f va =
     (if unat vaddr \<le> unat va \<and> unat va < unat vaddr + n then Some (paddr + (va - vaddr), PTE_V OR flags) else f va)"

lemma block_nat:
  assumes "0 < (b :: nat)"
  shows "y div b = k \<longleftrightarrow> b * k \<le> y \<and> y < b * k + b"
proof
  assume "y div b = k"
  then show "b * k \<le> y \<and> y < b * k + b" using dividend_less_times_div [OF assms, of y] by auto
qed (auto intro: div_nat_eqI)

lemma map_block_range:
  assumes "l \<le> 2" and "2 ^ level_bits l dvd unat vaddr" and "unat vaddr < 2 ^ 39" and "unat va < 2 ^ 39"
  shows "map_block l vaddr paddr flags f va = map_range vaddr paddr (2 ^ level_bits l) flags f va"
proof -
  let ?b = "2 ^ level_bits l :: nat"
  obtain k where k: "unat vaddr = ?b * k" using assms(2) by blast
  have "unat vaddr div ?b = k" unfolding k by simp
  then have blk: "same_block l vaddr va \<longleftrightarrow> unat vaddr \<le> unat va \<and> unat va < unat vaddr + ?b"
    unfolding same_block_nat [OF assms(1,3,4)] using block_nat [of ?b "unat va" k] k by simp
  have "take_bit (level_bits l) va = va - vaddr" if le: "unat vaddr \<le> unat va" and lt: "unat va < unat vaddr + ?b"
  proof -
    obtain d where d: "unat va = unat vaddr + d" using le by (metis le_Suc_ex)
    then have "unat va mod ?b = d" using lt unfolding d k by simp
    then show ?thesis using le d by (simp add: word_unat_eq_iff unat_take_bit_nat unat_sub word_le_nat_alt)
  qed
  then show ?thesis using blk by (simp add: map_block_def map_range_def)
qed

lemma map_range_cong: "f x = g x \<Longrightarrow> map_range vaddr paddr n fl f x = map_range vaddr paddr n fl g x"
  by (simp add: map_range_def)

lemma map_range_compose:
  assumes "unat (vaddr + c) = unat vaddr + unat c" and "unat c \<le> n"
  shows "map_range (vaddr + c) (paddr + c) (n - unat c) fl (map_range vaddr paddr (unat c) fl f)
    = map_range vaddr paddr n fl f"
  using assms by (auto simp: map_range_def fun_eq_iff algebra_simps)

lemma best_level_le: "best_level va pa r \<le> 2"
  by (simp add: best_level_def)

lemma aligned_and: "x AND (push_bit n 1 - 1) = (0 :: u64) \<longleftrightarrow> 2 ^ n dvd unat x"
  unfolding low_mask by (simp only: word_unat_eq_iff unat_take_bit_nat unsigned_0 dvd_eq_mod_eq_0)

lemma best_level_ok:
  fixes va pa r :: u64
  assumes "4096 dvd unat va" and "4096 dvd unat r" and "r \<noteq> 0"
  defines "l \<equiv> best_level va pa r"
  shows "2 ^ level_bits l \<le> unat r" and "2 ^ level_bits l dvd unat va"
    and "map_chunk va pa r = push_bit (level_bits l) 1" and "unat (map_chunk va pa r) = 2 ^ level_bits l"
proof -
  have "4096 \<le> unat r" using assms(2,3) by (simp add: dvd_imp_le unat_gt_0)
  then show le: "2 ^ level_bits l \<le> unat r"
    by (auto simp: l_def best_level_def level_bits_def word_le_nat_alt)
  show "2 ^ level_bits l dvd unat va"
    using assms(1) unfolding l_def best_level_def aligned_and by (auto simp: level_bits_def)
  have u: "unat (push_bit (level_bits l) 1 :: u64) = 2 ^ level_bits l" by (auto simp: level_bits_def)
  then have "push_bit (level_bits l) 1 \<le> r" using le by (simp only: word_le_nat_alt)
  then show c: "map_chunk va pa r = push_bit (level_bits l) 1" by (simp only: map_chunk_def l_def min_absorb1)
  show "unat (map_chunk va pa r) = 2 ^ level_bits l" unfolding c by (rule u)
qed

lemma map_loop_ok:
  assumes "pt_ok s root" and "leaf_flags (flags OR PTE_A OR PTE_D)"
    and "4096 dvd unat va" and "4096 dvd unat pa" and "4096 dvd unat r"
    and "unat va + unat r \<le> 2 ^ 39" and "unat pa + unat r \<le> 2 ^ 56"
  shows "case map_loop root flags va pa r s of
      (Inl e, s') \<Rightarrow> e = ENoMem \<and> pt_ok s' root \<and>
        (\<forall>x. unat x < 2 ^ 39 \<and> \<not> (unat va \<le> unat x \<and> unat x < unat va + unat r) \<longrightarrow> view s' root x = view s root x)
    | (Inr _, s') \<Rightarrow> pt_ok s' root \<and>
        (\<forall>x. unat x < 2 ^ 39 \<longrightarrow> view s' root x = map_range va pa (unat r) (flags OR PTE_A OR PTE_D) (view s root) x)"
  using assms
proof (induction root flags va pa r arbitrary: s rule: map_loop.induct)
  case (1 root flags va pa r)
  let ?fl = "flags OR PTE_A OR PTE_D"
  show ?case
  proof (cases "r = 0")
    case True
    then show ?thesis using "1.prems"(1) by (auto simp: map_loop.simps map_range_def)
  next
    case False
    define l where "l = best_level va pa r"
    define c where "c = map_chunk va pa r"
    note bl = best_level_ok [OF "1.prems"(3,5) False, of pa, folded l_def c_def]
    have l: "l \<le> 2" by (simp add: l_def best_level_le)
    have b: "12 \<le> level_bits l" "level_bits l < 39" by (auto simp: level_bits_def)
    have c_le: "unat c \<le> unat r" using bl by simp
    have sum: "unat (va + c) = unat va + unat c" "unat (pa + c) = unat pa + unat c" "unat (r - c) = unat r - unat c"
      using "1.prems"(6,7) c_le by (auto simp: unat_word_ariths unat_sub word_le_nat_alt)
    have "0 < unat r" using False by (simp add: unat_gt_0)
    then have fits: "unat va < 2 ^ 39" "unat pa < 2 ^ 56" using "1.prems"(6,7) by linarith+
    have arg: "map_arg pa ?fl l" using l "1.prems"(2,4,7) bl(1) fits(2) by (simp add: map_arg_def frame_ok_def)
    note one = map_one_ok [OF "1.prems"(1) arg, of va]
    have loop: "map_loop root flags va pa r = kseq (map_one root va pa ?fl l) (map_loop root flags (va + c) (pa + c) (r - c))"
      using False by (subst map_loop.simps) (simp add: Let_def l_def c_def)
    show ?thesis
    proof (cases "map_one root va pa ?fl l s")
      case (Pair q s1)
      show ?thesis
      proof (cases q)
        case (Inl e)
        then show ?thesis using one Pair unfolding loop by (simp add: kseq_def kbind_def same_space_def)
      next
        case (Inr u)
        then have s1: "pt_ok s1 root" "view s1 root = map_block l va pa ?fl (view s root)" using one Pair by simp_all
        have v1: "view s1 root x = map_range va pa (unat c) ?fl (view s root) x" if "unat x < 2 ^ 39" for x
          using map_block_range [OF l bl(2) fits(1) that] s1(2) bl(4) by simp
        have dv: "4096 dvd unat c" using le_imp_power_dvd [OF b(1), of "2 :: nat"] bl(4) by simp
        have IH: "case map_loop root flags (va + c) (pa + c) (r - c) s1 of
            (Inl e, s') \<Rightarrow> e = ENoMem \<and> pt_ok s' root \<and>
              (\<forall>x. unat x < 2 ^ 39 \<and> \<not> (unat (va + c) \<le> unat x \<and> unat x < unat (va + c) + unat (r - c)) \<longrightarrow> view s' root x = view s1 root x)
          | (Inr _, s') \<Rightarrow> pt_ok s' root \<and>
              (\<forall>x. unat x < 2 ^ 39 \<longrightarrow> view s' root x = map_range (va + c) (pa + c) (unat (r - c)) ?fl (view s1 root) x)"
          unfolding c_def by (rule "1.IH" [OF False refl s1(1) "1.prems"(2)], fold c_def)
            (use "1.prems"(3-7) dv c_le in \<open>auto simp: sum\<close>)
        have comp: "map_range (va + c) (pa + c) (unat (r - c)) ?fl (view s1 root) x = map_range va pa (unat r) ?fl (view s root) x"
          if "unat x < 2 ^ 39" for x
          using map_range_cong [where f = "view s1 root" and g = "map_range va pa (unat c) ?fl (view s root)" and x = x, OF v1 [OF that]]
            fun_cong [OF map_range_compose [OF sum(1) c_le, of pa ?fl "view s root"], of x]
          unfolding sum(3) by simp
        have out: "view s1 root x = view s root x" if "unat x < 2 ^ 39" "\<not> (unat va \<le> unat x \<and> unat x < unat va + unat r)" for x
          using v1 [OF that(1)] that(2) c_le by (auto simp: map_range_def)
        show ?thesis using Pair Inr IH comp out c_le unfolding loop
          by (auto simp: kseq_def kbind_def sum split: prod.splits sum.splits)
      qed
    qed
  qed
qed

lemma map_loop_fails:
  assumes "pmm_ok s" and "4096 dvd unat va" and "4096 dvd unat r" and "unat va + unat r < 2 ^ 64"
    and "map_loop root flags va pa r s = (Inl e, s')"
  shows "free_n s < 2 * (unat r div 4096)"
  using assms
proof (induction root flags va pa r arbitrary: s rule: map_loop.induct)
  case (1 root flags va pa r)
  let ?fl = "flags OR PTE_A OR PTE_D"
  have r: "r \<noteq> 0" using "1.prems"(5) by (auto simp: map_loop.simps [of root flags va pa 0])
  define l where "l = best_level va pa r"
  define c where "c = map_chunk va pa r"
  note bl = best_level_ok [OF "1.prems"(2,3) r, of pa, folded l_def c_def]
  have c: "4096 dvd unat c" "4096 \<le> unat c" unfolding bl(4) by (auto simp: level_bits_def)
  have sum: "unat (va + c) = unat va + unat c" "unat (r - c) = unat r - unat c"
    using "1.prems"(4) bl(1,4) by (auto simp: unat_word_ariths unat_sub word_le_nat_alt)
  have r4: "4096 \<le> unat r" using c bl(1,4) by linarith
  have fewer: "(unat r - unat c) div 4096 + 1 \<le> unat r div 4096"
  proof -
    have "(unat r - unat c) div 4096 + 1 = (unat r - unat c + 4096) div 4096" by simp
    also have "\<dots> \<le> unat r div 4096" using c bl(1,4) by (intro div_le_mono) linarith
    finally show ?thesis .
  qed
  have loop: "map_loop root flags va pa r = kseq (map_one root va pa ?fl l) (map_loop root flags (va + c) (pa + c) (r - c))"
    using r by (subst map_loop.simps) (simp add: Let_def l_def c_def)
  show ?case
  proof (cases "map_one root va pa ?fl l s")
    case (Pair q s1)
    show ?thesis
    proof (cases q)
      case (Inl e')
      then have "free_n s < 2" using free_n_map_one [OF "1.prems"(1), where root = root and va = va and pa = pa and fl = ?fl and l = l] Pair best_level_le by (simp add: l_def)
      then show ?thesis using fewer by linarith
    next
      case (Inr u)
      then have s1: "pmm_ok s1" "free_n s \<le> free_n s1 + 2"
        using free_n_map_one [OF "1.prems"(1), where root = root and va = va and pa = pa and fl = ?fl and l = l] Pair by simp_all
      have "map_loop root flags (va + c) (pa + c) (r - c) s1 = (Inl e, s')"
        using "1.prems"(5) Pair Inr unfolding loop by (simp add: kseq_def kbind_def)
      then have "free_n s1 < 2 * (unat (r - c) div 4096)" unfolding c_def
        by (intro "1.IH" [OF r refl s1(1)], fold c_def) (use "1.prems" c bl(1,4) in \<open>auto simp: sum\<close>)
      then show ?thesis using s1(2) fewer unfolding sum by linarith
    qed
  qed
qed

lemma leaf_flags_AD: "leaf_flags fl \<Longrightarrow> leaf_flags (fl OR PTE_A OR PTE_D)"
proof -
  assume "leaf_flags fl"
  moreover have "flags_ok (fl OR PTE_A OR PTE_D)" if "flags_ok fl"
    using that by (simp add: flags_ok_def PTE_A_def PTE_D_def take_bit_or)
  ultimately show ?thesis by (auto simp: leaf_flags_def bit_or_iff)
qed

lemma user_bit: "leaf_flags fl \<Longrightarrow> bit (PTE_V OR (fl OR PTE_A OR PTE_D)) 4 \<longleftrightarrow> fl AND PTE_U \<noteq> 0"
  by (simp add: bit_or_iff PTE_V_def PTE_A_def PTE_D_def bit_numeral_rec)

text \<open>An address space that is still empty.\<close>

lemma empty_space:
  assumes "pmm_ok s" and "unat (pm_base s) + 4096 * unat (pm_total s) \<le> 2 ^ 56" and "new_root s = (Inr root, s')"
  shows "pt_ok s' root" and "view s' root va = None"
proof -
  have al: "pmm_alloc s = (Inr root, s')" using assms(3) by (simp add: new_root_def alloc_zero_def)
  note a = pmm_alloc_ok [OF assms(1) al]
  have zero: "pm_mem s' (pte_slot root j) = 0" if "j < 512" for j using a(7) in_page_slot [OF that] by simp
  then have ch: "child (pm_mem s') root j = None" if "j < 512" for j using that by (simp add: child_def table_pte_def)
  have tb: "tbl (pm_mem s') root p = Some t \<longleftrightarrow> p = [] \<and> t = root" if "is_path p" for p t
    using that ch by (cases p) (auto simp: is_path_def)
  show "pt_ok s' root" unfolding pt_ok_def
  proof (intro conjI allI impI)
    show "pmm_ok s'" by (rule a(1))
    show "unat (pm_base s') + 4096 * unat (pm_total s') \<le> 2 ^ 56" using assms(2) pmm_alloc_shape [OF al] by simp
  qed (use tb zero a(4) in \<open>auto simp: leaf_pte_def\<close>)
  show "view s' root va = None"
    using zero [OF sv39_idx_less] by (simp add: view_def leaf_pte_def table_pte_def)
qed

text \<open>C31: Called with a page-aligned virtual address, physical address and size, a virtual range inside the \<open>2^39\<close> bytes
  of Sv39, a physical range below \<open>2^56\<close> and leaf flags (R or X set, only flag bits), on an address space whose
  tables form a tree of pages in use, \<open>map(root, vaddr, paddr, size, flags)\<close> maps exactly the range it is given, whatever mixture of
  1 GiB, 2 MiB and 4 KiB pages it chooses and whatever large pages it has to split: afterwards an
  address of the range translates to the corresponding physical address (for user accesses
  only if the user flag was given), every other address translates as before, and the tables are
  again a tree of pages in use. It fails only for lack of memory, never when two pages are
  free for each page of the range, and then every address outside the range still translates
  as before.\<close>

theorem map_correct:
  assumes "pt_ok s root" and "leaf_flags flags"
    and "4096 dvd unat vaddr" and "4096 dvd unat paddr" and "4096 dvd unat sz"
    and "unat vaddr + unat sz \<le> 2 ^ 39" and "unat paddr + unat sz \<le> 2 ^ 56"
  shows "case vmap root vaddr paddr sz flags s of
      (Inl e, s') \<Rightarrow> e = ENoMem \<and> unat (pm_free s) < 2 * (unat sz div 4096) \<and> pt_ok s' root \<and>
        (\<forall>va. unat va < 2 ^ 39 \<and> \<not> (unat vaddr \<le> unat va \<and> unat va < unat vaddr + unat sz) \<longrightarrow>
           translate root va s' = translate root va s)
    | (Inr _, s') \<Rightarrow> pt_ok s' root \<and>
        (\<forall>va. unat va < 2 ^ 39 \<longrightarrow>
           translate root va s' =
             (if unat vaddr \<le> unat va \<and> unat va < unat vaddr + unat sz then paddr + (va - vaddr)
              else translate root va s) \<and>
           translate_user root va s' =
             (if unat vaddr \<le> unat va \<and> unat va < unat vaddr + unat sz
              then if flags AND PTE_U \<noteq> 0 then paddr + (va - vaddr) else 0
              else translate_user root va s))"
proof (cases "vmap root vaddr paddr sz flags s")
  case (Pair r s')
  note ok = map_loop_ok [OF assms(1) leaf_flags_AD [OF assms(2)] assms(3-7)]
  show ?thesis
  proof (cases r)
    case (Inl e)
    then have "unat (pm_free s) < 2 * (unat sz div 4096)"
      using map_loop_fails [OF pt_okD(1) [OF assms(1)] assms(3,5)] assms(6) Pair by (simp add: vmap_def free_n_def)
    then show ?thesis using ok Pair Inl unfolding vmap_def by (simp add: translate_view)
  next
    case (Inr u)
    then have v: "pt_ok s' root" "unat va < 2 ^ 39 \<Longrightarrow>
        view s' root va = map_range vaddr paddr (unat sz) (flags OR PTE_A OR PTE_D) (view s root) va" for va
      using ok Pair unfolding vmap_def by auto
    then show ?thesis using Pair Inr user_bit [OF assms(2)] by (simp add: translate_view translate_user_view map_range_def)
  qed
qed

definition space0 :: pmm where
  "space0 = snd (new_root board)"

lemma space0_root: "new_root board = (Inr 0x80002000, space0)"
proof -
  have "fst (new_root board) = Inr 0x80002000" by code_simp
  then show ?thesis unfolding space0_def by (metis prod.collapse)
qed

lemma space0_ok: "pt_ok space0 0x80002000"
proof (rule empty_space(1) [OF _ _ space0_root])
  show "pmm_ok board" using pmm_run_inv [OF board_run] by simp
  show "unat (pm_base board) + 4096 * unat (pm_total board) \<le> 2 ^ 56" by (simp add: board_def)
qed

theorem map_correct_witness:
  "\<exists>s'. vmap 0x80002000 0x400000 0x90000000 0x2000 22 space0 = (Inr (), s') \<and> pt_ok s' 0x80002000 \<and>
     translate 0x80002000 0x401234 s' = 0x90001234 \<and> translate_user 0x80002000 0x400010 s' = 0x90000010 \<and>
     translate 0x80002000 0x402000 s' = translate 0x80002000 0x402000 space0"
proof -
  have fl: "leaf_flags 22" by (simp add: leaf_flags_def flags_ok_def bit_numeral_rec)
  have "pm_free space0 = 13" unfolding space0_def by code_simp
  then show ?thesis
    using map_correct [OF space0_ok fl, of "0x400000" "0x90000000" "0x2000"]
    by (cases "vmap 0x80002000 0x400000 0x90000000 0x2000 22 space0") (auto simp: PTE_U_def split: sum.splits)
qed

section \<open>Unmapping\<close>

lemma walk_levels_read:
  assumes "tbl (pm_mem s) root (idxs va ls1) = Some t"
  shows "case walk_levels ls va False t s of
      (Inl e, s') \<Rightarrow> s' = s \<and> (e = ENoEnt \<or> e = EInval) \<and> tbl (pm_mem s) root (idxs va (ls1 @ ls)) = None
    | (Inr t', s') \<Rightarrow> s' = s \<and> tbl (pm_mem s) root (idxs va (ls1 @ ls)) = Some t'"
  using assms
proof (induction ls arbitrary: ls1 t)
  case (Cons l ls)
  let ?e = "pm_mem s (pte_slot t (sv39_idx l va))"
  have ix: "idxs va (ls1 @ l # ls) = idxs va ls1 @ sv39_idx l va # idxs va ls" by (simp add: idxs_def)
  show ?case
  proof (cases "table_pte ?e")
    case True
    have "tbl (pm_mem s) root (idxs va (ls1 @ [l])) = Some (pte_target ?e)"
      using Cons.prems True by (simp add: idxs_def tbl_snoc child_def)
    then show ?thesis using Cons.IH [of "ls1 @ [l]" "pte_target ?e", unfolded append.assoc append_Cons append_Nil] True
      by (simp add: Let_def kbind_def table_pte_def)
  next
    case False
    then have "tbl (pm_mem s) root (idxs va (ls1 @ l # ls)) = None"
      unfolding ix using Cons.prems by (simp add: tbl_append child_def)
    then show ?thesis using False by (auto simp: Let_def kbind_def table_pte_def)
  qed
qed simp

lemma pmm_free_aligned:
  assumes "pmm_ok s" and "4096 dvd unat pa"
  shows "used_pages (pmm_free pa s) = used_pages s - {pa}"
proof (cases "pa \<in> pages_of s")
  case True
  then show ?thesis by (rule pmm_free_used [OF assms(1)])
next
  case False
  have "\<not> in_page p pa" if "p \<in> pages_of s" for p
  proof
    assume "in_page p pa"
    then have "unat pa div 4096 = unat p div 4096" using unat_in_page [OF page_aligned [OF assms(1) that]] by simp
    then have "p = pa" using assms(2) page_aligned [OF assms(1) that] by (metis dvd_div_mult_self word_unat_eq_iff)
    then show False using that False by simp
  qed
  then have "pmm_free pa s = s" by (intro pmm_free_outside [OF assms(1)]) blast
  then show ?thesis using False used_subset [of s] by auto
qed

text \<open>The entry of a 4 KiB page, the user page it refers to, and: no such page is one of the tables.\<close>

definition entry0 :: "pmm \<Rightarrow> u64 \<Rightarrow> u64 \<Rightarrow> u64 option" where
  "entry0 s root va = map_option (\<lambda>t. pm_mem s (pte_slot t (sv39_idx 0 va))) (tbl (pm_mem s) root (idxs va [2, 1]))"

definition user_page :: "pmm \<Rightarrow> u64 \<Rightarrow> u64 \<Rightarrow> u64 set" where
  "user_page s root va = {pte_target e | e. entry0 s root va = Some e \<and> bit e 0 \<and> bit e 4}"

definition frames_apart :: "pmm \<Rightarrow> u64 \<Rightarrow> bool" where
  "frames_apart s root \<longleftrightarrow>
     (\<forall>p t va. is_path p \<and> tbl (pm_mem s) root p = Some t \<longrightarrow> t \<notin> user_page s root va)"

lemma pt_ok_free:
  assumes ok: "pt_ok s root" and "4096 dvd unat pa" and "\<forall>p t. is_path p \<and> tbl (pm_mem s) root p = Some t \<longrightarrow> pa \<noteq> t"
  shows "pt_ok (pmm_free pa s) root"
proof -
  note f = pmm_free_ok [OF pt_okD(1) [OF ok], of pa] pmm_free_aligned [OF pt_okD(1) [OF ok] assms(2)]
  have "pm_base (pmm_free pa s) = pm_base s" "pm_total (pmm_free pa s) = pm_total s"
    by (auto simp: pmm_free_def Let_def)
  then show ?thesis using ok f assms(3) unfolding pt_ok_def by auto
qed

lemma view_free: "pmm_ok s \<Longrightarrow> view (pmm_free pa s) root = view s root"
  by (simp add: view_def fun_eq_iff pmm_free_ok)

definition unmap_page :: "u64 \<Rightarrow> (u64 \<Rightarrow> 'a option) \<Rightarrow> u64 \<Rightarrow> 'a option" where
  "unmap_page va f x = (if same_block 0 va x then None else f x)"

lemma store_entry:
  assumes ok: "pt_ok s root" and t: "tbl (pm_mem s) root (idxs va [2, 1]) = Some t"
  defines "s' \<equiv> store (pte_slot t (sv39_idx 0 va)) 0 s"
  shows "is_path q \<Longrightarrow> tbl (pm_mem s') root q = tbl (pm_mem s) root q"
    and "entry0 s' root x = (if same_block 0 va x then Some 0 else entry0 s root x)"
proof -
  have p: "is_path (idxs va [2, 1])" by (rule is_path_idxs) simp
  have ag: "agree_but s root (pm_mem s') (idxs va [2, 1]) (sv39_idx 0 va)"
    using agree_store [OF ok p t sv39_idx_less] by (simp add: s'_def)
  show tb: "tbl (pm_mem s') root q = tbl (pm_mem s) root q" if "is_path q" for q
    by (rule agree_tbl [OF ag that]) (use that in \<open>auto simp: is_path_def idxs_def\<close>)
  have px: "is_path (idxs x [2, 1])" by (rule is_path_idxs) simp
  have blk: "same_block 0 va x \<longleftrightarrow> (idxs x [2, 1], sv39_idx 0 x) = (idxs va [2, 1], sv39_idx 0 va)"
    by (auto simp: same_block_levels idxs_def)
  show "entry0 s' root x = (if same_block 0 va x then Some 0 else entry0 s root x)"
  proof (cases "same_block 0 va x")
    case True
    then show ?thesis using blk tb [OF px] t by (simp add: entry0_def s'_def)
  next
    case False
    then have "pm_mem s' (pte_slot u (sv39_idx 0 x)) = pm_mem s (pte_slot u (sv39_idx 0 x))"
      if "tbl (pm_mem s) root (idxs x [2, 1]) = Some u" for u
      using ag px that sv39_idx_less blk unfolding agree_but_def by blast
    then show ?thesis using False tb [OF px] by (cases "tbl (pm_mem s) root (idxs x [2, 1])") (auto simp: entry0_def)
  qed
qed

lemma unmap_one_ok:
  assumes ok: "pt_ok s root" and apart: "frames_apart s root"
  shows "case unmap_one root va s of
      (Inl e, s') \<Rightarrow> s' = s \<and> entry0 s root va = None
    | (Inr _, s') \<Rightarrow> pt_ok s' root \<and> frames_apart s' root \<and> entry0 s root va \<noteq> None \<and>
        view s' root = unmap_page va (view s root) \<and> used_pages s' = used_pages s - user_page s root va \<and>
        (\<forall>x. entry0 s' root x = (if same_block 0 va x then Some 0 else entry0 s root x))"
proof -
  have w: "case walk_levels [2, 1] va False root s of
      (Inl e, s') \<Rightarrow> s' = s \<and> (e = ENoEnt \<or> e = EInval) \<and> tbl (pm_mem s) root (idxs va ([] @ [2, 1])) = None
    | (Inr t', s') \<Rightarrow> s' = s \<and> tbl (pm_mem s) root (idxs va ([] @ [2, 1])) = Some t'"
    by (rule walk_levels_read) (simp add: idxs_def)
  have rv: "rev [0 + 1..<3] = [2, 1 :: nat]" using rev_levels(2) by simp
  show ?thesis
  proof (cases "tbl (pm_mem s) root (idxs va [2, 1])")
    case None
    then show ?thesis using w unfolding unmap_one_def walk_def rv
      by (auto simp: kbind_def entry0_def split: prod.splits sum.splits)
  next
    case (Some t)
    let ?i = "sv39_idx 0 va" and ?e = "pm_mem s (pte_slot t (sv39_idx 0 va))"
    let ?f = "if bit ?e 0 \<and> bit ?e 4 then pmm_free (pte_target ?e) s else s"
    have "walk_levels [2, 1] va False root s = (Inr t, s)" using w Some by (auto split: prod.splits sum.splits)
    then have eq: "unmap_one root va s = (Inr (), store (pte_slot t ?i) 0 ?f)"
      unfolding unmap_one_def walk_def rv by (simp add: kbind_def kseq_def kwhen_def)
    have e0: "entry0 s root va = Some ?e" using Some by (simp add: entry0_def)
    have fr: "4096 dvd unat (pte_target ?e)" using frame_ok_target by (simp add: frame_ok_def)
    have up: "user_page s root va = (if bit ?e 0 \<and> bit ?e 4 then {pte_target ?e} else {})"
      using e0 by (auto simp: user_page_def)
    have mem: "pm_mem ?f = pm_mem s" using pmm_free_ok(3) [OF pt_okD(1) [OF ok]] by simp
    have okf: "pt_ok ?f root"
    proof (cases "bit ?e 0 \<and> bit ?e 4")
      case True
      have "pte_target ?e \<in> user_page s root va" using up True by simp
      then have "\<forall>p t'. is_path p \<and> tbl (pm_mem s) root p = Some t' \<longrightarrow> pte_target ?e \<noteq> t'"
        using apart unfolding frames_apart_def by blast
      then show ?thesis unfolding if_P [OF True] by (rule pt_ok_free [OF ok fr])
    next
      case False
      show ?thesis unfolding if_not_P [OF False] by (rule ok)
    qed
    have tf: "tbl (pm_mem ?f) root (idxs va [2, 1]) = Some t" using Some mem by simp
    have used: "used_pages ?f = used_pages s - user_page s root va"
      using up pmm_free_aligned [OF pt_okD(1) [OF ok] fr] by simp
    have vf: "view ?f root = view s root" using view_free [OF pt_okD(1) [OF ok]] by simp
    have ef: "entry0 ?f root x = entry0 s root x" for x by (simp only: entry0_def mem)
    note st = store_entry [OF okf tf, unfolded ef]
    let ?s' = "store (pte_slot t ?i) 0 ?f"
    have "pt_ok ?s' root" by (rule pt_ok_store [OF okf is_path_idxs tf sv39_idx_less])
        (simp_all add: table_pte_def leaf_pte_def)
    moreover have "view ?s' root = unmap_page va (view s root)"
    proof
      fix x
      show "view ?s' root x = unmap_page va (view s root) x"
        using view_store [OF okf, of 0 va t 0 x] tf rev_levels(2) vf by (simp add: table_pte_def leaf_pte_def unmap_page_def)
    qed
    moreover have "frames_apart ?s' root" unfolding frames_apart_def
    proof (intro allI impI)
      fix p t' x assume a: "is_path p \<and> tbl (pm_mem ?s') root p = Some t'"
      then have "tbl (pm_mem s) root p = Some t'" using st(1) [of p] unfolding mem by simp
      then have "t' \<notin> user_page s root x" using apart a unfolding frames_apart_def by blast
      moreover have "user_page ?s' root x \<subseteq> user_page s root x" unfolding user_page_def st(2) by auto
      ultimately show "t' \<notin> user_page ?s' root x" by blast
    qed
    ultimately show ?thesis unfolding eq using e0 used st(2) by simp
  qed
qed

end
