(* ===== verification/Vmm_Unmap.thy ===== *)
theory Vmm_Unmap
  imports Vmm_Space
begin

text \<open>
  The remaining operations on whole address spaces: unmapping a range page by page, destroying
  the tables of a process, anonymous memory, and the identity map the kernel boots with.
\<close>

lemma unmap_rounds:
  assumes "pt_ok s root" and "frames_apart s root" and "unat va + 4096 * n \<le> 2 ^ 39" and "4096 dvd unat va"
  shows "\<exists>r s'. unmap root va (of_nat (4096 * n)) s = Some (r, s') \<and> pt_ok s' root \<and> frames_apart s' root \<and>
    (\<forall>x. unat x < 2 ^ 39 \<and> \<not> (unat va \<le> unat x \<and> unat x < unat va + 4096 * n) \<longrightarrow> view s' root x = view s root x) \<and>
    (case r of
       Inr _ \<Rightarrow> (\<forall>x. unat va \<le> unat x \<and> unat x < unat va + 4096 * n \<longrightarrow> view s' root x = None) \<and>
         used_pages s' = used_pages s - (\<Union>k<n. user_page s root (va + of_nat k * 4096))
     | Inl e \<Rightarrow> \<exists>k<n. entry0 s root (va + of_nat k * 4096) = None)"
  using assms
proof (induction n arbitrary: va s)
  case 0
  then show ?case by (auto simp: unmap.simps)
next
  case (Suc n)
  let ?va' = "va + 4096"
  have va: "unat va < 2 ^ 39" using Suc.prems(3) by simp
  have va': "unat ?va' = unat va + 4096" using Suc.prems(3) by (simp add: unat_word_ariths)
  have blk: "same_block 0 va x \<longleftrightarrow> unat va \<le> unat x \<and> unat x < unat va + 4096" if "unat x < 2 ^ 39" for x
  proof -
    obtain k where k: "unat va = 4096 * k" using Suc.prems(4) by blast
    have "same_block 0 va x \<longleftrightarrow> unat x div 4096 = unat va div 4096"
      using same_block_nat [OF _ va that, of 0] by (simp add: level_bits_def)
    also have "\<dots> \<longleftrightarrow> unat va \<le> unat x \<and> unat x < unat va + 4096"
      using block_nat [of 4096 "unat x" k] k by simp
    finally show ?thesis .
  qed
  have "unat (of_nat (4096 * Suc n) :: u64) = 4096 * Suc n"
    by (rule unat_of_nat_u64) (use Suc.prems(3) in simp)
  then have nz: "(of_nat (4096 * Suc n) :: u64) \<noteq> 0" by (metis mult_is_0 nat.distinct(1) unsigned_0 zero_neq_numeral)
  have dec: "(of_nat (4096 * Suc n) :: u64) - 4096 = of_nat (4096 * n)" by simp
  note step = unmap.simps [of root va "of_nat (4096 * Suc n)" s]
  note one = unmap_one_ok [OF Suc.prems(1,2), of va]
  show ?case
  proof (cases "unmap_one root va s")
    case (Pair q s1)
    show ?thesis
    proof (cases q)
      case (Inl e)
      then have "unmap root va (of_nat (4096 * Suc n)) s = Some (Inl e, s)" "entry0 s root (va + of_nat 0 * 4096) = None"
        using one Pair nz by (simp_all only: step if_False prod.case sum.case) simp_all
      then show ?thesis using Suc.prems(1,2) by (auto intro!: exI [of _ "0 :: nat"])
    next
      case (Inr u)
      then have s1: "pt_ok s1 root" "frames_apart s1 root" "view s1 root = unmap_page va (view s root)"
        "used_pages s1 = used_pages s - user_page s root va"
        "entry0 s1 root x = (if same_block 0 va x then Some 0 else entry0 s root x)" for x
        using one Pair by simp_all
      have eq: "unmap root va (of_nat (4096 * Suc n)) s = unmap root ?va' (of_nat (4096 * n)) s1"
        using Pair Inr nz dec by (simp only: step if_False prod.case sum.case)
      have shift: "va + of_nat (Suc k) * 4096 = ?va' + of_nat k * 4096" for k by (simp add: algebra_simps)
      have other: "\<not> same_block 0 va (?va' + of_nat k * 4096)" if "k < n" for k
      proof -
        have "unat (?va' + of_nat k * 4096) = unat va + 4096 + 4096 * k"
          using that Suc.prems(3) va' by (simp add: unat_word_ariths unat_of_nat)
        then show ?thesis using blk [of "?va' + of_nat k * 4096"] that Suc.prems(3) by simp
      qed
      have ent: "entry0 s1 root (?va' + of_nat k * 4096) = entry0 s root (va + of_nat (Suc k) * 4096)" if "k < n" for k
        using s1(5) other [OF that] unfolding shift by simp
      have pages: "(\<Union>k<Suc n. user_page s root (va + of_nat k * 4096))
          = user_page s root va \<union> (\<Union>k<n. user_page s1 root (?va' + of_nat k * 4096))"
      proof -
        have "user_page s1 root (?va' + of_nat k * 4096) = user_page s root (va + of_nat (Suc k) * 4096)" if "k < n" for k
          by (simp only: user_page_def ent [OF that])
        then show ?thesis by (simp only: lessThan_Suc_eq_insert_0) (auto simp: image_iff)
      qed
      have "unat ?va' + 4096 * n \<le> 2 ^ 39" "4096 dvd unat ?va'" using Suc.prems(3,4) unfolding va' by simp_all
      from Suc.IH [OF s1(1,2) this] obtain r s' where ih: "unmap root ?va' (of_nat (4096 * n)) s1 = Some (r, s')"
        "pt_ok s' root" "frames_apart s' root"
        and out: "\<forall>x. unat x < 2 ^ 39 \<and> \<not> (unat ?va' \<le> unat x \<and> unat x < unat ?va' + 4096 * n) \<longrightarrow> view s' root x = view s1 root x"
        and res: "case r of
           Inr _ \<Rightarrow> (\<forall>x. unat ?va' \<le> unat x \<and> unat x < unat ?va' + 4096 * n \<longrightarrow> view s' root x = None) \<and>
             used_pages s' = used_pages s1 - (\<Union>k<n. user_page s1 root (?va' + of_nat k * 4096))
         | Inl e \<Rightarrow> \<exists>k<n. entry0 s1 root (?va' + of_nat k * 4096) = None" by blast
      have outside: "view s' root x = view s root x"
        if "unat x < 2 ^ 39" "\<not> (unat va \<le> unat x \<and> unat x < unat va + 4096 * Suc n)" for x
        using out that s1(3) blk [OF that(1)] unfolding va' unmap_page_def by auto
      have inside: "view s' root x = None"
        if u: "r = Inr u" and x: "unat va \<le> unat x" "unat x < unat va + 4096 * Suc n" for x u
      proof (cases "unat x < unat va + 4096")
        case True
        have "unat x < 2 ^ 39" using x(2) Suc.prems(3) by simp
        then have "view s' root x = view s1 root x" "same_block 0 va x" using out True x(1) blk unfolding va' by auto
        then show ?thesis using s1(3) by (simp add: unmap_page_def)
      next
        case False
        then show ?thesis using res u x(2) unfolding va' by simp
      qed
      have used: "used_pages s' = used_pages s - (\<Union>k<Suc n. user_page s root (va + of_nat k * 4096))" if "r = Inr u" for u
        using res that s1(4) unfolding pages by auto
      have err: "\<exists>k<Suc n. entry0 s root (va + of_nat k * 4096) = None" if e: "r = Inl e" for e
      proof -
        obtain k where "k < n" "entry0 s1 root (?va' + of_nat k * 4096) = None" using res e by auto
        then have "entry0 s root (va + of_nat (Suc k) * 4096) = None" "Suc k < Suc n" using ent by simp_all
        then show ?thesis by blast
      qed
      have result: "case r of
           Inr _ \<Rightarrow> (\<forall>x. unat va \<le> unat x \<and> unat x < unat va + 4096 * Suc n \<longrightarrow> view s' root x = None) \<and>
             used_pages s' = used_pages s - (\<Union>k<Suc n. user_page s root (va + of_nat k * 4096))
         | Inl e \<Rightarrow> \<exists>k<Suc n. entry0 s root (va + of_nat k * 4096) = None"
        using inside used err by (cases r) simp_all
      show ?thesis unfolding eq
        by (rule exI [of _ r], rule exI [of _ s']) (intro conjI ih result allI impI, use outside in blast)
    qed
  qed
qed

text \<open>C32: \<open>unmap\<close> of a page-aligned range whose size is a multiple of the page size always returns.
  When it succeeds, no address of the range is mapped any more, every other address translates as
  before, and exactly the user pages that were mapped in the range have been given back to the
  page allocator; it fails only at a page that has no entry of its own (no table, or a larger
  leaf), and also then nothing outside the range changes.\<close>

theorem unmap_correct:
  assumes "pt_ok s root" and "frames_apart s root" and "4096 dvd unat vaddr" and "4096 dvd unat sz"
    and "unat vaddr + unat sz \<le> 2 ^ 39"
  shows "\<exists>r s'. unmap root vaddr sz s = Some (r, s') \<and> pt_ok s' root \<and> frames_apart s' root \<and>
    (\<forall>va. unat va < 2 ^ 39 \<and> \<not> (unat vaddr \<le> unat va \<and> unat va < unat vaddr + unat sz) \<longrightarrow>
       translate root va s' = translate root va s) \<and>
    (case r of
       Inr _ \<Rightarrow> (\<forall>va. unat vaddr \<le> unat va \<and> unat va < unat vaddr + unat sz \<longrightarrow> translate root va s' = 0) \<and>
         used_pages s' = used_pages s - (\<Union>k<unat sz div 4096. user_page s root (vaddr + of_nat k * 4096))
     | Inl e \<Rightarrow> \<exists>k<unat sz div 4096. entry0 s root (vaddr + of_nat k * 4096) = None)"
proof -
  define n where "n = unat sz div 4096"
  have n: "4096 * n = unat sz" using assms(4) by (simp add: n_def)
  then have sz: "of_nat (4096 * n) = sz" by simp
  have le: "unat vaddr + 4096 * n \<le> 2 ^ 39" using assms(5) unfolding n .
  from unmap_rounds [OF assms(1,2) le assms(3), unfolded sz] obtain r s' where u: "unmap root vaddr sz s = Some (r, s')" "pt_ok s' root" "frames_apart s' root"
    and out: "\<forall>x. unat x < 2 ^ 39 \<and> \<not> (unat vaddr \<le> unat x \<and> unat x < unat vaddr + 4096 * n) \<longrightarrow> view s' root x = view s root x"
    and res: "case r of
       Inr _ \<Rightarrow> (\<forall>x. unat vaddr \<le> unat x \<and> unat x < unat vaddr + 4096 * n \<longrightarrow> view s' root x = None) \<and>
         used_pages s' = used_pages s - (\<Union>k<n. user_page s root (vaddr + of_nat k * 4096))
     | Inl e \<Rightarrow> \<exists>k<n. entry0 s root (vaddr + of_nat k * 4096) = None"
    by blast
  show ?thesis unfolding n_def [symmetric] unfolding n [symmetric]
  proof (rule exI [of _ r], rule exI [of _ s'], intro conjI u allI impI)
    show "translate root va s' = translate root va s"
      if "unat va < 2 ^ 39 \<and> \<not> (unat vaddr \<le> unat va \<and> unat va < unat vaddr + 4096 * n)" for va
      using out that by (simp add: translate_view)
    show "case r of
       Inr _ \<Rightarrow> (\<forall>va. unat vaddr \<le> unat va \<and> unat va < unat vaddr + 4096 * n \<longrightarrow> translate root va s' = 0) \<and>
         used_pages s' = used_pages s - (\<Union>k<n. user_page s root (vaddr + of_nat k * 4096))
     | Inl e \<Rightarrow> \<exists>k<n. entry0 s root (vaddr + of_nat k * 4096) = None"
      using res by (cases r) (simp_all add: translate_view)
  qed
qed

text \<open>An address space with one user page, at address 0.\<close>

definition space1 :: pmm where
  "space1 = board\<lparr>pm_free := 11, pm_bitmap := [15, 0], pm_mem := (\<lambda>_. 0)
     (0x80002000 := mk_pte 0 0x80003000, 0x80003000 := mk_pte 0 0x80004000, 0x80004000 := mk_pte 22 0x90000000)\<rparr>"

lemma space1_pmm: "pmm_ok space1" and space1_bits: "i < 15 \<Longrightarrow> bm_bit (pm_bitmap space1) i = (i < 4)"
proof -
  have "\<forall>i\<in>set [0..<15]. bm_bit [15, 0] i = (i < 4)" by code_simp
  then have b: "bm_bit [15, 0] i = (i < 4)" if "i < 15" for i using that by auto
  then show "i < 15 \<Longrightarrow> bm_bit (pm_bitmap space1) i = (i < 4)" by (simp add: space1_def)
  have "{i. i < 15 \<and> \<not> bm_bit [15, 0] i} = {4..<15}" using b by auto
  then have "free_count [15, 0] 15 = 11" by (simp add: free_count_def)
  then show "pmm_ok space1" by (simp add: pmm_ok_def space1_def board_def)
qed

lemma space1_page: "k < 15 \<Longrightarrow> page_at space1 k = 0x80001000 + of_nat k * 4096"
  by (simp add: page_at_def idx_to_pa_def space1_def board_def PAGE_SIZE_def)

lemma space1_used: "0x80002000 \<in> used_pages space1" "0x80003000 \<in> used_pages space1" "0x80004000 \<in> used_pages space1"
proof -
  have t: "unat (pm_total space1) = 15" by (simp add: space1_def board_def)
  have "page_at space1 k \<in> used_pages space1" if "k < 4" for k
    using that space1_bits [of k] t unfolding used_pages_def by (intro CollectI exI [of _ k]) simp
  from this [of 1] this [of 2] this [of 3]
  show "0x80002000 \<in> used_pages space1" "0x80003000 \<in> used_pages space1" "0x80004000 \<in> used_pages space1"
    by (simp_all add: space1_page)
qed

lemma space1_mem:
  assumes "i < 512"
  shows "pm_mem space1 (pte_slot 0x80002000 i) = (if i = 0 then mk_pte 0 0x80003000 else 0)"
    and "pm_mem space1 (pte_slot 0x80003000 i) = (if i = 0 then mk_pte 0 0x80004000 else 0)"
    and "pm_mem space1 (pte_slot 0x80004000 i) = (if i = 0 then mk_pte 22 0x90000000 else 0)"
proof -
  note u = space1_used [THEN used_subset [THEN subsetD]]
  have z: "pte_slot t 0 = t" for t by (simp add: pte_slot_def)
  have eq: "pte_slot t i = t' \<longleftrightarrow> t = t' \<and> i = 0" if "t \<in> pages_of space1" "t' \<in> pages_of space1" for t t'
    using slot_eq_iff [OF space1_pmm that assms, of 0] by (simp add: z)
  show "pm_mem space1 (pte_slot 0x80002000 i) = (if i = 0 then mk_pte 0 0x80003000 else 0)"
    "pm_mem space1 (pte_slot 0x80003000 i) = (if i = 0 then mk_pte 0 0x80004000 else 0)"
    "pm_mem space1 (pte_slot 0x80004000 i) = (if i = 0 then mk_pte 22 0x90000000 else 0)"
    using eq [OF u(1) u(1)] eq [OF u(1) u(2)] eq [OF u(1) u(3)] eq [OF u(2) u(1)] eq [OF u(2) u(2)] eq [OF u(2) u(3)]
      eq [OF u(3) u(1)] eq [OF u(3) u(2)] eq [OF u(3) u(3)]
    by (auto simp: space1_def)
qed

lemma space1_child:
  assumes "i < 512"
  shows "child (pm_mem space1) 0x80002000 i = (if i = 0 then Some 0x80003000 else None)"
    and "child (pm_mem space1) 0x80003000 i = (if i = 0 then Some 0x80004000 else None)"
proof -
  have "pte_target (mk_pte 0 0x80003000) = 0x80003000" "pte_target (mk_pte 0 0x80004000) = 0x80004000"
    by (rule target_mk_pte; simp add: frame_ok_def)+
  then show "child (pm_mem space1) 0x80002000 i = (if i = 0 then Some 0x80003000 else None)"
    "child (pm_mem space1) 0x80003000 i = (if i = 0 then Some 0x80004000 else None)"
    using space1_mem [OF assms] by (cases "i = 0"; simp add: child_def table_pte_def bit_mk_pte)+
qed

lemma space1_tbl:
  assumes "is_path p"
  shows "tbl (pm_mem space1) 0x80002000 p =
    (if p = [] then Some 0x80002000 else if p = [0] then Some 0x80003000 else if p = [0, 0] then Some 0x80004000 else None)"
proof -
  consider "p = []" | i where "p = [i]" "i < 512" | i j where "p = [i, j]" "i < 512" "j < 512"
    using assms unfolding is_path_def by (cases p; cases "tl p"; cases "tl (tl p)") auto
  then show ?thesis by cases (auto simp: space1_child)
qed

lemma space1_ok: "pt_ok space1 0x80002000"
  unfolding pt_ok_def
proof (intro conjI allI impI)
  show "pmm_ok space1" by (rule space1_pmm)
  show "unat (pm_base space1) + 4096 * unat (pm_total space1) \<le> 2 ^ 56" by (simp add: space1_def board_def)
next
  fix p t assume "is_path p \<and> tbl (pm_mem space1) 0x80002000 p = Some t"
  then show "t \<in> used_pages space1" using space1_used by (auto simp: space1_tbl split: if_splits)
next
  fix p q t assume "is_path p \<and> is_path q \<and> tbl (pm_mem space1) 0x80002000 p = Some t \<and> tbl (pm_mem space1) 0x80002000 q = Some t"
  then show "p = q" by (auto simp: space1_tbl split: if_splits)
next
  fix p t i assume a: "is_path p \<and> length p \<le> 1 \<and> tbl (pm_mem space1) 0x80002000 p = Some t \<and> i < 512 \<and> leaf_pte (pm_mem space1 (pte_slot t i))"
  then have "t = 0x80002000 \<or> t = 0x80003000" by (auto simp: space1_tbl split: if_splits)
  then have False using a space1_mem [of i] by (auto simp: leaf_pte_def bit_mk_pte split: if_splits)
  then show "unat (pte_target (pm_mem space1 (pte_slot t i))) + 2 ^ level_bits (2 - length p) \<le> 2 ^ 56" ..
qed

lemma space1_user: "user_page space1 0x80002000 va = (if idxs va [2, 1, 0] = [0, 0, 0] then {0x90000000} else {})"
proof -
  have p: "is_path (idxs va [2, 1])" by (rule is_path_idxs) simp
  have "pte_target (mk_pte 22 0x90000000) = 0x90000000"
    by (rule target_mk_pte; simp add: frame_ok_def flags_ok_def)
  moreover have "tbl (pm_mem space1) 0x80002000 (idxs va [2, 1]) =
      (if sv39_idx 2 va = 0 \<and> sv39_idx 1 va = 0 then Some 0x80004000 else None)"
    using space1_tbl [OF p] by (simp add: idxs_def del: tbl.simps)
  ultimately show ?thesis using space1_mem(3) [OF sv39_idx_less, of 0 va]
    by (auto simp: user_page_def entry0_def idxs_def bit_mk_pte bit_numeral_rec)
qed

lemma space1_apart: "frames_apart space1 0x80002000"
  unfolding frames_apart_def using space1_user by (auto simp: space1_tbl split: if_splits)

theorem unmap_correct_witness:
  "\<exists>s'. unmap 0x80002000 0 4096 space1 = Some (Inr (), s') \<and> translate 0x80002000 0x123 s' = 0 \<and>
     user_page space1 0x80002000 0 = {0x90000000} \<and> pt_ok s' 0x80002000"
proof -
  have z: "idxs 0 [2, 1, 0] = [0, 0, 0]" "idxs 0 [2, 1] = [0, 0]"
    by (simp_all add: idxs_def sv39_idx_def sv39_l2_idx_def sv39_l1_idx_def sv39_l0_idx_def)
  have "entry0 space1 0x80002000 0 \<noteq> None"
    using space1_tbl [of "[0, 0]"] z by (simp add: entry0_def is_path_def)
  moreover obtain r s' where "unmap 0x80002000 0 4096 space1 = Some (r, s')" "pt_ok s' 0x80002000"
    "case r of Inr _ \<Rightarrow> (\<forall>va. unat (0 :: u64) \<le> unat va \<and> unat va < unat (0 :: u64) + unat (4096 :: u64) \<longrightarrow> translate 0x80002000 va s' = 0) \<and>
         used_pages s' = used_pages space1 - (\<Union>k<unat (4096 :: u64) div 4096. user_page space1 0x80002000 (0 + of_nat k * 4096))
     | Inl e \<Rightarrow> \<exists>k<unat (4096 :: u64) div 4096. entry0 space1 0x80002000 (0 + of_nat k * 4096) = None"
    using unmap_correct [OF space1_ok space1_apart, of 0 4096] by auto
  ultimately show ?thesis using space1_user [of 0] z by (cases r) auto
qed

section \<open>Teardown\<close>

text \<open>\<open>below l m t\<close>: the tables under table \<open>t\<close> of level \<open>l\<close> and the frames of its user leaves.\<close>

definition below :: "nat \<Rightarrow> (u64 \<Rightarrow> u64) \<Rightarrow> u64 \<Rightarrow> u64 set" where
  "below l m t =
     {u. \<exists>p. p \<noteq> [] \<and> length p \<le> l \<and> (\<forall>i\<in>set p. i < 512) \<and> tbl m t p = Some u} \<union>
     {pte_target (m (pte_slot u i)) | p u i. length p \<le> l \<and> (\<forall>i\<in>set p. i < 512) \<and> tbl m t p = Some u \<and> i < 512 \<and>
        leaf_pte (m (pte_slot u i)) \<and> bit (m (pte_slot u i)) 4}"

fun entry_pages :: "nat \<Rightarrow> (u64 \<Rightarrow> u64) \<Rightarrow> u64 \<Rightarrow> u64 set" where
  "entry_pages l m e =
     (if leaf_pte e then if bit e 4 then {pte_target e} else {}
      else if table_pte e \<and> 0 < l then insert (pte_target e) (below (l - 1) m (pte_target e))
      else {})"

lemma below_entries: "below l m t = (\<Union>i<512. entry_pages l m (m (pte_slot t i)))"
proof (intro set_eqI iffI)
  fix x assume "x \<in> below l m t"
  then consider (table) p where "p \<noteq> []" "length p \<le> l" "\<forall>i\<in>set p. i < 512" "tbl m t p = Some x"
    | (leaf) p u i where "length p \<le> l" "\<forall>i\<in>set p. i < 512" "tbl m t p = Some u" "i < 512"
        "leaf_pte (m (pte_slot u i))" "bit (m (pte_slot u i)) 4" "x = pte_target (m (pte_slot u i))"
    by (auto simp: below_def)
  then show "x \<in> (\<Union>i<512. entry_pages l m (m (pte_slot t i)))"
  proof cases
    case table
    then obtain i q where p: "p = i # q" "i < 512" "\<forall>i\<in>set q. i < 512" "length q \<le> l - 1" "0 < l" by (cases p) auto
    let ?e = "m (pte_slot t i)"
    have e: "table_pte ?e" "tbl m (pte_target ?e) q = Some x" using table(4) p(1) by (auto simp: child_def split: if_splits)
    have "q \<noteq> [] \<Longrightarrow> x \<in> below (l - 1) m (pte_target ?e)" using e p unfolding below_def by blast
    then have "x \<in> entry_pages l m ?e" using e p(5) by (cases q) (auto simp: table_pte_def leaf_pte_def)
    then show ?thesis using p(2) by blast
  next
    case leaf
    show ?thesis
    proof (cases p)
      case Nil
      then have "x \<in> entry_pages l m (m (pte_slot t i))" using leaf by simp
      then show ?thesis using leaf(4) by blast
    next
      case (Cons j q)
      let ?e = "m (pte_slot t j)"
      have e: "table_pte ?e" "tbl m (pte_target ?e) q = Some u" using leaf(3) Cons by (auto simp: child_def split: if_splits)
      have q: "length q \<le> l - 1" "0 < l" "\<forall>i\<in>set q. i < 512" "j < 512" using leaf(1,2) Cons by auto
      have "x \<in> below (l - 1) m (pte_target ?e)" using leaf e q unfolding below_def by blast
      then have "x \<in> entry_pages l m ?e" using e q by (simp add: table_pte_def leaf_pte_def)
      then show ?thesis using q by blast
    qed
  qed
next
  fix x assume "x \<in> (\<Union>i<512. entry_pages l m (m (pte_slot t i)))"
  then obtain i where i: "i < 512" "x \<in> entry_pages l m (m (pte_slot t i))" by blast
  let ?e = "m (pte_slot t i)"
  consider (leaf) "leaf_pte ?e" "bit ?e 4" "x = pte_target ?e" | (tab) "table_pte ?e" "0 < l" "x = pte_target ?e"
    | (sub) "table_pte ?e" "0 < l" "x \<in> below (l - 1) m (pte_target ?e)"
    using i(2) by (auto split: if_splits)
  then show "x \<in> below l m t"
  proof cases
    case leaf
    then show ?thesis using i(1) unfolding below_def by (intro UnI2 CollectI exI [of _ "[]"] exI [of _ t] exI [of _ i]) simp
  next
    case tab
    then show ?thesis using i(1) unfolding below_def by (intro UnI1 CollectI exI [of _ "[i]"]) (simp add: child_def)
  next
    case sub
    have c: "child m t i = Some (pte_target ?e)" using sub by (simp add: child_def)
    from sub(3) consider (t) p where "p \<noteq> []" "length p \<le> l - 1" "\<forall>i\<in>set p. i < 512" "tbl m (pte_target ?e) p = Some x"
      | (f) p u j where "length p \<le> l - 1" "\<forall>i\<in>set p. i < 512" "tbl m (pte_target ?e) p = Some u" "j < 512"
        "leaf_pte (m (pte_slot u j))" "bit (m (pte_slot u j)) 4" "x = pte_target (m (pte_slot u j))"
      by (auto simp: below_def)
    then show ?thesis
    proof cases
      case t
      then show ?thesis using c i(1) sub(2) unfolding below_def by (intro UnI1 CollectI exI [of _ "i # p"]) auto
    next
      case f
      then show ?thesis using c i(1) sub(2) unfolding below_def
        by (intro UnI2 CollectI exI [of _ "i # p"] exI [of _ u] exI [of _ j]) auto
    qed
  qed
qed

text \<open>\<open>gives_back s s' A\<close>: the pages of \<open>A\<close> have been freed and nothing else has happened.\<close>

definition gives_back :: "pmm \<Rightarrow> pmm \<Rightarrow> u64 set \<Rightarrow> bool" where
  "gives_back s s' A \<longleftrightarrow> pmm_ok s' \<and> pm_mem s' = pm_mem s \<and> pages_of s' = pages_of s \<and> used_pages s' = used_pages s - A"

lemma gives_back_free: "pmm_ok s \<Longrightarrow> 4096 dvd unat pa \<Longrightarrow> gives_back s (pmm_free pa s) {pa}"
  by (simp add: gives_back_def pmm_free_ok pmm_free_aligned)

lemma gives_back_refl: "pmm_ok s \<Longrightarrow> gives_back s s {}"
  by (simp add: gives_back_def)

lemma gives_back_trans: "gives_back s s1 A \<Longrightarrow> gives_back s1 s2 B \<Longrightarrow> gives_back s s2 (A \<union> B)"
  by (auto simp: gives_back_def)

lemma gives_back_fold:
  assumes "pmm_ok s" and "\<forall>i s'. pmm_ok s' \<and> pm_mem s' = pm_mem s \<longrightarrow> gives_back s' (f i s') (A i)"
  shows "gives_back s (fold f is s) (\<Union>i\<in>set is. A i)"
proof (induction "is" rule: rev_induct)
  case Nil
  then show ?case using gives_back_refl [OF assms(1)] by simp
next
  case (snoc i "is")
  have "gives_back (fold f is s) (f i (fold f is s)) (A i)" using assms(2) snoc by (simp add: gives_back_def)
  then show ?case using gives_back_trans [OF snoc] by (simp add: Un_commute)
qed

lemma free_subtree_gives_back: "pmm_ok s \<Longrightarrow> gives_back s (free_subtree l t s) (below l (pm_mem s) t)"
proof (induction l arbitrary: t s rule: less_induct)
  case (less l)
  define f where "f i s = (let pte = pm_mem s (pte_slot t i) in
       if pte AND PTE_V = 0 then s
       else if pte AND PTE_LEAF \<noteq> 0 then
         if pte AND PTE_U \<noteq> 0 then pmm_free (pte_target pte) s else s
       else if 0 < l then pmm_free (pte_target pte) (free_subtree (l - 1) (pte_target pte) s)
       else s)" for i s
  have fr: "4096 dvd unat (pte_target e)" for e using frame_ok_target by (simp add: frame_ok_def)
  have "gives_back s' (f i s') (entry_pages l (pm_mem s) (pm_mem s (pte_slot t i)))"
    if s': "pmm_ok s'" "pm_mem s' = pm_mem s" for i s'
  proof -
    let ?e = "pm_mem s (pte_slot t i)"
    consider (none) "\<not> bit ?e 0" | (leaf) "leaf_pte ?e" | (tab) "table_pte ?e" by (auto simp: leaf_pte_def table_pte_def)
    then show ?thesis
    proof cases
      case none
      then show ?thesis using s' gives_back_refl by (simp add: f_def leaf_pte_def table_pte_def)
    next
      case leaf
      then have "f i s' = (if bit ?e 4 then pmm_free (pte_target ?e) s' else s')" using s' by (auto simp: f_def leaf_pte_def)
      then show ?thesis using leaf gives_back_free [OF s'(1) fr] gives_back_refl [OF s'(1)] by simp
    next
      case tab
      show ?thesis
      proof (cases "0 < l")
        case True
        then have fe: "f i s' = pmm_free (pte_target ?e) (free_subtree (l - 1) (pte_target ?e) s')"
          using tab s'(2) by (simp add: f_def table_pte_def Let_def)
        have sub: "gives_back s' (free_subtree (l - 1) (pte_target ?e) s') (below (l - 1) (pm_mem s') (pte_target ?e))"
          by (rule less.IH) (use True s' in simp_all)
        have "gives_back (free_subtree (l - 1) (pte_target ?e) s') (f i s') {pte_target ?e}"
          unfolding fe by (rule gives_back_free [OF _ fr]) (use sub in \<open>simp add: gives_back_def\<close>)
        from gives_back_trans [OF sub this] show ?thesis using tab True s'(2) by (simp add: table_pte_def leaf_pte_def)
      next
        case False
        then have "f i s' = s'" using tab s'(2) by (simp add: f_def table_pte_def Let_def)
        then show ?thesis using False tab gives_back_refl [OF s'(1)] by (simp add: table_pte_def leaf_pte_def)
      qed
    qed
  qed
  then have "gives_back s (fold f [0..<512] s) (\<Union>i\<in>set [0..<512]. entry_pages l (pm_mem s) (pm_mem s (pte_slot t i)))"
    by (intro gives_back_fold [OF less.prems]) blast
  moreover have "free_subtree l t s = fold f [0..<512] s" by (subst free_subtree.simps) (simp only: f_def [abs_def])
  ultimately show ?case by (simp only: below_entries set_upt atLeast0LessThan)
qed

lemma destroy_gives_back:
  assumes "pmm_ok s" and "4096 dvd unat root"
  shows "gives_back s (destroy_root root s) (below 2 (pm_mem s) root \<union> {root})"
proof -
  note sub = free_subtree_gives_back [OF assms(1), of 2 root]
  show ?thesis
    unfolding destroy_root_def
    by (rule gives_back_trans [OF sub gives_back_free [OF _ assms(2)]]) (use sub in \<open>simp add: gives_back_def\<close>)
qed

text \<open>Of a leaf above the last level only the page at its target is given back: the other 511 pages of a 2 MiB user leaf (and the other
  262143 of a 1 GiB one) stay in use unless some other entry points at them.\<close>

lemma destroy_leaks_large_leaf:
  assumes "pmm_ok s" "4096 dvd unat root" "is_path p" "length p \<le> 1" "tbl (pm_mem s) root p = Some t" "i < 512"
    and "e = pm_mem s (pte_slot t i)" "leaf_pte e" "bit e 4" "0 < k" "k < 512"
    and "q = pte_target e + 4096 * of_nat k" "q \<in> used_pages s" "q \<notin> below 2 (pm_mem s) root" "q \<noteq> root"
  shows "q \<in> used_pages (destroy_root root s)"
  using destroy_gives_back [OF assms(1,2)] assms(13-15) by (simp add: gives_back_def)

text \<open>C33: Destroying an address space gives back the pages of its tables and, of every leaf with the user flag, the page at the leaf's target, and
  no other page: the pages of the whole tree of tables, the root included, and the frames those leaves point at. For a 4 KiB leaf that is the
  whole frame; of a 2 MiB or 1 GiB user leaf only the first 4 KiB page is given back and the others stay in use.
  Kernel frames (leaves without that flag) stay in use, and memory is not written.\<close>

theorem destroy_root_correct:
  assumes "pmm_ok s" and "4096 dvd unat root"
  shows "pmm_ok (destroy_root root s) \<and> pm_mem (destroy_root root s) = pm_mem s \<and>
    used_pages (destroy_root root s) = used_pages s -
      ({t. \<exists>p. is_path p \<and> tbl (pm_mem s) root p = Some t} \<union>
       {pte_target (pm_mem s (pte_slot t i)) | p t i. is_path p \<and> tbl (pm_mem s) root p = Some t \<and> i < 512 \<and>
          leaf_pte (pm_mem s (pte_slot t i)) \<and> bit (pm_mem s (pte_slot t i)) 4})"
proof -
  note destroy_gives_back [OF assms]
  moreover have "{t. \<exists>p. is_path p \<and> tbl (pm_mem s) root p = Some t} =
      {u. \<exists>p. p \<noteq> [] \<and> length p \<le> 2 \<and> (\<forall>i\<in>set p. i < 512) \<and> tbl (pm_mem s) root p = Some u} \<union> {root}"
  proof (intro set_eqI iffI)
    fix t assume "t \<in> {t. \<exists>p. is_path p \<and> tbl (pm_mem s) root p = Some t}"
    then obtain p where "is_path p" "tbl (pm_mem s) root p = Some t" by blast
    then show "t \<in> {u. \<exists>p. p \<noteq> [] \<and> length p \<le> 2 \<and> (\<forall>i\<in>set p. i < 512) \<and> tbl (pm_mem s) root p = Some u} \<union> {root}"
      unfolding is_path_def by (cases "p = []") auto
  next
    fix t assume "t \<in> {u. \<exists>p. p \<noteq> [] \<and> length p \<le> 2 \<and> (\<forall>i\<in>set p. i < 512) \<and> tbl (pm_mem s) root p = Some u} \<union> {root}"
    then show "t \<in> {t. \<exists>p. is_path p \<and> tbl (pm_mem s) root p = Some t}"
      unfolding is_path_def by (elim UnE CollectE exE) (blast, force intro: exI [of _ "[]"])
  qed
  ultimately show ?thesis unfolding gives_back_def below_def is_path_def by (auto simp only: Un_assoc Un_left_commute conj_assoc)
qed

theorem destroy_root_correct_witness:
  "0x80004000 \<in> used_pages space1 \<and> 0x80004000 \<notin> used_pages (destroy_root 0x80002000 space1) \<and>
   0x80002000 \<notin> used_pages (destroy_root 0x80002000 space1) \<and> pmm_ok (destroy_root 0x80002000 space1)"
proof -
  have p: "is_path [0, 0]" "is_path []" by (simp_all add: is_path_def)
  have "tbl (pm_mem space1) 0x80002000 [0, 0] = Some 0x80004000" "tbl (pm_mem space1) 0x80002000 [] = Some 0x80002000"
    using space1_tbl [OF p(1)] space1_tbl [OF p(2)] by (simp_all del: tbl.simps)
  then show ?thesis using destroy_root_correct [OF space1_pmm, of "0x80002000"] p space1_used(3)
    by (simp del: tbl.simps) blast
qed

section \<open>Anonymous memory\<close>

lemma alloc_same_space:
  assumes ok: "pt_ok s root" and al: "pmm_alloc s = (Inr n, s1)"
  shows "same_space s s1 root"
proof -
  note a = pmm_alloc_ok [OF pt_okD(1) [OF ok] al]
  have ag: "agree_but s root (pm_mem s1) [] 512" unfolding agree_but_def
  proof (intro allI impI)
    fix q t and j :: nat assume q: "is_path q \<and> tbl (pm_mem s) root q = Some t \<and> j < 512 \<and> (q, j) \<noteq> ([], 512)"
    then have "t \<in> used_pages s" "t \<in> pages_of s" using pt_okD(3) [OF ok] tbl_used_pages [OF ok] by auto
    then have "\<not> in_page n (pte_slot t j)"
      using pages_disjoint [OF pt_okD(1) [OF ok], of n t] in_page_slot [of j t] q a(2,3) by auto
    then show "pm_mem s1 (pte_slot t j) = pm_mem s (pte_slot t j)" by (simp add: a(7))
  qed
  have tb: "tbl (pm_mem s1) root q = tbl (pm_mem s) root q" if "is_path q" for q
    by (rule agree_tbl [OF ag that]) (use that in \<open>auto simp: is_path_def\<close>)
  have "view s1 root va = view s root va" for va
  proof -
    have "\<forall>r. idxs va [2, 1, 0] \<noteq> [] @ 512 # r" using sv39_idx_less [of 2 va] by (simp add: idxs_def)
    then show ?thesis using agree_vlook [OF ag, of va] by (simp only: view_def) simp
  qed
  moreover have "pt_ok s1 root" unfolding pt_ok_def
  proof (intro conjI allI impI)
    show "pmm_ok s1" by (rule a(1))
    show "unat (pm_base s1) + 4096 * unat (pm_total s1) \<le> 2 ^ 56" using pt_okD(2) [OF ok] pmm_alloc_shape [OF al] by simp
  next
    fix p t assume "is_path p \<and> tbl (pm_mem s1) root p = Some t"
    then show "t \<in> used_pages s1" using tb [of p] pt_okD(3) [OF ok, of p t] a(4) by simp
  next
    fix p q t assume b: "is_path p \<and> is_path q \<and> tbl (pm_mem s1) root p = Some t \<and> tbl (pm_mem s1) root q = Some t"
    have "tbl (pm_mem s) root p = Some t" using b tb [of p] by simp
    moreover have "tbl (pm_mem s) root q = Some t" using b tb [of q] by simp
    ultimately show "p = q" using pt_okD(4) [OF ok] b by blast
  next
    fix p t j assume b: "is_path p \<and> length p \<le> 1 \<and> tbl (pm_mem s1) root p = Some t \<and> j < 512 \<and> leaf_pte (pm_mem s1 (pte_slot t j))"
    then have t: "tbl (pm_mem s) root p = Some t" using tb [of p] by simp
    then have "pm_mem s1 (pte_slot t j) = pm_mem s (pte_slot t j)" using ag b unfolding agree_but_def by auto
    then show "unat (pte_target (pm_mem s1 (pte_slot t j))) + 2 ^ level_bits (2 - length p) \<le> 2 ^ 56"
      using pt_okD(5) [OF ok, of p t j] b t by simp
  qed
  ultimately show ?thesis using a(4,5) by (auto simp: same_space_def fun_eq_iff)
qed

text \<open>What is mapped after a round, in terms of the page it took.\<close>

definition fresh_at :: "pmm \<Rightarrow> pmm \<Rightarrow> u64 \<Rightarrow> u64 \<Rightarrow> u64 \<Rightarrow> bool" where
  "fresh_at s s' root flags x \<longleftrightarrow>
     (\<exists>pg. view s' root x = Some (pg + take_bit 12 x, PTE_V OR flags) \<and> pg \<in> used_pages s' - used_pages s)"

lemma map_anon_round:
  assumes ok: "pt_ok s root" and fl: "leaf_flags fl" and va: "unat va + 4096 \<le> 2 ^ 39" "4096 dvd unat va"
  shows "case kbind alloc_zero (\<lambda>pg. map_one root va pg fl 0) s of
      (Inl e, s') \<Rightarrow> e = ENoMem \<and> same_space s s' root
    | (Inr _, s') \<Rightarrow> pt_ok s' root \<and> used_pages s \<subseteq> used_pages s' \<and>
        (\<forall>x. unat x < 2 ^ 39 \<longrightarrow>
           (if unat va \<le> unat x \<and> unat x < unat va + 4096 then fresh_at s s' root fl x else view s' root x = view s root x))"
proof (cases "pmm_alloc s")
  case (Pair r s1)
  show ?thesis
  proof (cases r)
    case (Inl e)
    then show ?thesis using Pair pmm_alloc_fails [OF pt_okD(1) [OF ok], of e s1] same_space_refl [OF ok]
      by (simp add: kbind_def alloc_zero_def)
  next
    case (Inr pg)
    then have al: "pmm_alloc s = (Inr pg, s1)" using Pair by simp
    note a = pmm_alloc_ok [OF pt_okD(1) [OF ok] al]
    note s1 = alloc_same_space [OF ok al]
    have fr: "frame_ok pg" by (rule pool_frame_ok [OF ok a(2)])
    have "unat pg + 4096 \<le> 2 ^ 56" using fr by (auto simp: frame_ok_def elim!: dvdE)
    then have "map_arg pg fl 0" using fl fr by (simp add: map_arg_def level_bits_def)
    then have one: "case map_one root va pg fl 0 s1 of
        (Inl e, s') \<Rightarrow> e = ENoMem \<and> same_space s1 s' root
      | (Inr _, s') \<Rightarrow> pt_ok s' root \<and> view s' root = map_block 0 va pg fl (view s1 root) \<and>
          pages_of s' = pages_of s1 \<and> used_pages s1 \<subseteq> used_pages s'"
      using s1 by (intro map_one_ok) (simp_all add: same_space_def)
    have blk: "same_block 0 va x \<longleftrightarrow> unat va \<le> unat x \<and> unat x < unat va + 4096" if x: "unat x < 2 ^ 39" for x
    proof -
      obtain k where k: "unat va = 4096 * k" using va(2) by blast
      have "unat va < 2 ^ 39" using va(1) by simp
      then show ?thesis using same_block_nat [OF _ _ x, of 0 va] block_nat [of 4096 "unat x" k] k
        by (simp add: level_bits_def)
    qed
    show ?thesis
    proof (cases "map_one root va pg fl 0 s1")
      case (Pair q s2)
      show ?thesis
      proof (cases q)
        case (Inl e)
        then show ?thesis using one Pair al same_space_trans [OF s1] by (simp add: kbind_def alloc_zero_def)
      next
        case (Inr u)
        then have s2: "pt_ok s2 root" "view s2 root = map_block 0 va pg fl (view s root)" "used_pages s1 \<subseteq> used_pages s2"
          using one Pair s1 by (simp_all add: same_space_def)
        have "pg \<in> used_pages s2 - used_pages s" using s2(3) a(3,4) by auto
        then show ?thesis using Pair Inr al s2 a(4) blk
          by (auto simp: kbind_def alloc_zero_def fresh_at_def map_block_def level_bits_def)
      qed
    qed
  qed
qed

lemma map_anon_ok:
  assumes "pt_ok s root" and "leaf_flags flags" and "unat va + 4096 * n \<le> 2 ^ 39" and "4096 dvd unat va"
  shows "\<exists>r s'. map_anon root va (of_nat (4096 * n)) flags s = Some (r, s') \<and> pt_ok s' root \<and> used_pages s \<subseteq> used_pages s' \<and>
    (\<forall>x. unat x < 2 ^ 39 \<and> \<not> (unat va \<le> unat x \<and> unat x < unat va + 4096 * n) \<longrightarrow> view s' root x = view s root x) \<and>
    (case r of
       Inl e \<Rightarrow> e = ENoMem
     | Inr _ \<Rightarrow> \<forall>x. unat va \<le> unat x \<and> unat x < unat va + 4096 * n \<longrightarrow> fresh_at s s' root (flags OR PTE_A OR PTE_D) x)"
  using assms
proof (induction n arbitrary: va s)
  case 0
  then show ?case by (auto simp: map_anon.simps)
next
  case (Suc n)
  let ?va' = "va + 4096" and ?fl = "flags OR PTE_A OR PTE_D"
  have va': "unat ?va' = unat va + 4096" using Suc.prems(3) by (simp add: unat_word_ariths)
  have "unat (of_nat (4096 * Suc n) :: u64) = 4096 * Suc n"
    by (rule unat_of_nat_u64) (use Suc.prems(3) in simp)
  then have nz: "(of_nat (4096 * Suc n) :: u64) \<noteq> 0" by (metis mult_is_0 nat.distinct(1) unsigned_0 zero_neq_numeral)
  have dec: "(of_nat (4096 * Suc n) :: u64) - push_bit 12 1 = of_nat (4096 * n)" by simp
  have inc: "va + push_bit 12 1 = ?va'" by simp
  note step = map_anon.simps [of root va "of_nat (4096 * Suc n)" flags s]
  have one: "case kbind alloc_zero (\<lambda>pg. map_one root va pg ?fl 0) s of
      (Inl e, s') \<Rightarrow> e = ENoMem \<and> same_space s s' root
    | (Inr _, s') \<Rightarrow> pt_ok s' root \<and> used_pages s \<subseteq> used_pages s' \<and>
        (\<forall>x. unat x < 2 ^ 39 \<longrightarrow>
           (if unat va \<le> unat x \<and> unat x < unat va + 4096 then fresh_at s s' root ?fl x else view s' root x = view s root x))"
    using Suc.prems by (intro map_anon_round leaf_flags_AD) simp_all
  show ?case
  proof (cases "kbind alloc_zero (\<lambda>pg. map_one root va pg ?fl 0) s")
    case (Pair q s1)
    show ?thesis
    proof (cases q)
      case (Inl e)
      then have "map_anon root va (of_nat (4096 * Suc n)) flags s = Some (Inl e, s1)"
        using Pair nz by (simp only: step if_False prod.case sum.case)
      then show ?thesis using one Pair Inl by (simp add: same_space_def)
    next
      case (Inr u)
      then have s1: "pt_ok s1 root" "used_pages s \<subseteq> used_pages s1"
        and v1: "unat x < 2 ^ 39 \<Longrightarrow>
           if unat va \<le> unat x \<and> unat x < unat va + 4096 then fresh_at s s1 root ?fl x else view s1 root x = view s root x" for x
        using one Pair by simp_all
      have eq: "map_anon root va (of_nat (4096 * Suc n)) flags s = map_anon root ?va' (of_nat (4096 * n)) flags s1"
        using Pair Inr nz by (simp only: step dec inc if_False prod.case sum.case)
      have "unat ?va' + 4096 * n \<le> 2 ^ 39" "4096 dvd unat ?va'" using Suc.prems(3,4) unfolding va' by simp_all
      from Suc.IH [OF s1(1) Suc.prems(2) this] obtain r s' where
        ih: "map_anon root ?va' (of_nat (4096 * n)) flags s1 = Some (r, s')" "pt_ok s' root" "used_pages s1 \<subseteq> used_pages s'"
        and out: "\<forall>x. unat x < 2 ^ 39 \<and> \<not> (unat ?va' \<le> unat x \<and> unat x < unat ?va' + 4096 * n) \<longrightarrow> view s' root x = view s1 root x"
        and res: "case r of Inl e \<Rightarrow> e = ENoMem
         | Inr _ \<Rightarrow> \<forall>x. unat ?va' \<le> unat x \<and> unat x < unat ?va' + 4096 * n \<longrightarrow> fresh_at s1 s' root ?fl x" by blast
      have outside: "view s' root x = view s root x"
        if "unat x < 2 ^ 39" "\<not> (unat va \<le> unat x \<and> unat x < unat va + 4096 * Suc n)" for x
        using out that v1 [OF that(1)] unfolding va' by (auto split: if_splits)
      have inside: "fresh_at s s' root ?fl x"
        if u: "r = Inr u'" and x: "unat va \<le> unat x" "unat x < unat va + 4096 * Suc n" for x u'
      proof (cases "unat x < unat va + 4096")
        case True
        have "unat x < 2 ^ 39" using x(2) Suc.prems(3) by simp
        then have "view s' root x = view s1 root x" "fresh_at s s1 root ?fl x" using out True x(1) v1 [of x] unfolding va' by auto
        then show ?thesis using ih(3) by (auto simp: fresh_at_def)
      next
        case False
        then have "fresh_at s1 s' root ?fl x" using res u x(2) unfolding va' by simp
        then show ?thesis using s1(2) by (auto simp: fresh_at_def)
      qed
      have result: "case r of Inl e \<Rightarrow> e = ENoMem
         | Inr _ \<Rightarrow> \<forall>x. unat va \<le> unat x \<and> unat x < unat va + 4096 * Suc n \<longrightarrow> fresh_at s s' root ?fl x"
        using res inside by (cases r) simp_all
      have "used_pages s \<subseteq> used_pages s'" using s1(2) ih(3) by blast
      then show ?thesis unfolding eq
        by (intro exI [of _ r] exI [of _ s'] conjI ih(1,2) result allI impI) (use outside in blast)+
    qed
  qed
qed

text \<open>C34: \<open>map_anon\<close> on a page-aligned range whose size is a multiple of the page size always returns;
  it fails only for lack of memory. When it succeeds, every address of the range translates into a
  page that nobody was using before the call and that is in use now; whatever happens, addresses
  outside the range translate as before and no page that was in use is released.\<close>

theorem map_anon_correct:
  assumes "pt_ok s root" and "leaf_flags flags" and "4096 dvd unat vaddr" and "4096 dvd unat sz"
    and "unat vaddr + unat sz \<le> 2 ^ 39"
  shows "\<exists>r s'. map_anon root vaddr sz flags s = Some (r, s') \<and> pt_ok s' root \<and> used_pages s \<subseteq> used_pages s' \<and>
    (\<forall>va. unat va < 2 ^ 39 \<and> \<not> (unat vaddr \<le> unat va \<and> unat va < unat vaddr + unat sz) \<longrightarrow>
       translate root va s' = translate root va s) \<and>
    (case r of
       Inl e \<Rightarrow> e = ENoMem
     | Inr _ \<Rightarrow> \<forall>va. unat vaddr \<le> unat va \<and> unat va < unat vaddr + unat sz \<longrightarrow>
         (\<exists>pg. translate root va s' = pg + take_bit 12 va \<and> pg \<in> used_pages s' - used_pages s))"
proof -
  define n where "n = unat sz div 4096"
  have n: "4096 * n = unat sz" using assms(4) by (simp add: n_def)
  then have sz: "of_nat (4096 * n) = sz" by simp
  have le: "unat vaddr + 4096 * n \<le> 2 ^ 39" using assms(5) unfolding n .
  from map_anon_ok [OF assms(1,2) le assms(3), unfolded sz] obtain r s' where
    u: "map_anon root vaddr sz flags s = Some (r, s')" "pt_ok s' root" "used_pages s \<subseteq> used_pages s'"
    and out: "\<forall>x. unat x < 2 ^ 39 \<and> \<not> (unat vaddr \<le> unat x \<and> unat x < unat vaddr + 4096 * n) \<longrightarrow> view s' root x = view s root x"
    and res: "case r of Inl e \<Rightarrow> e = ENoMem
     | Inr _ \<Rightarrow> \<forall>x. unat vaddr \<le> unat x \<and> unat x < unat vaddr + 4096 * n \<longrightarrow> fresh_at s s' root (flags OR PTE_A OR PTE_D) x"
    by blast
  show ?thesis unfolding n [symmetric]
  proof (intro exI [of _ r] exI [of _ s'] conjI u allI impI)
    show "translate root va s' = translate root va s"
      if "unat va < 2 ^ 39 \<and> \<not> (unat vaddr \<le> unat va \<and> unat va < unat vaddr + 4096 * n)" for va
      using out that by (simp add: translate_view)
    show "case r of Inl e \<Rightarrow> e = ENoMem
     | Inr _ \<Rightarrow> \<forall>va. unat vaddr \<le> unat va \<and> unat va < unat vaddr + 4096 * n \<longrightarrow>
         (\<exists>pg. translate root va s' = pg + take_bit 12 va \<and> pg \<in> used_pages s' - used_pages s)"
      using res by (cases r) (auto simp: translate_view fresh_at_def)
  qed
qed

theorem map_anon_correct_witness:
  "\<exists>r s'. map_anon 0x80002000 0x10000 0x2000 22 space0 = Some (r, s') \<and> pt_ok s' 0x80002000 \<and>
     translate 0x80002000 0x12000 s' = translate 0x80002000 0x12000 space0"
proof -
  have fl: "leaf_flags 22" by (simp add: leaf_flags_def flags_ok_def bit_numeral_rec)
  obtain r s' where "map_anon 0x80002000 0x10000 0x2000 22 space0 = Some (r, s')" "pt_ok s' 0x80002000"
    "\<forall>va. unat va < 2 ^ 39 \<and> \<not> (unat (0x10000 :: u64) \<le> unat va \<and> unat va < unat (0x10000 :: u64) + unat (0x2000 :: u64)) \<longrightarrow>
       translate 0x80002000 va s' = translate 0x80002000 va space0"
    using map_anon_correct [OF space0_ok fl, of "0x10000" "0x2000"] by auto
  then show ?thesis by (intro exI [of _ r] exI [of _ s']) simp
qed

section \<open>The kernel's identity map\<close>

lemma store_root_leaf:
  assumes ok: "pt_ok s root" and fl: "leaf_flags fl" and k: "k < 512"
  defines "s' \<equiv> store (pte_slot root k) (mk_pte fl (push_bit 30 (of_nat k))) s"
  shows "pt_ok s' root"
    and "unat va < 2 ^ 39 \<Longrightarrow> view s' root va = (if unat va div 2 ^ 30 = k then Some (va, PTE_V OR fl) else view s root va)"
proof -
  let ?pa = "push_bit 30 (of_nat k) :: u64" and ?va = "push_bit 30 (of_nat k) :: u64"
  have pa: "unat ?pa = k * 2 ^ 30" using k by (simp add: push_bit_eq_mult unat_word_ariths unat_of_nat)
  have fr: "frame_ok ?pa" using k by (auto simp: frame_ok_def pa)
  have flg: "flags_ok fl" "bit fl 1 \<or> bit fl 3" using fl by (simp_all add: leaf_flags_def)
  have e: "leaf_pte (mk_pte fl ?pa)" "\<not> table_pte (mk_pte fl ?pa)"
    using flg by (auto simp: leaf_pte_def table_pte_def bit_mk_pte)
  have ix: "sv39_idx 2 ?va = k" using sv39_idx_levels(1) [of ?va] k by (simp add: pa)
  have t: "tbl (pm_mem s) root (idxs ?va (rev [Suc 2..<3])) = Some root" by (simp add: idxs_def)
  show "pt_ok s' root" unfolding s'_def
    by (rule pt_ok_store [OF ok, of "[]"]) (use k e in \<open>simp_all add: is_path_def target_mk_pte [OF flg(1) fr] pa level_bits_def\<close>)
  assume va: "unat va < 2 ^ 39"
  have vk: "unat ?va < 2 ^ 39" using k by (simp add: pa)
  have blk: "same_block 2 ?va va \<longleftrightarrow> unat va div 2 ^ 30 = k"
    using same_block_nat [OF _ vk va, of 2] by (simp add: level_bits_def pa)
  have lv: "leaf_view va (2, mk_pte fl ?pa) = (va, PTE_V OR fl)" if "unat va div 2 ^ 30 = k"
  proof -
    have "?pa + take_bit 30 va = va"
      using that va k by (simp add: word_unat_eq_iff unat_word_ariths pa unat_take_bit_nat) (metis div_mult_mod_eq)
    then show ?thesis unfolding leaf_view_def low_mask
      by (simp add: level_bits_def target_mk_pte [OF flg(1) fr] flags_mk_pte [OF flg(1)])
  qed
  show "view s' root va = (if unat va div 2 ^ 30 = k then Some (va, PTE_V OR fl) else view s root va)"
    using view_store [OF ok _ t e(2), of va] e(1) blk lv unfolding ix s'_def by simp
qed

lemma vmm_init_ok:
  assumes "pmm_ok (vm_pmm v)" and "unat (pm_base (vm_pmm v)) + 4096 * unat (pm_total (vm_pmm v)) \<le> 2 ^ 56"
    and "vmm_init v = (Inr root, v')"
  shows "pt_ok (vm_pmm v') root" and "kernel_root v' = root \<and> vm_smp_root v' = root"
    and "unat va < 2 ^ 39 \<Longrightarrow> translate root va (vm_pmm v') = (if unat va < 3 * 2 ^ 30 then va else 0)"
    and "vm_satp v' = SATP_MODE_SV39 OR drop_bit 12 root"
proof -
  let ?fl = "PTE_V OR PTE_R OR PTE_W OR PTE_X OR PTE_A OR PTE_D"
  define st where "st = (\<lambda>k. store (pte_slot root k) (mk_pte ?fl (push_bit 30 (of_nat k))))"
  obtain s where s: "new_root (vm_pmm v) = (Inr root, s)"
    and v': "v' = install_root root (v\<lparr>vm_pmm := fold st [0..<3] s, vm_smp_root := root, vm_kernel_root := root\<rparr>)"
    using assms(3) by (auto simp: vmm_init_def Let_def st_def split: prod.splits sum.splits)
  have three: "fold st [0..<3] s = st 2 (st 1 (st 0 s))" by (simp add: upt_rec numeral_3_eq_3 numeral_2_eq_2)
  have fl: "leaf_flags ?fl" by (simp add: leaf_flags_def flags_ok_def PTE_V_def PTE_R_def PTE_W_def PTE_X_def PTE_A_def PTE_D_def bit_numeral_rec)
  note e = empty_space [OF assms(1,2) s]
  note l0 = store_root_leaf [OF e(1) fl, of 0, folded st_def]
  have ok0: "pt_ok (st 0 s) root" using l0(1) by (simp add: st_def)
  have ok1: "pt_ok (st 1 (st 0 s)) root" using store_root_leaf(1) [OF ok0 fl, of 1] by (simp add: st_def)
  have ok2: "pt_ok (st 2 (st 1 (st 0 s))) root" using store_root_leaf(1) [OF ok1 fl, of 2] by (simp add: st_def)
  have v0: "view (st 0 s) root va = (if unat va div 2 ^ 30 = 0 then Some (va, PTE_V OR ?fl) else None)" if "unat va < 2 ^ 39" for va
    using store_root_leaf(2) [OF e(1) fl _ that, of 0] e(2) by (simp add: st_def)
  have v1: "view (st 1 (st 0 s)) root va = (if unat va div 2 ^ 30 = 1 then Some (va, PTE_V OR ?fl) else view (st 0 s) root va)"
    if "unat va < 2 ^ 39" for va
    using store_root_leaf(2) [OF ok0 fl _ that, of 1] by (simp add: st_def)
  have v2: "view (st 2 (st 1 (st 0 s))) root va = (if unat va div 2 ^ 30 = 2 then Some (va, PTE_V OR ?fl) else view (st 1 (st 0 s)) root va)"
    if "unat va < 2 ^ 39" for va
    using store_root_leaf(2) [OF ok1 fl _ that, of 2] by (simp add: st_def)
  show "pt_ok (vm_pmm v') root" "kernel_root v' = root \<and> vm_smp_root v' = root" "vm_satp v' = SATP_MODE_SV39 OR drop_bit 12 root"
    using ok2 by (simp_all add: v' install_root_def kernel_root_def three)
  assume va: "unat va < 2 ^ 39"
  have "unat va < 3 * 2 ^ 30 \<longleftrightarrow> unat va div 2 ^ 30 = 0 \<or> unat va div 2 ^ 30 = 1 \<or> unat va div 2 ^ 30 = 2"
  proof -
    have "unat va div 2 ^ 30 < 3 \<longleftrightarrow> unat va < 3 * 2 ^ 30" by (simp add: div_less_iff_less_mult)
    then show ?thesis by linarith
  qed
  then show "translate root va (vm_pmm v') = (if unat va < 3 * 2 ^ 30 then va else 0)"
    using v0 [OF va] v1 [OF va] v2 [OF va] by (simp add: v' install_root_def three translate_view)
qed

end
