(* ===== verification/Onx_Format.thy ===== *)
theory Onx_Format
  imports Core_Types
begin

text \<open>
  The executable format OnyxExec (\<open>core/src/formats/header.rs\<close>, \<open>segment.rs\<close>): segment
  descriptors of 40 (version 1) and 48 (version 2) bytes and the header with its segment table.
  \<open>onx_from_bytes\<close> is \<open>OnxHeader::from_bytes\<close>; it is applied to a whole file, so the
  round-trip theorems have arbitrary bytes after the header.
\<close>

definition ONX_MAGIC :: u32 where "ONX_MAGIC = 0x31584E4F"
definition ONX_FLAGS_RING1 :: u32 where "ONX_FLAGS_RING1 = 0x2"
definition ONX_FLAGS_COMPRESSED :: u32 where "ONX_FLAGS_COMPRESSED = 0x4"
definition ONX_MAX_SEGS :: nat where "ONX_MAX_SEGS = 256"
definition V1_HEADER_SIZE :: nat where "V1_HEADER_SIZE = 344"
definition V2_HEADER_SIZE :: nat where "V2_HEADER_SIZE = 32"
definition SIZE_V1 :: nat where "SIZE_V1 = 40"
definition SIZE_V2 :: nat where "SIZE_V2 = 48"

lemmas onx_consts = ONX_MAGIC_def ONX_MAX_SEGS_def V1_HEADER_SIZE_def V2_HEADER_SIZE_def
  SIZE_V1_def SIZE_V2_def

section \<open>Segments\<close>

record onx_segment =
  seg_vaddr :: u64
  seg_filesz :: u64
  seg_memsz :: u64
  seg_offset :: u32
  seg_flags :: u32
  seg_align :: u32
  seg_reserved :: u32
  seg_compressed_size :: u32

definition seg_from_bytes_v1 :: "bytes \<Rightarrow> onx_segment option" where
  "seg_from_bytes_v1 buf =
     (if length buf < SIZE_V1 then None
      else Some \<lparr>
        seg_vaddr = le64 (slc buf 0 8),
        seg_filesz = le64 (slc buf 8 16),
        seg_memsz = le64 (slc buf 16 24),
        seg_offset = le32 (slc buf 24 28),
        seg_flags = le32 (slc buf 28 32),
        seg_align = le32 (slc buf 32 36),
        seg_reserved = le32 (slc buf 36 40),
        seg_compressed_size = 0\<rparr>)"

definition seg_from_bytes_v2 :: "bytes \<Rightarrow> onx_segment option" where
  "seg_from_bytes_v2 buf =
     (if length buf < SIZE_V2 then None
      else Some \<lparr>
        seg_vaddr = le64 (slc buf 0 8),
        seg_filesz = le64 (slc buf 8 16),
        seg_memsz = le64 (slc buf 16 24),
        seg_offset = le32 (slc buf 24 28),
        seg_flags = le32 (slc buf 28 32),
        seg_align = le32 (slc buf 32 36),
        seg_reserved = le32 (slc buf 36 40),
        seg_compressed_size = le32 (slc buf 40 44)\<rparr>)"

definition seg_to_bytes_v1 :: "onx_segment \<Rightarrow> bytes" where
  "seg_to_bytes_v1 s = blits 40 [
     (0, to_le 8 (seg_vaddr s)),
     (8, to_le 8 (seg_filesz s)),
     (16, to_le 8 (seg_memsz s)),
     (24, to_le 4 (seg_offset s)),
     (28, to_le 4 (seg_flags s)),
     (32, to_le 4 (seg_align s)),
     (36, to_le 4 (seg_reserved s))]"

definition seg_to_bytes_v2 :: "onx_segment \<Rightarrow> bytes" where
  "seg_to_bytes_v2 s = blits 48 [
     (0, to_le 8 (seg_vaddr s)),
     (8, to_le 8 (seg_filesz s)),
     (16, to_le 8 (seg_memsz s)),
     (24, to_le 4 (seg_offset s)),
     (28, to_le 4 (seg_flags s)),
     (32, to_le 4 (seg_align s)),
     (36, to_le 4 (seg_reserved s)),
     (40, to_le 4 (seg_compressed_size s))]"

lemma seg_to_bytes_length [simp]:
  "length (seg_to_bytes_v1 s) = 40" "length (seg_to_bytes_v2 s) = 48"
  by (simp_all add: seg_to_bytes_v1_def seg_to_bytes_v2_def length_blits_eq)

lemma seg_roundtrip_v1:
  "seg_from_bytes_v1 (seg_to_bytes_v1 s) = Some (s\<lparr>seg_compressed_size := 0\<rparr>)"
  by (simp add: seg_from_bytes_v1_def seg_to_bytes_v1_def SIZE_V1_def slc_blits length_blits_eq)

lemma seg_roundtrip_v2: "seg_from_bytes_v2 (seg_to_bytes_v2 s) = Some s"
  by (simp add: seg_from_bytes_v2_def seg_to_bytes_v2_def SIZE_V2_def slc_blits length_blits_eq)

section \<open>Headers\<close>

record onx_header =
  onx_magic :: u32
  onx_version :: u32
  onx_entry :: u64
  onx_nsegs :: u32
  onx_flags :: u32
  onx_segs :: "onx_segment list"

definition seg_table ::
  "(bytes \<Rightarrow> onx_segment option) \<Rightarrow> nat \<Rightarrow> nat \<Rightarrow> bytes \<Rightarrow> nat \<Rightarrow> onx_segment list option" where
  "seg_table parse base sz buf n =
     those (map (\<lambda>i. let off = base + i * sz in parse (slc buf off (off + sz))) [0..<n])"

definition onx_from_bytes :: "bytes \<Rightarrow> onx_header option" where
  "onx_from_bytes buf =
     (if length buf < 24 then None
      else let magic = le32 (slc buf 0 4) in
        if magic \<noteq> ONX_MAGIC then None
        else let version = le32 (slc buf 4 8);
                 entry = le64 (slc buf 8 16);
                 nsegs = le32 (slc buf 16 20);
                 flags = le32 (slc buf 20 24);
                 mk = (\<lambda>segs. \<lparr>onx_magic = magic, onx_version = version, onx_entry = entry,
                               onx_nsegs = nsegs, onx_flags = flags, onx_segs = segs\<rparr>)
             in if version = 1 then
                  (if length buf < V1_HEADER_SIZE then None
                   else if unat nsegs > 8 then None
                   else map_option mk (seg_table seg_from_bytes_v1 24 SIZE_V1 buf (unat nsegs)))
                else if version = 2 then
                  (if length buf < V2_HEADER_SIZE then None
                   else if unat nsegs > ONX_MAX_SEGS then None
                   else if length buf < V2_HEADER_SIZE + unat nsegs * SIZE_V2 then None
                   else map_option mk
                          (seg_table seg_from_bytes_v2 V2_HEADER_SIZE SIZE_V2 buf (unat nsegs)))
                else None)"

definition onx_to_bytes_v1 :: "onx_header \<Rightarrow> bytes" where
  "onx_to_bytes_v1 h = blits V1_HEADER_SIZE ([
     (0, to_le 4 (onx_magic h)),
     (4, to_le 4 (1 :: u32)),
     (8, to_le 8 (onx_entry h)),
     (16, to_le 4 (onx_nsegs h)),
     (20, to_le 4 (onx_flags h))] @
     map (\<lambda>i. (24 + i * SIZE_V1, seg_to_bytes_v1 (onx_segs h ! i))) [0..<min 8 (length (onx_segs h))])"

text \<open>The version 2 writer sizes its buffer by \<open>nsegs\<close> but writes every element of
  \<open>segs\<close>; with more segments than \<open>nsegs\<close> it indexes past the end.\<close>

definition onx_to_bytes_v2 :: "onx_header \<Rightarrow> bytes outcome" where
  "onx_to_bytes_v2 h =
     (if length (onx_segs h) > unat (onx_nsegs h) then Panics
      else Returns (blits (V2_HEADER_SIZE + unat (onx_nsegs h) * SIZE_V2) ([
        (0, to_le 4 (onx_magic h)),
        (4, to_le 4 (2 :: u32)),
        (8, to_le 8 (onx_entry h)),
        (16, to_le 4 (onx_nsegs h)),
        (20, to_le 4 (onx_flags h))] @
        map (\<lambda>i. (V2_HEADER_SIZE + i * SIZE_V2, seg_to_bytes_v2 (onx_segs h ! i)))
          [0..<length (onx_segs h)])))"

definition header_wf :: "nat \<Rightarrow> onx_header \<Rightarrow> bool" where
  "header_wf n h \<longleftrightarrow> onx_magic h = ONX_MAGIC \<and> unat (onx_nsegs h) = length (onx_segs h) \<and>
     length (onx_segs h) \<le> n"

lemma those_Some: "(\<And>x. x \<in> set xs \<Longrightarrow> f x = Some (g x)) \<Longrightarrow> those (map f xs) = Some (map g xs)"
  by (induction xs) auto

lemma those_length: "those xs = Some ys \<Longrightarrow> length ys = length xs"
  by (induction xs arbitrary: ys) (auto split: option.splits)

lemma seg_layout_v1:
  "layout_to 24 (map (\<lambda>i. (24 + i * SIZE_V1, seg_to_bytes_v1 (segs ! i))) [0..<n]) =
   Some (24 + n * SIZE_V1)"
  using layout_to_table [of 0 n "\<lambda>i. seg_to_bytes_v1 (segs ! i)" SIZE_V1 24 24]
  by (simp add: SIZE_V1_def)

lemma seg_layout_v2:
  "layout_to 24 (map (\<lambda>i. (V2_HEADER_SIZE + i * SIZE_V2, seg_to_bytes_v2 (segs ! i))) [0..<n]) =
   Some (if n = 0 then 24 else V2_HEADER_SIZE + n * SIZE_V2)"
  using layout_to_table [of 0 n "\<lambda>i. seg_to_bytes_v2 (segs ! i)" SIZE_V2 24 V2_HEADER_SIZE]
  by (simp add: SIZE_V2_def V2_HEADER_SIZE_def)

lemma seg_table_decodes:
  assumes "\<And>i. i < n \<Longrightarrow> slc buf (base + i * sz) (base + i * sz + sz) = enc (segs ! i)"
    and "\<And>s. parse (enc s) = Some (f s)" and "length segs = n"
  shows "seg_table parse base sz buf n = Some (map f segs)"
proof -
  have "seg_table parse base sz buf n = Some (map (\<lambda>i. f (segs ! i)) [0..<n])"
    unfolding seg_table_def using assms(1,2) by (intro those_Some) (simp add: Let_def)
  also have "map (\<lambda>i. f (segs ! i)) [0..<n] = map f segs"
    using assms(3) by (intro nth_equalityI) simp_all
  finally show ?thesis .
qed

lemma header_v1_bytes:
  assumes "length (onx_segs h) \<le> 8"
  shows "length (onx_to_bytes_v1 h) = 344"
    and "le32 (slc (onx_to_bytes_v1 h) 0 4) = onx_magic h"
    and "le32 (slc (onx_to_bytes_v1 h) 4 8) = 1"
    and "le64 (slc (onx_to_bytes_v1 h) 8 16) = onx_entry h"
    and "le32 (slc (onx_to_bytes_v1 h) 16 20) = onx_nsegs h"
    and "le32 (slc (onx_to_bytes_v1 h) 20 24) = onx_flags h"
    and "\<And>i. i < length (onx_segs h) \<Longrightarrow>
      slc (onx_to_bytes_v1 h) (24 + i * 40) (24 + i * 40 + 40) = seg_to_bytes_v1 (onx_segs h ! i)"
proof -
  note lay = seg_layout_v1 [of "onx_segs h" "length (onx_segs h)"]
  have m: "min 8 (length (onx_segs h)) = length (onx_segs h)" using assms by simp
  have le: "24 + length (onx_segs h) * SIZE_V1 \<le> V1_HEADER_SIZE"
    using assms by (simp add: SIZE_V1_def V1_HEADER_SIZE_def)
  note d = onx_to_bytes_v1_def m
  show "length (onx_to_bytes_v1 h) = 344"
    "le32 (slc (onx_to_bytes_v1 h) 0 4) = onx_magic h"
    "le32 (slc (onx_to_bytes_v1 h) 4 8) = 1"
    "le64 (slc (onx_to_bytes_v1 h) 8 16) = onx_entry h"
    "le32 (slc (onx_to_bytes_v1 h) 16 20) = onx_nsegs h"
    "le32 (slc (onx_to_bytes_v1 h) 20 24) = onx_flags h"
    using le by (simp_all add: d slc_blits length_blits_eq lay) (simp_all add: V1_HEADER_SIZE_def)
  fix i assume i: "i < length (onx_segs h)"
  show "slc (onx_to_bytes_v1 h) (24 + i * 40) (24 + i * 40 + 40) = seg_to_bytes_v1 (onx_segs h ! i)"
    unfolding d
    by (rule slc_blits_mem [OF _ le]) (use i in \<open>simp_all add: lay, simp_all add: SIZE_V1_def\<close>)
qed

lemma header_v2_bytes:
  assumes "unat (onx_nsegs h) = length (onx_segs h)" and "onx_to_bytes_v2 h = Returns b"
  shows "length b = 32 + length (onx_segs h) * 48"
    and "le32 (slc b 0 4) = onx_magic h" and "le32 (slc b 4 8) = 2"
    and "le64 (slc b 8 16) = onx_entry h" and "le32 (slc b 16 20) = onx_nsegs h"
    and "le32 (slc b 20 24) = onx_flags h"
    and "\<And>i. i < length (onx_segs h) \<Longrightarrow>
      slc b (32 + i * 48) (32 + i * 48 + 48) = seg_to_bytes_v2 (onx_segs h ! i)"
proof -
  note lay = seg_layout_v2 [of "onx_segs h" "length (onx_segs h)"]
  have b: "b = blits (V2_HEADER_SIZE + length (onx_segs h) * SIZE_V2) ([
        (0, to_le 4 (onx_magic h)), (4, to_le 4 (2 :: u32)), (8, to_le 8 (onx_entry h)),
        (16, to_le 4 (onx_nsegs h)), (20, to_le 4 (onx_flags h))] @
        map (\<lambda>i. (V2_HEADER_SIZE + i * SIZE_V2, seg_to_bytes_v2 (onx_segs h ! i)))
          [0..<length (onx_segs h)])"
    using assms by (simp add: onx_to_bytes_v2_def)
  have le: "(if length (onx_segs h) = 0 then 24 else V2_HEADER_SIZE + length (onx_segs h) * SIZE_V2)
      \<le> V2_HEADER_SIZE + length (onx_segs h) * SIZE_V2"
    by (simp add: V2_HEADER_SIZE_def)
  show "length b = 32 + length (onx_segs h) * 48"
    "le32 (slc b 0 4) = onx_magic h" "le32 (slc b 4 8) = 2"
    "le64 (slc b 8 16) = onx_entry h" "le32 (slc b 16 20) = onx_nsegs h"
    "le32 (slc b 20 24) = onx_flags h"
    using le by (simp_all add: b slc_blits length_blits_eq lay) (simp_all add: V2_HEADER_SIZE_def SIZE_V2_def)
  fix i assume i: "i < length (onx_segs h)"
  show "slc b (32 + i * 48) (32 + i * 48 + 48) = seg_to_bytes_v2 (onx_segs h ! i)"
    unfolding b
    by (rule slc_blits_mem [OF _ le])
      (use i in \<open>simp_all add: lay, simp_all add: V2_HEADER_SIZE_def SIZE_V2_def\<close>)
qed

text \<open>C25: A version 2 header with at most 256 segments, followed by any file contents, decodes
  to itself: the writer does not panic, and the reader finds every segment again.\<close>

theorem onx_roundtrip_v2:
  assumes wf: "header_wf ONX_MAX_SEGS h"
  shows "\<exists>b. onx_to_bytes_v2 h = Returns b \<and>
    length b = V2_HEADER_SIZE + length (onx_segs h) * SIZE_V2 \<and>
    onx_from_bytes (b @ rest) = Some (h\<lparr>onx_version := 2\<rparr>)"
proof -
  have n: "unat (onx_nsegs h) = length (onx_segs h)" using wf by (simp add: header_wf_def)
  then obtain b where b: "onx_to_bytes_v2 h = Returns b" by (simp add: onx_to_bytes_v2_def)
  note f = header_v2_bytes [OF n b]
  have "slc (b @ rest) (32 + i * 48) (32 + i * 48 + 48) = seg_to_bytes_v2 (onx_segs h ! i)"
    if "i < length (onx_segs h)" for i
    using f(1) f(7) [OF that] that by (simp add: slc_append_left)
  then have t: "seg_table seg_from_bytes_v2 32 48 (b @ rest) (length (onx_segs h)) =
      Some (map (\<lambda>s. s) (onx_segs h))"
    by (intro seg_table_decodes) (auto simp: seg_roundtrip_v2)
  have "onx_from_bytes (b @ rest) = Some (h\<lparr>onx_version := 2\<rparr>)"
    using wf f t by (simp add: onx_from_bytes_def slc_append_left header_wf_def onx_consts)
  with b f(1) show ?thesis by (simp add: onx_consts)
qed

theorem onx_roundtrip_v2_witness:
  "\<exists>b. onx_to_bytes_v2 \<lparr>onx_magic = 0x31584E4F, onx_version = 2, onx_entry = 0x10000, onx_nsegs = 1,
      onx_flags = 2, onx_segs = [\<lparr>seg_vaddr = 0x10000, seg_filesz = 5, seg_memsz = 4096,
        seg_offset = 80, seg_flags = 10, seg_align = 4096, seg_reserved = 0,
        seg_compressed_size = 3\<rparr>]\<rparr> = Returns b \<and> length b = 80 \<and>
     onx_from_bytes (b @ [1, 2, 3]) = Some \<lparr>onx_magic = 0x31584E4F, onx_version = 2,
      onx_entry = 0x10000, onx_nsegs = 1,
      onx_flags = 2, onx_segs = [\<lparr>seg_vaddr = 0x10000, seg_filesz = 5, seg_memsz = 4096,
        seg_offset = 80, seg_flags = 10, seg_align = 4096, seg_reserved = 0,
        seg_compressed_size = 3\<rparr>]\<rparr>"
  using onx_roundtrip_v2 [of "\<lparr>onx_magic = 0x31584E4F, onx_version = 2, onx_entry = 0x10000,
      onx_nsegs = 1, onx_flags = 2, onx_segs = [\<lparr>seg_vaddr = 0x10000, seg_filesz = 5,
        seg_memsz = 4096, seg_offset = 80, seg_flags = 10, seg_align = 4096, seg_reserved = 0,
        seg_compressed_size = 3\<rparr>]\<rparr>" "[1, 2, 3]"]
  by (simp add: header_wf_def onx_consts)

lemma onx_decodes_v1:
  assumes wf: "header_wf 8 h"
  shows "onx_from_bytes (onx_to_bytes_v1 h @ rest) =
    Some (h\<lparr>onx_version := 1,
            onx_segs := map (\<lambda>s. s\<lparr>seg_compressed_size := 0\<rparr>) (onx_segs h)\<rparr>)"
proof -
  have le: "length (onx_segs h) \<le> 8" using wf by (simp add: header_wf_def)
  note f = header_v1_bytes [OF le]
  have "slc (onx_to_bytes_v1 h @ rest) (24 + i * 40) (24 + i * 40 + 40) = seg_to_bytes_v1 (onx_segs h ! i)"
    if "i < length (onx_segs h)" for i
    using f(1) f(7) [OF that] that le by (simp add: slc_append_left)
  then have t: "seg_table seg_from_bytes_v1 24 40 (onx_to_bytes_v1 h @ rest) (length (onx_segs h)) =
      Some (map (\<lambda>s. s\<lparr>seg_compressed_size := 0\<rparr>) (onx_segs h))"
    by (intro seg_table_decodes) (auto simp: seg_roundtrip_v1)
  show ?thesis
    using wf f t by (simp add: onx_from_bytes_def slc_append_left header_wf_def onx_consts)
qed

text \<open>A version 1 header with at most 8 segments, followed by any file contents, decodes to
  itself up to the compressed sizes, which version 1 does not store.\<close>

theorem onx_roundtrip_v1:
  assumes wf: "header_wf 8 h"
  shows "onx_from_bytes (onx_to_bytes_v1 h @ rest) =
    Some (h\<lparr>onx_version := 1,
            onx_segs := map (\<lambda>s. s\<lparr>seg_compressed_size := 0\<rparr>) (onx_segs h)\<rparr>)"
  using wf by (rule onx_decodes_v1)

theorem onx_roundtrip_v1_witness:
  "onx_from_bytes (onx_to_bytes_v1 \<lparr>onx_magic = 0x31584E4F, onx_version = 2, onx_entry = 7,
      onx_nsegs = 0, onx_flags = 2, onx_segs = []\<rparr> @ [9]) =
   Some \<lparr>onx_magic = 0x31584E4F, onx_version = 1, onx_entry = 7,
      onx_nsegs = 0, onx_flags = 2, onx_segs = []\<rparr>"
  by (subst onx_roundtrip_v1) (simp_all add: header_wf_def onx_consts)

lemma seg_table_length: "seg_table p base sz buf n = Some segs \<Longrightarrow> length segs = n"
  by (auto simp: seg_table_def dest!: those_length)

text \<open>C26: The loader's contract: whatever the file contains, an accepted header has the magic,
  one of the two versions, exactly \<open>nsegs\<close> decoded segments, at most 8 (version 1) or 256
  (version 2) of them, and its whole segment table lies inside the file. The limit of 256 is the one
  the decoder enforces; the comment at the version constant says version 2 has none.\<close>

theorem onx_from_bytes_bounds:
  assumes "onx_from_bytes buf = Some h"
  shows "header_wf ONX_MAX_SEGS h \<and>
    (onx_version h = 1 \<and> length (onx_segs h) \<le> 8 \<and> 24 + length (onx_segs h) * SIZE_V1 \<le> length buf \<or>
     onx_version h = 2 \<and> V2_HEADER_SIZE + length (onx_segs h) * SIZE_V2 \<le> length buf)"
  using assms
  by (auto simp: onx_from_bytes_def header_wf_def onx_consts Let_def split: if_splits
      dest!: seg_table_length)

theorem onx_from_bytes_bounds_witness:
  "\<exists>h. onx_from_bytes (onx_to_bytes_v1 \<lparr>onx_magic = 0x31584E4F, onx_version = 1, onx_entry = 7,
      onx_nsegs = 0, onx_flags = 2, onx_segs = []\<rparr> @ [9]) = Some h \<and> header_wf ONX_MAX_SEGS h"
proof -
  have "header_wf 8 \<lparr>onx_magic = 0x31584E4F, onx_version = 1, onx_entry = 7,
      onx_nsegs = 0, onx_flags = 2, onx_segs = []\<rparr>"
    by (simp add: header_wf_def onx_consts)
  then obtain h where "onx_from_bytes (onx_to_bytes_v1 \<lparr>onx_magic = 0x31584E4F, onx_version = 1,
      onx_entry = 7, onx_nsegs = 0, onx_flags = 2, onx_segs = []\<rparr> @ [9]) = Some h"
    using onx_decodes_v1 by blast
  with onx_from_bytes_bounds show ?thesis by blast
qed

end
