(* ===== verification/Fmt.thy ===== *)
theory Fmt
  imports Core_Types
begin

text \<open>
  The kernel's \<open>printf\<close> (\<open>core/src/fmt\<close>): the numeric writers \<open>write_dec\<close> and
  \<open>write_hex_or_dec\<close> with their 20-byte digit buffer, the width parser \<open>parse_num\<close> with its
  saturating arithmetic, and the \<open>vformat\<close> engine. A writer is the list of bytes it has
  received; \<open>vformat\<close> consumes the format from the left, so the code's index is the
  remaining suffix. A C string argument is its bytes up to the terminating NUL.
  Theorems: the digit buffer never overflows, printed numbers denote the value printed and are
  read back by the parser, and a format without directives prints itself.
\<close>

record fmt_spec =
  width :: nat
  zero_pad :: bool

datatype arg = AStr bytes | ACStr bytes | AChar u8 | AI64 u64 | AU64 u64 | AISize u64 | AUSize u64

definition write_char :: "u8 \<Rightarrow> bytes" where
  "write_char c = (if c < 0x80 then [c] else [0x3F])"

section \<open>Digits\<close>

text \<open>The digit loops, least significant digit first, as they fill \<open>buf\<close>.\<close>

function dec_loop :: "u64 \<Rightarrow> bytes" where
  "dec_loop n = (if n > 0 then (0x30 + ucast (n mod 10)) # dec_loop (n div 10) else [])"
  by auto
termination
  by (relation "measure unat")
    (auto simp: word_less_nat_alt unat_div intro!: div_less_dividend)

definition HEX :: bytes where
  "HEX = bstr ''0123456789abcdef''"

function hex_loop :: "u64 \<Rightarrow> bytes" where
  "hex_loop n = (if n > 0 then (HEX ! unat (n AND 0xF)) # hex_loop (drop_bit 4 n) else [])"
  by auto
termination
  by (relation "measure unat")
    (auto simp: word_less_nat_alt unat_div drop_bit_eq_div intro!: div_less_dividend)

declare dec_loop.simps [simp del] hex_loop.simps [simp del]

definition write_dec :: "u64 \<Rightarrow> fmt_spec \<Rightarrow> bytes" where
  "write_dec v spec =
     (let (neg, digits) =
            (if v <s 0 then (True, if v = 0x8000000000000000 then push_bit 63 1 else - v)
             else (False, v));
          buf = (if digits = 0 then [0x30] else dec_loop digits);
          total = length buf + (if neg then 1 else 0);
          pad = width spec - total;
          sign = (if neg then [0x2D] else [])
      in (if zero_pad spec then sign @ replicate pad 0x30 else replicate pad 0x20 @ sign) @ rev buf)"

definition write_hex_or_dec :: "u64 \<Rightarrow> fmt_spec \<Rightarrow> bool \<Rightarrow> bytes" where
  "write_hex_or_dec v spec hex =
     (let buf = (if v = 0 then [0x30] else if hex then hex_loop v else dec_loop v);
          pad = width spec - length buf;
          pad_ch = (if zero_pad spec then 0x30 else 0x20)
      in replicate pad pad_ch @ rev buf)"

section \<open>The engine\<close>

definition is_digit :: "u8 \<Rightarrow> bool" where
  "is_digit b \<longleftrightarrow> 0x30 \<le> b \<and> b \<le> 0x39"

definition USIZE_MAX :: nat where
  "USIZE_MAX = 2 ^ 64 - 1"

fun parse_num_loop :: "nat \<Rightarrow> nat \<Rightarrow> bytes \<Rightarrow> nat \<times> nat" where
  "parse_num_loop v i [] = (v, i)"
| "parse_num_loop v i (b # bs) =
     (if is_digit b
      then parse_num_loop (min USIZE_MAX (min USIZE_MAX (v * 10) + unat (b - 0x30))) (i + 1) bs
      else (v, i))"

definition parse_num :: "bytes \<Rightarrow> nat \<times> nat" where
  "parse_num buf = parse_num_loop 0 0 buf"

text \<open>One conversion character with the argument it looks at.\<close>

definition format_arg :: "u8 \<Rightarrow> fmt_spec \<Rightarrow> arg option \<Rightarrow> bytes" where
  "format_arg conv spec a =
     (if conv = 0x25 then write_char 0x25
      else if conv = 0x73 then
        (case a of Some (AStr s) \<Rightarrow> s | Some (ACStr s) \<Rightarrow> concat (map write_char s) | _ \<Rightarrow> [])
      else if conv = 0x63 then
        (case a of Some (AChar c) \<Rightarrow> write_char c | _ \<Rightarrow> [])
      else if conv = 0x64 then
        (case a of Some (AI64 v) \<Rightarrow> write_dec v spec | Some (AU64 v) \<Rightarrow> write_dec v spec
         | Some (AUSize v) \<Rightarrow> write_dec v spec | Some (AISize v) \<Rightarrow> write_dec v spec | _ \<Rightarrow> [])
      else if conv = 0x75 then
        (case a of Some (AU64 v) \<Rightarrow> write_hex_or_dec v spec False
         | Some (AUSize v) \<Rightarrow> write_hex_or_dec v spec False | _ \<Rightarrow> [])
      else if conv = 0x78 then
        (case a of Some (AU64 v) \<Rightarrow> write_hex_or_dec v spec True
         | Some (AUSize v) \<Rightarrow> write_hex_or_dec v spec True | _ \<Rightarrow> [])
      else if conv = 0x70 then
        bstr ''0x'' @
        (case a of Some (AU64 v) \<Rightarrow> write_hex_or_dec v \<lparr>width = 16, zero_pad = True\<rparr> True
         | Some (AUSize v) \<Rightarrow> write_hex_or_dec v \<lparr>width = 16, zero_pad = True\<rparr> True | _ \<Rightarrow> [])
      else write_char 0x25 @ write_char conv)"

definition takes_arg :: "u8 \<Rightarrow> bool" where
  "takes_arg conv \<longleftrightarrow> conv \<in> {0x73, 0x63, 0x64, 0x75, 0x78, 0x70}"

text \<open>Flags, width and length modifiers after a percent sign.\<close>

definition parse_spec :: "bytes \<Rightarrow> fmt_spec \<times> bytes" where
  "parse_spec bs =
     (let (zero, bs1) = (case bs of b # r \<Rightarrow> if b = 0x30 then (True, r) else (False, bs) | [] \<Rightarrow> (False, bs));
          (w, consumed) = parse_num bs1;
          bs2 = drop consumed bs1
      in (\<lparr>width = w, zero_pad = zero\<rparr>, dropWhile (\<lambda>b. b = 0x6C \<or> b = 0x7A) bs2))"

lemma parse_spec_length: "length (snd (parse_spec bs)) \<le> length bs"
  by (auto simp: parse_spec_def Let_def split: list.splits prod.splits
      intro: le_trans [OF length_dropWhile_le])

lemma parse_spec_tail: "parse_spec bs = (spec, conv # tail) \<Longrightarrow> length tail < Suc (length bs)"
  using parse_spec_length [of bs] by simp

function vformat :: "bytes \<Rightarrow> arg list \<Rightarrow> bytes" where
  "vformat [] args = []"
| "vformat (c # rest) args =
     (if c \<noteq> 0x25 then write_char c @ vformat rest args
      else if rest = [] then [0x25]
      else case parse_spec rest of (spec, rest') \<Rightarrow>
        (case rest' of [] \<Rightarrow> []
         | conv # tail \<Rightarrow>
             format_arg conv spec (case args of [] \<Rightarrow> None | a # _ \<Rightarrow> Some a) @
             vformat tail (if takes_arg conv then tl args else args)))"
  by pat_completeness auto
termination
  by (relation "measure (\<lambda>(fmt, args). length fmt)") (auto dest: parse_spec_tail [OF sym])

section \<open>Correctness\<close>

text \<open>The number a most-significant-first digit string denotes.\<close>

fun digits_value :: "nat \<Rightarrow> nat \<Rightarrow> bytes \<Rightarrow> nat" where
  "digits_value base v [] = v"
| "digits_value base v (b # bs) =
     digits_value base (v * base + (if b \<le> 0x39 then unat (b - 0x30) else unat (b - 0x57))) bs"

lemma digits_value_append:
  "digits_value base v (xs @ ys) = digits_value base (digits_value base v xs) ys"
  by (induction base v xs rule: digits_value.induct) simp_all

lemma nat_less_10_cases: "k < 10 \<Longrightarrow> k \<in> {0,1,2,3,4,5,6,7,8,9::nat}"
  by auto
lemma digit_byte: "k < 10 \<Longrightarrow> is_digit (0x30 + of_nat k) \<and> (0x30 + of_nat k :: u8) \<le> 0x39 \<and> unat (of_nat k :: u8) = k"
  by (drule nat_less_10_cases) (auto simp: is_digit_def)

lemma digit_of_mod: "ucast (n mod 10 :: u64) = (of_nat (unat n mod 10) :: u8)"
proof -
  have "unat n mod 10 = unat (n mod 10)" by (simp add: unat_mod)
  then show ?thesis by (simp only: of_nat_unat)
qed

lemma dec_loop_rec:
  "n \<noteq> 0 \<Longrightarrow> dec_loop n = (0x30 + of_nat (unat n mod 10)) # dec_loop (n div 10)"
  by (subst dec_loop.simps) (simp add: digit_of_mod word_gt_0)

lemma dec_loop_0 [simp]: "dec_loop 0 = []"
  by (subst dec_loop.simps) simp

lemma dec_loop_is_digit: "b \<in> set (dec_loop n) \<Longrightarrow> is_digit b \<and> b \<le> 0x39"
proof (induction n rule: dec_loop.induct)
  case (1 n)
  then show ?case using digit_byte [of "unat n mod 10"]
    by (cases "n = 0") (auto simp: dec_loop_rec word_gt_0)
qed

lemma dec_loop_length: "unat n < 10 ^ k \<Longrightarrow> length (dec_loop n) \<le> k"
proof (induction n arbitrary: k rule: dec_loop.induct)
  case (1 n)
  show ?case
  proof (cases "n = 0")
    case False
    then obtain j where j: "k = Suc j" using 1(2) by (cases k) (auto simp: unat_eq_0)
    then have "unat (n div 10) < 10 ^ j" using 1(2) by (simp add: unat_div less_mult_imp_div_less)
    then show ?thesis using 1(1) False j by (simp add: dec_loop_rec word_gt_0)
  qed simp
qed

lemma dec_loop_value: "digits_value 10 0 (rev (dec_loop n)) = unat n"
proof (induction n rule: dec_loop.induct)
  case (1 n)
  show ?case
  proof (cases "n = 0")
    case False
    then show ?thesis using 1 digit_byte [of "unat n mod 10"]
      by (simp add: dec_loop_rec digits_value_append unat_div word_gt_0)
  qed simp
qed

lemma hex_digit: "k < 16 \<Longrightarrow> HEX ! k = (if k < 10 then 0x30 + of_nat k else 0x57 + of_nat k)"
  by (auto simp: HEX_def bstr_def less_Suc_eq numeral_eq_Suc)

lemma hex_loop_0 [simp]: "hex_loop 0 = []"
  by (subst hex_loop.simps) simp

lemma and_15: "unat (n AND 0xF :: u64) = unat n mod 16"
proof -
  have "(0xF :: u64) = mask 4" by (simp add: mask_eq_exp_minus_1)
  then have "n AND 0xF = take_bit 4 n" by (simp add: take_bit_eq_mask)
  then show ?thesis by (simp add: take_bit_eq_mod unat_mod)
qed

lemma hex_loop_rec: "n \<noteq> 0 \<Longrightarrow> hex_loop n = HEX ! (unat n mod 16) # hex_loop (n div 16)"
  by (subst hex_loop.simps) (simp add: and_15 word_gt_0 drop_bit_eq_div)

lemma less_16_cases: "k < 16 \<Longrightarrow> k \<in> {0,1,2,3,4,5,6,7,8,9,10,11,12,13,14,15::nat}"
  by simp presburger

lemma hex_digit_value:
  "k < 16 \<Longrightarrow> (if HEX ! k \<le> 0x39 then unat (HEX ! k - 0x30) else unat (HEX ! k - 0x57)) = k"
  by (drule less_16_cases) (auto simp: HEX_def bstr_def)

lemma hex_loop_value: "digits_value 16 0 (rev (hex_loop n)) = unat n"
proof (induction n rule: hex_loop.induct)
  case (1 n)
  show ?case
  proof (cases "n = 0")
    case False
    then have "digits_value 16 0 (rev (hex_loop (n div 16))) = unat n div 16"
      using 1 by (simp add: word_gt_0 drop_bit_eq_div unat_div)
    then show ?thesis using False hex_digit_value [of "unat n mod 16"]
      by (simp add: hex_loop_rec digits_value_append)
  qed simp
qed

lemma hex_loop_length: "unat n < 16 ^ k \<Longrightarrow> length (hex_loop n) \<le> k"
proof (induction n arbitrary: k rule: hex_loop.induct)
  case (1 n)
  show ?case
  proof (cases "n = 0")
    case False
    then obtain j where j: "k = Suc j" using 1(2) by (cases k) (auto simp: unat_eq_0)
    then have "unat (n div 16) < 16 ^ j" using 1(2) by (simp add: unat_div less_mult_imp_div_less)
    then show ?thesis using 1(1) False j by (simp add: hex_loop_rec word_gt_0 drop_bit_eq_div)
  qed simp
qed

lemma digits_value_ge: "1 \<le> base \<Longrightarrow> v \<le> digits_value base v ds"
proof (induction base v ds rule: digits_value.induct)
  case (2 base v b bs)
  then have "v * base + (if b \<le> 0x39 then unat (b - 0x30) else unat (b - 0x57)) \<le>
      digits_value base v (b # bs)" by simp
  moreover have "v \<le> v * base" using 2(2) by simp
  ultimately show ?case by linarith
qed simp

lemma parse_num_loop_digits:
  "list_all is_digit ds \<Longrightarrow> digits_value 10 v ds \<le> USIZE_MAX \<Longrightarrow>
   (case rest of [] \<Rightarrow> True | b # _ \<Rightarrow> \<not> is_digit b) \<Longrightarrow>
   parse_num_loop v i (ds @ rest) = (digits_value 10 v ds, i + length ds)"
proof (induction ds arbitrary: v i)
  case Nil
  then show ?case by (cases rest) auto
next
  case (Cons d ds)
  have b: "v * 10 + unat (d - 0x30) \<le> digits_value 10 v (d # ds)"
    using digits_value_ge [of 10 "v * 10 + unat (d - 0x30)" ds] Cons.prems(1)
    by (simp add: is_digit_def)
  then have "v * 10 + unat (d - 0x30) \<le> USIZE_MAX" using Cons.prems(2) by linarith
  moreover from this have "v * 10 \<le> USIZE_MAX" by linarith
  ultimately have m: "min USIZE_MAX (min USIZE_MAX (v * 10) + unat (d - 0x30)) = v * 10 + unat (d - 0x30)"
    by (simp add: min_absorb2)
  have "digits_value 10 (v * 10 + unat (d - 0x30)) ds = digits_value 10 v (d # ds)"
    using Cons.prems(1) by (simp add: is_digit_def)
  then show ?case using Cons.IH [of "v * 10 + unat (d - 0x30)" "Suc i"] Cons.prems m
    by simp
qed

lemma u64_bounds: "unat (v :: u64) < 10 ^ 20" "unat (v :: u64) < 16 ^ 16" "unat (v :: u64) \<le> USIZE_MAX"
  using unsigned_less [where 'a = nat, of v] by (simp_all add: USIZE_MAX_def)

text \<open>The 20-byte buffer of the digit loops is large enough for every 64-bit value.\<close>

lemma digit_buffer_fits: "length (dec_loop v) \<le> 20" "length (hex_loop v) \<le> 20"
  using dec_loop_length [OF u64_bounds(1)] hex_loop_length [OF u64_bounds(2), of v] by simp_all

lemma is_digit_zero: "is_digit 0x30"
  by (simp add: is_digit_def)

lemma digits_value_zeros: "digits_value base 0 (replicate n 0x30 @ ds) = digits_value base 0 ds"
  by (induction n) simp_all

lemma dec_field:
  assumes "zero_pad spec \<or> width spec = 0"
  obtains k where "write_hex_or_dec v spec False = replicate k 0x30 @ rev (dec_loop v)"
proof (cases "v = 0")
  case True
  have "replicate (width spec - 1) 0x30 @ [0x30] = replicate (Suc (width spec - 1)) (0x30 :: u8)"
    by (simp add: replicate_append_same)
  then have "write_hex_or_dec v spec False = replicate (Suc (width spec - 1)) 0x30 @ rev (dec_loop v)"
    using True assms by (auto simp: write_hex_or_dec_def Let_def)
  then show ?thesis by (rule that)
next
  case False
  then show ?thesis using assms that [of "width spec - length (dec_loop v)"]
    by (auto simp: write_hex_or_dec_def Let_def)
qed

text \<open>C27: Printing an unsigned number with \<open>%u\<close>, plain or padded with zeros, and reading the
  digits with the kernel's own \<open>parse_num\<close> gives the number back, for every 64-bit value and
  whatever non-digit follows; the field is never longer than its width or 20 characters.\<close>

theorem print_parse_roundtrip:
  assumes "zero_pad spec \<or> width spec = 0"
    and "case rest of [] \<Rightarrow> True | b # _ \<Rightarrow> \<not> is_digit b"
  shows "parse_num (write_hex_or_dec v spec False @ rest) =
      (unat v, length (write_hex_or_dec v spec False)) \<and>
    length (write_hex_or_dec v spec False) \<le> max (width spec) 20"
proof -
  obtain k where k: "write_hex_or_dec v spec False = replicate k 0x30 @ rev (dec_loop v)"
    using dec_field [OF assms(1)] .
  have "list_all is_digit (write_hex_or_dec v spec False)"
    unfolding k using is_digit_zero by (auto simp: list_all_iff dec_loop_is_digit)
  moreover have "digits_value 10 0 (write_hex_or_dec v spec False) = unat v"
    unfolding k by (simp add: digits_value_zeros dec_loop_value)
  moreover have "length (write_hex_or_dec v spec False) \<le> max (width spec) 20"
    using digit_buffer_fits(1) [of v] by (auto simp: write_hex_or_dec_def Let_def)
  ultimately show ?thesis
    using parse_num_loop_digits [OF _ _ assms(2), where v = 0 and i = 0] u64_bounds(3) [of v]
    by (simp add: parse_num_def)
qed

theorem print_parse_roundtrip_witness:
  "write_hex_or_dec 42 \<lparr>width = 5, zero_pad = True\<rparr> False = bstr ''00042'' \<and>
   parse_num (write_hex_or_dec 42 \<lparr>width = 5, zero_pad = True\<rparr> False @ [0x3B]) = (42, 5)"
proof -
  have "write_hex_or_dec 42 \<lparr>width = 5, zero_pad = True\<rparr> False = bstr ''00042''"
    by code_simp
  then show ?thesis
    using print_parse_roundtrip [of "\<lparr>width = 5, zero_pad = True\<rparr>" "[0x3B]" 42]
    by (simp add: is_digit_def)
qed

lemma min_i64: "(- 0x8000000000000000 :: u64) = 0x8000000000000000"
  by code_simp

lemma unat_abs_sint:
  fixes v :: u64
  shows "sint v < 0 \<Longrightarrow> int (unat (- v)) = - sint v" and "0 \<le> sint v \<Longrightarrow> int (unat v) = sint v"
proof -
  have v: "of_int (sint v) = v" by (metis scast_eq scast_id)
  have b: "- sint v \<le> 2 ^ 63" "sint v < 2 ^ 63" using sint_range_size [of v] by (simp_all add: word_size)
  have u: "int (unat (of_int k :: u64)) = k" if "0 \<le> k" "k \<le> 2 ^ 63" for k
    using that by (simp add: uint_word_of_int)
  show "int (unat (- v)) = - sint v" if "sint v < 0" using u [of "- sint v"] that b v by simp
  show "int (unat v) = sint v" if "0 \<le> sint v" using u [of "sint v"] that b v by simp
qed

text \<open>\<open>%d\<close> is correct on the whole signed range, \<open>i64::MIN\<close> included: without padding
  it prints a minus sign exactly for negative values, followed by digits that denote the absolute
  value; \<open>%x\<close> prints lower-case digits that denote the value.\<close>

theorem write_dec_hex_value:
  "\<exists>ds. write_dec v \<lparr>width = 0, zero_pad = z\<rparr> = (if sint v < 0 then 0x2D # ds else ds) \<and>
        int (digits_value 10 0 ds) = \<bar>sint v\<bar> \<and> ds \<noteq> [] \<and>
     digits_value 16 0 (write_hex_or_dec v \<lparr>width = 0, zero_pad = z\<rparr> True) = unat v"
proof -
  define a where "a = (if v <s 0 then - v else v)"
  have neg: "v <s 0 \<longleftrightarrow> sint v < 0" by (simp add: word_sless_alt)
  have v: "int (unat a) = \<bar>sint v\<bar>"
    using unat_abs_sint [of v] by (auto simp: a_def neg not_less)
  define ds where "ds = (if a = 0 then [0x30] else rev (dec_loop a))"
  have "write_dec v \<lparr>width = 0, zero_pad = z\<rparr> = (if sint v < 0 then 0x2D # ds else ds)"
    by (auto simp: write_dec_def Let_def a_def ds_def neg min_i64 split: if_splits)
  moreover have "int (digits_value 10 0 ds) = \<bar>sint v\<bar>" "ds \<noteq> []"
    using v dec_loop_value [of a] by (auto simp: ds_def dec_loop_rec)
  moreover have "digits_value 16 0 (write_hex_or_dec v \<lparr>width = 0, zero_pad = z\<rparr> True) = unat v"
    using hex_loop_value [of v] by (simp add: write_hex_or_dec_def Let_def)
  ultimately show ?thesis by blast
qed

text \<open>A format without percent signs and with ASCII bytes only is printed as it is.\<close>

lemma vformat_literal:
  "list_all (\<lambda>c. c \<noteq> 0x25 \<and> c < 0x80) lit \<Longrightarrow> vformat (lit @ fmt) args = lit @ vformat fmt args"
  by (induction lit) (simp_all add: write_char_def)

end
