(* ===== verification/Mem_String.thy ===== *)
theory Mem_String
  imports Prelude
begin

text \<open>
  The C-level memory and string routines of \<open>core/src/string.rs\<close>. They work through raw
  pointers, so the model has an explicit byte memory and addresses; source and destination may
  overlap. The loops of \<open>strlen\<close> and \<open>strcmp\<close> stop only at a NUL byte, so they are
  partial functions whose value is \<open>None\<close> when they run on forever. Theorems: \<open>memmove\<close>
  is a simultaneous copy for every overlap, \<open>memcpy\<close> is one when the destination does not
  start inside the source, and on NUL-terminated strings the comparison routines terminate and
  decide equality.
\<close>

type_synonym mem = "nat \<Rightarrow> u8"

definition memcpy :: "nat \<Rightarrow> nat \<Rightarrow> nat \<Rightarrow> mem \<Rightarrow> mem" where
  "memcpy dst src n m = fold (\<lambda>i m. m(dst + i := m (src + i))) [0..<n] m"

definition memset :: "nat \<Rightarrow> u8 \<Rightarrow> nat \<Rightarrow> mem \<Rightarrow> mem" where
  "memset s c n m = fold (\<lambda>i m. m(s + i := c)) [0..<n] m"

definition memmove :: "nat \<Rightarrow> nat \<Rightarrow> nat \<Rightarrow> mem \<Rightarrow> mem" where
  "memmove dst src n m =
     (if dst < src then memcpy dst src n m
      else if dst > src then fold (\<lambda>i m. m(dst + i := m (src + i))) (rev [0..<n]) m
      else m)"

partial_function (option) strlen_from :: "mem \<Rightarrow> nat \<Rightarrow> nat \<Rightarrow> nat option" where
  "strlen_from m s n = (if m (s + n) \<noteq> 0 then strlen_from m s (n + 1) else Some n)"

definition strlen :: "mem \<Rightarrow> nat \<Rightarrow> nat option" where
  "strlen m s = strlen_from m s 0"

partial_function (option) strcmp_from :: "mem \<Rightarrow> nat \<Rightarrow> nat \<Rightarrow> nat \<Rightarrow> int option" where
  "strcmp_from m a b i =
     (if m (a + i) \<noteq> m (b + i) then Some (uint (m (a + i)) - uint (m (b + i)))
      else if m (a + i) = 0 then Some 0
      else strcmp_from m a b (i + 1))"

definition strcmp :: "mem \<Rightarrow> nat \<Rightarrow> nat \<Rightarrow> int option" where
  "strcmp m a b = strcmp_from m a b 0"

fun strncmp :: "mem \<Rightarrow> nat \<Rightarrow> nat \<Rightarrow> nat \<Rightarrow> int" where
  "strncmp m a b 0 = 0"
| "strncmp m a b (Suc n) =
     (if m a \<noteq> m b then uint (m a) - uint (m b)
      else if m a = 0 then 0
      else strncmp m (a + 1) (b + 1) n)"

section \<open>Copies\<close>

text \<open>The copy both routines are meant to perform.\<close>

definition copied :: "nat \<Rightarrow> nat \<Rightarrow> nat \<Rightarrow> mem \<Rightarrow> mem" where
  "copied dst src n m = (\<lambda>x. if dst \<le> x \<and> x < dst + n then m (src + (x - dst)) else m x)"

lemma memcpy_forward: "dst \<le> src \<or> src + n \<le> dst \<Longrightarrow> memcpy dst src n m = copied dst src n m"
proof (induction n)
  case 0
  then show ?case by (auto simp: memcpy_def copied_def fun_eq_iff)
next
  case (Suc n)
  have "memcpy dst src (Suc n) m = (copied dst src n m)(dst + n := copied dst src n m (src + n))"
    using Suc by (auto simp: memcpy_def)
  also have "\<dots> = copied dst src (Suc n) m"
    using Suc.prems by (auto simp: copied_def fun_eq_iff less_Suc_eq)
  finally show ?case .
qed

lemma copy_backward:
  "src \<le> dst \<Longrightarrow>
   fold (\<lambda>i m. m(dst + i := m (src + i))) (rev [0..<n]) m = copied dst src n m"
proof (induction n arbitrary: m)
  case 0
  then show ?case by (auto simp: copied_def fun_eq_iff)
next
  case (Suc n)
  have "fold (\<lambda>i m. m(dst + i := m (src + i))) (rev [0..<Suc n]) m =
      copied dst src n (m(dst + n := m (src + n)))"
    using Suc by (simp del: fun_upd_apply)
  also have "\<dots> = copied dst src (Suc n) m"
    using Suc.prems by (auto simp: copied_def fun_eq_iff less_Suc_eq)
  finally show ?case .
qed

text \<open>C28: \<open>memmove\<close> copies correctly for every overlap of source and destination: each
  destination byte gets the byte the source had before the call, and no other byte changes.\<close>

theorem memmove_correct: "memmove dst src n m = copied dst src n m"
  by (auto simp: memmove_def memcpy_forward copy_backward) (auto simp: copied_def fun_eq_iff)

text \<open>\<open>memcpy\<close> copies upwards, so a destination inside the source is overwritten while it is
  still to be read.\<close>

lemma memcpy_overlap: "memcpy 1 0 2 ((\<lambda>_. 0)(0 := 7, 1 := 8, 2 := 9)) 2 = 7"
  by (simp add: memcpy_def numeral_2_eq_2)

lemma memset_correct: "memset s c n m x = (if s \<le> x \<and> x < s + n then c else m x)"
  by (induction n) (auto simp: memset_def less_Suc_eq)

section \<open>Strings\<close>

text \<open>\<open>cstr_at m a xs\<close>: a NUL-terminated string with contents \<open>xs\<close> starts at \<open>a\<close>.\<close>

definition cstr_at :: "mem \<Rightarrow> nat \<Rightarrow> bytes \<Rightarrow> bool" where
  "cstr_at m a xs \<longleftrightarrow>
     (\<forall>i<length xs. m (a + i) = xs ! i) \<and> m (a + length xs) = 0 \<and> 0 \<notin> set xs"

lemma cstr_at_Nil [simp]: "cstr_at m a [] \<longleftrightarrow> m a = 0"
  by (simp add: cstr_at_def)

lemma cstr_at_Cons [simp]: "cstr_at m a (x # xs) \<longleftrightarrow> m a = x \<and> x \<noteq> 0 \<and> cstr_at m (Suc a) xs"
  by (auto simp: cstr_at_def nth_Cons' less_Suc_eq_0_disj All_less_Suc2)

lemma strlen_from_cstr: "cstr_at m (s + n) xs \<Longrightarrow> strlen_from m s n = Some (n + length xs)"
proof (induction xs arbitrary: n)
  case Nil
  then show ?case by (simp add: strlen_from.simps)
next
  case (Cons x xs)
  then show ?case using Cons.IH [of "Suc n"] by (simp add: strlen_from.simps [of m s n])
qed

text \<open>The lexicographic comparison of byte strings with the value \<open>strcmp\<close> reports.\<close>

fun cmp_bytes :: "bytes \<Rightarrow> bytes \<Rightarrow> int" where
  "cmp_bytes [] [] = 0"
| "cmp_bytes (x # xs) [] = uint x"
| "cmp_bytes [] (y # ys) = - uint y"
| "cmp_bytes (x # xs) (y # ys) = (if x = y then cmp_bytes xs ys else uint x - uint y)"

lemma cmp_bytes_0: "0 \<notin> set xs \<Longrightarrow> 0 \<notin> set ys \<Longrightarrow> cmp_bytes xs ys = 0 \<longleftrightarrow> xs = ys"
  by (induction xs ys rule: cmp_bytes.induct) (auto simp: word_uint_eq_iff)

lemma strcmp_from_cstr:
  "cstr_at m (a + i) xs \<Longrightarrow> cstr_at m (b + i) ys \<Longrightarrow> strcmp_from m a b i = Some (cmp_bytes xs ys)"
proof (induction xs ys arbitrary: i rule: cmp_bytes.induct)
  case (4 x xs y ys)
  then show ?case using "4.IH" [of "Suc i"] by (simp add: strcmp_from.simps [of m a b i])
qed (auto simp: strcmp_from.simps)

lemma strncmp_cstr:
  "cstr_at m a xs \<Longrightarrow> cstr_at m b ys \<Longrightarrow> strncmp m a b n = cmp_bytes (take n xs) (take n ys)"
proof (induction n arbitrary: a b xs ys)
  case 0
  then show ?case by simp
next
  case (Suc n)
  then show ?case by (cases xs; cases ys) auto
qed

text \<open>On NUL-terminated strings \<open>strlen\<close>, \<open>strcmp\<close> and \<open>strncmp\<close> return;
  \<open>strlen\<close> counts the bytes before the NUL, \<open>strcmp\<close> returns 0 exactly for equal strings
  and \<open>strncmp\<close> exactly for strings that agree on their first \<open>n\<close> bytes.\<close>

theorem strings_compare:
  assumes "cstr_at m a xs" and "cstr_at m b ys"
  shows "strlen m a = Some (length xs) \<and>
    (\<exists>r. strcmp m a b = Some r \<and> (r = 0 \<longleftrightarrow> xs = ys)) \<and>
    (strncmp m a b n = 0 \<longleftrightarrow> take n xs = take n ys)"
proof -
  have z: "0 \<notin> set xs" "0 \<notin> set ys" using assms by (auto simp: cstr_at_def)
  then have "0 \<notin> set (take n xs)" "0 \<notin> set (take n ys)" by (auto dest: in_set_takeD)
  then show ?thesis
    using strlen_from_cstr [of m a 0 xs] strcmp_from_cstr [of m a 0 xs b ys] strncmp_cstr [OF assms, of n]
      assms z by (simp add: strlen_def strcmp_def cmp_bytes_0)
qed

theorem strings_compare_witness:
  "strlen (\<lambda>i. [1, 2, 0, 1, 3, 0] ! i) 0 = Some 2 \<and>
   (\<exists>r. strcmp (\<lambda>i. [1, 2, 0, 1, 3, 0] ! i) 0 3 = Some r \<and> r \<noteq> 0) \<and>
   strncmp (\<lambda>i. [1, 2, 0, 1, 3, 0] ! i) 0 3 1 = 0"
  using strings_compare [of "\<lambda>i. [1, 2, 0, 1, 3, 0] ! i" 0 "[1, 2]" 3 "[1, 3]" 1]
  by simp

end
