(* ===== verification/Rle.thy ===== *)
theory Rle
  imports Prelude
begin

text \<open>
  The run-length coder of the snapshot subsystem (\<open>kernel/src/fs/onyxfs/compress.rs\<close>). The
  source index \<open>i\<close> of the loops is the remaining suffix of the source; the destination is a
  buffer of fixed length written at \<open>out\<close>, and the returned size 0 means that it was too
  small. \<open>encode\<close> is the packet stream as a list, the specification the buffered coder is
  proved to implement. Theorems: decompression undoes compression, the compressed size is at
  most \<open>n + n/128 + 1\<close>, so the buffer size the code asks for is always enough.
\<close>

definition count_run :: "u8 \<Rightarrow> nat \<Rightarrow> bytes \<Rightarrow> nat" where
  "count_run b m xs = length (takeWhile (\<lambda>x. x = b) (take m xs))"

text \<open>The literal scan: up to \<open>m\<close> bytes, stopping where three equal bytes start.\<close>

fun lit_scan :: "nat \<Rightarrow> bytes \<Rightarrow> nat" where
  "lit_scan m [] = 0"
| "lit_scan 0 (b # bs) = 0"
| "lit_scan (Suc m) (b # bs) = (if count_run b 3 (b # bs) \<ge> 3 then 0 else Suc (lit_scan m bs))"

definition packet_lit :: "bytes \<Rightarrow> nat" where
  "packet_lit xs = (let l = lit_scan 128 xs in if l = 0 then 1 else l)"

lemma count_run_le: "count_run b m xs \<le> m" "count_run b m xs \<le> length xs"
  using length_takeWhile_le [of "\<lambda>x. x = b" "take m xs"] by (auto simp: count_run_def)

lemma packet_lit_pos: "0 < packet_lit xs"
  by (simp add: packet_lit_def Let_def)

function rle_compress_loop :: "bytes \<Rightarrow> nat \<Rightarrow> bytes \<Rightarrow> nat \<times> bytes" where
  "rle_compress_loop [] out dst = (out, dst)"
| "rle_compress_loop (cur # rest) out dst =
     (let run = Suc (count_run cur 127 rest) in
      if run \<ge> 3 then
        (if out + 2 > length dst then (0, dst)
         else rle_compress_loop (drop run (cur # rest)) (out + 2)
                (blit dst out [0x80 OR of_nat (run - 1), cur]))
      else
        (let lit_len = packet_lit (cur # rest) in
         if out + 1 + lit_len > length dst then (0, dst)
         else rle_compress_loop (drop lit_len (cur # rest)) (out + 1 + lit_len)
                (blit dst out (of_nat (lit_len - 1) # take lit_len (cur # rest)))))"
  by pat_completeness auto
termination
  by (relation "measure (\<lambda>(xs, out, dst). length xs)") (auto simp: packet_lit_pos)

definition rle_compress :: "bytes \<Rightarrow> bytes \<Rightarrow> nat \<times> bytes" where
  "rle_compress src dst = rle_compress_loop src 0 dst"

function rle_decompress_loop :: "bytes \<Rightarrow> nat \<Rightarrow> bytes \<Rightarrow> nat \<times> bytes" where
  "rle_decompress_loop [] out dst = (out, dst)"
| "rle_decompress_loop (tag # rest) out dst =
     (if out \<ge> length dst then (out, dst)
      else if tag AND 0x80 \<noteq> 0 then
        (let count = unat (tag AND 0x7F) + 1 in
         if rest = [] \<or> out + count > length dst then (0, dst)
         else rle_decompress_loop (tl rest) (out + count) (blit dst out (replicate count (hd rest))))
      else
        (let count = unat tag + 1 in
         if count > length rest \<or> out + count > length dst then (0, dst)
         else rle_decompress_loop (drop count rest) (out + count) (blit dst out (take count rest))))"
  by pat_completeness auto
termination
  by (relation "measure (\<lambda>(xs, out, dst). length xs)") auto

definition rle_decompress :: "bytes \<Rightarrow> bytes \<Rightarrow> nat \<times> bytes" where
  "rle_decompress src dst = rle_decompress_loop src 0 dst"

section \<open>The packet stream\<close>

function encode :: "bytes \<Rightarrow> bytes" where
  "encode [] = []"
| "encode (cur # rest) =
     (let run = Suc (count_run cur 127 rest) in
      if run \<ge> 3 then (0x80 OR of_nat (run - 1)) # cur # encode (drop run (cur # rest))
      else
        (let lit_len = packet_lit (cur # rest) in
         of_nat (lit_len - 1) # take lit_len (cur # rest) @ encode (drop lit_len (cur # rest))))"
  by pat_completeness auto
termination
  by (relation "measure length") (auto simp: packet_lit_pos)

lemma lit_scan_le: "lit_scan m xs \<le> m" "lit_scan m xs \<le> length xs"
  by (induction m xs rule: lit_scan.induct) auto

lemma packet_lit_le: "packet_lit (b # bs) \<le> 128" "packet_lit (b # bs) \<le> length (b # bs)"
  using lit_scan_le [of 128 "b # bs"] by (auto simp: packet_lit_def Let_def)

lemma blit_append:
  "a + length ys + length zs \<le> length xs \<Longrightarrow> blit (blit xs a ys) (a + length ys) zs = blit xs a (ys @ zs)"
  by (simp add: blit_def ac_simps)

lemma blit_Nil [simp]: "blit xs a [] = xs"
  by (simp add: blit_def)

text \<open>The buffered compressor writes exactly the packet stream, or reports 0 when it does not
  fit (a stream of positive length is never reported as size 0 otherwise).\<close>

definition fits_or_zero :: "bytes \<Rightarrow> nat \<Rightarrow> bytes \<Rightarrow> nat \<times> bytes \<Rightarrow> bool" where
  "fits_or_zero stream out dst r \<longleftrightarrow>
     (out \<le> length dst \<longrightarrow>
      (if out + length stream \<le> length dst then r = (out + length stream, blit dst out stream)
       else fst r = 0))"

lemma fits_or_zero_packet:
  assumes "out + length p \<le> length dst \<Longrightarrow>
      fits_or_zero stream (out + length p) (blit dst out p) r"
  shows "fits_or_zero (p @ stream) out dst (if out + length p > length dst then (0, dst) else r)"
  using assms blit_append [of out p stream dst]
  by (auto simp: fits_or_zero_def split: if_splits)

lemma rle_compress_loop_encode: "fits_or_zero (encode xs) out dst (rle_compress_loop xs out dst)"
proof (induction xs out dst rule: rle_compress_loop.induct)
  case (1 out dst)
  then show ?case by (simp add: fits_or_zero_def)
next
  case (2 cur rest out dst)
  define run where "run = Suc (count_run cur 127 rest)"
  define l where "l = packet_lit (cur # rest)"
  show ?case
  proof (cases "run \<ge> 3")
    case True
    let ?p = "[0x80 OR of_nat (run - 1), cur] :: bytes"
    have "fits_or_zero (?p @ encode (drop run (cur # rest))) out dst
        (if out + length ?p > length dst then (0, dst)
         else rle_compress_loop (drop run (cur # rest)) (out + length ?p) (blit dst out ?p))"
      by (rule fits_or_zero_packet) (use 2(1) [OF run_def True] in simp)
    then show ?thesis using True by (simp add: Let_def run_def split: if_splits)
  next
    case False
    let ?p = "of_nat (l - 1) # take l (cur # rest) :: bytes"
    have p: "length ?p = 1 + l" using packet_lit_le(2) [of cur rest] by (simp add: l_def)
    have "fits_or_zero (?p @ encode (drop l (cur # rest))) out dst
        (if out + length ?p > length dst then (0, dst)
         else rle_compress_loop (drop l (cur # rest)) (out + length ?p) (blit dst out ?p))"
      by (rule fits_or_zero_packet) (use 2(2) [OF run_def False l_def] p in simp)
    then show ?thesis using False p by (simp add: Let_def run_def l_def split: if_splits)
  qed
qed

lemma rle_compress_encode:
  "length (encode src) \<le> length dst \<Longrightarrow>
   rle_compress src dst = (length (encode src), blit dst 0 (encode src))"
  using rle_compress_loop_encode [of src 0 dst] by (simp add: rle_compress_def fits_or_zero_def)

lemma rle_compress_overflow: "length dst < length (encode src) \<Longrightarrow> fst (rle_compress src dst) = 0"
  using rle_compress_loop_encode [of src 0 dst] by (simp add: rle_compress_def fits_or_zero_def)

section \<open>Round trip\<close>

lemma tags_checked:
  "list_all (\<lambda>k. (0x80 OR of_nat k :: u8) AND 0x80 \<noteq> 0 \<and> unat ((0x80 OR of_nat k :: u8) AND 0x7F) = k \<and>
     (of_nat k :: u8) AND 0x80 = 0 \<and> unat (of_nat k :: u8) = k) [0..<128]"
  by code_simp

lemma tag_bytes:
  assumes "k < 128"
  shows "(0x80 OR of_nat k :: u8) AND 0x80 \<noteq> 0 \<and> unat ((0x80 OR of_nat k :: u8) AND 0x7F) = k \<and>
     (of_nat k :: u8) AND 0x80 = 0 \<and> unat (of_nat k :: u8) = k"
proof -
  have "k \<in> set [0..<128]" using assms by simp
  with tags_checked [unfolded list_all_iff] show ?thesis by (rule bspec)
qed

lemma count_run_Suc: "count_run b (Suc m) (x # xs) = (if x = b then Suc (count_run b m xs) else 0)"
  by (simp add: count_run_def)

lemma count_run_Nil [simp]: "count_run b m [] = 0" "count_run b 0 xs = 0"
  by (simp_all add: count_run_def)

lemma take_run: "take (count_run b m xs) xs = replicate (count_run b m xs) b"
proof (induction xs arbitrary: m)
  case (Cons x xs)
  then show ?case by (cases m) (simp_all add: count_run_Suc)
qed simp

lemma packet_done:
  assumes "xs = p @ ys" and "length dst = out + length xs"
    and "length (blit dst out p) = out + length p + length ys \<Longrightarrow>
      r = (out + length p + length ys, blit (blit dst out p) (out + length p) ys)"
  shows "r = (out + length xs, blit dst out xs)"
  using assms blit_append [of out p ys dst] by simp

lemma decompress_encode:
  "length dst = out + length xs \<Longrightarrow>
   rle_decompress_loop (encode xs @ junk) out dst = (out + length xs, blit dst out xs)"
proof (induction xs arbitrary: out dst rule: encode.induct)
  case 1
  then show ?case by (cases junk) simp_all
next
  case (2 cur rest)
  define run where "run = Suc (count_run cur 127 rest)"
  define l where "l = packet_lit (cur # rest)"
  show ?case
  proof (cases "run \<ge> 3")
    case True
    let ?ys = "drop run (cur # rest)"
    have run: "run - 1 < 128" "run \<le> length (cur # rest)"
      using count_run_le [of cur 127 rest] by (auto simp: run_def)
    have split: "cur # rest = replicate run cur @ ?ys"
      using take_run [of cur 127 rest] append_take_drop_id [of run "cur # rest"] by (simp add: run_def)
    have "rle_decompress_loop (encode (cur # rest) @ junk) out dst =
        rle_decompress_loop (encode ?ys @ junk) (out + run) (blit dst out (replicate run cur))"
      using True run "2.prems" tag_bytes [OF run(1)]
      by (simp add: Let_def run_def [symmetric])
    also have "\<dots> = (out + length (cur # rest), blit dst out (cur # rest))"
      by (rule packet_done [OF split "2.prems"])
        (use 2(1) [OF run_def True, of "blit dst out (replicate run cur)" "out + run"] in simp)
    finally show ?thesis .
  next
    case False
    let ?p = "take l (cur # rest)" and ?ys = "drop l (cur # rest)"
    have l: "l - 1 < 128" "0 < l" "l \<le> length (cur # rest)"
      using packet_lit_le [of cur rest] packet_lit_pos [of "cur # rest"] by (auto simp: l_def)
    have split: "cur # rest = ?p @ ?ys" by simp
    have "rle_decompress_loop (encode (cur # rest) @ junk) out dst =
        rle_decompress_loop (encode ?ys @ junk) (out + length ?p) (blit dst out ?p)"
      using False l "2.prems" tag_bytes [OF l(1)]
      by (simp add: Let_def run_def [symmetric] l_def [symmetric])
    also have "\<dots> = (out + length (cur # rest), blit dst out (cur # rest))"
      by (rule packet_done [OF split "2.prems"])
        (use 2(2) [OF run_def False l_def, of "blit dst out ?p" "out + length ?p"] in simp)
    finally show ?thesis .
  qed
qed

text \<open>C23: Decompression undoes compression: with a destination buffer that is large enough for
  the packets, decompressing the compressed bytes (with anything after them in the buffer) into
  a buffer of the original length returns that length and the original bytes.\<close>

theorem rle_roundtrip:
  assumes "rle_compress src dst = (n, cbuf)" and "length (encode src) \<le> length dst"
    and "length out = length src"
  shows "n = length (encode src) \<and> length cbuf = length dst \<and>
    rle_decompress (take n cbuf @ junk) out = (length src, src) \<and>
    rle_decompress cbuf out = (length src, src)"
proof -
  have c: "n = length (encode src)" "cbuf = encode src @ drop n dst"
    using assms(1) rle_compress_encode [OF assms(2)] by (auto simp: blit_def)
  have "rle_decompress (encode src @ j) out = (length src, src)" for j
    using decompress_encode [of out 0 src j] assms(3) by (simp add: rle_decompress_def blit_def)
  then show ?thesis using c assms(2) by simp
qed

theorem rle_roundtrip_witness:
  "rle_compress [7, 7, 7, 7, 1, 2] (replicate 8 0) = (5, [0x83, 7, 1, 1, 2, 0, 0, 0]) \<and>
   rle_decompress [0x83, 7, 1, 1, 2, 0, 0, 0] (replicate 6 9) = (6, [7, 7, 7, 7, 1, 2])"
proof -
  have "rle_compress [7, 7, 7, 7, 1, 2] (replicate 8 0) = (5, [0x83, 7, 1, 1, 2, 0, 0, 0])"
    by code_simp
  moreover have "length (encode [7, 7, 7, 7, 1, 2]) = 5"
    by code_simp
  ultimately show ?thesis
    using rle_roundtrip [of "[7, 7, 7, 7, 1, 2]" "replicate 8 0" 5 "[0x83, 7, 1, 1, 2, 0, 0, 0]"
        "replicate 6 9"] by simp
qed

section \<open>Size bound\<close>

lemma count_run_mono: "m \<le> m' \<Longrightarrow> count_run b m xs \<le> count_run b m' xs"
proof (induction xs arbitrary: m m')
  case (Cons x xs)
  then show ?case by (cases m; cases m') (auto simp: count_run_Suc)
qed simp

definition run_start :: "bytes \<Rightarrow> bool" where
  "run_start xs \<longleftrightarrow> (case xs of [] \<Rightarrow> True | b # bs \<Rightarrow> 3 \<le> Suc (count_run b 127 bs))"

lemma lit_scan_stop: "lit_scan m xs < m \<Longrightarrow> run_start (drop (lit_scan m xs) xs)"
proof (induction m xs rule: lit_scan.induct)
  case (3 m b bs)
  have "3 \<le> Suc (count_run b 127 bs)" if "count_run b 3 (b # bs) \<ge> 3"
    using that count_run_mono [of "Suc (Suc 0)" 127 b bs] by (simp add: numeral_3_eq_3 count_run_Suc)
  then show ?case using 3 by (auto simp: run_start_def)
qed (simp_all add: run_start_def)

lemma lit_scan_first: "\<not> run_start (b # bs) \<Longrightarrow> 0 < lit_scan (Suc m) (b # bs)"
  using count_run_mono [of "Suc (Suc 0)" 127 b bs] by (auto simp: run_start_def numeral_3_eq_3 count_run_Suc)

lemma encode_length:
  "length (encode xs) \<le> length xs + length xs div 128 + (if run_start xs then 0 else 1)"
proof (induction xs rule: encode.induct)
  case 1
  then show ?case by simp
next
  case (2 cur rest)
  define run where "run = Suc (count_run cur 127 rest)"
  define l where "l = packet_lit (cur # rest)"
  show ?case
  proof (cases "run \<ge> 3")
    case True
    let ?ys = "drop run (cur # rest)"
    have le: "run \<le> length (cur # rest)" using count_run_le(2) [of cur 127 rest] by (simp add: run_def)
    have "length (encode ?ys) \<le> length ?ys + length ?ys div 128 + 1"
      using 2(1) [OF run_def True] by (simp split: if_splits)
    moreover have "length ?ys div 128 \<le> length (cur # rest) div 128" by (intro div_le_mono) simp
    moreover have "length (encode (cur # rest)) = 2 + length (encode ?ys)"
      using True by (simp add: Let_def run_def)
    moreover have "run_start (cur # rest)" using True by (simp add: run_start_def run_def)
    ultimately show ?thesis using True le by simp
  next
    case False
    let ?ys = "drop l (cur # rest)"
    have nrun: "\<not> run_start (cur # rest)" using False by (simp add: run_start_def run_def)
    then have l: "l = lit_scan 128 (cur # rest)"
      using lit_scan_first [of cur rest 127] by (simp add: l_def packet_lit_def Let_def)
    have le: "l \<le> length (cur # rest)" "l \<le> 128" using lit_scan_le [of 128 "cur # rest"] unfolding l by auto
    have e: "length (encode (cur # rest)) = 1 + l + length (encode ?ys)"
      using False le by (simp add: Let_def run_def l_def)
    have IH: "length (encode ?ys) \<le> length ?ys + length ?ys div 128 + (if run_start ?ys then 0 else 1)"
      using 2(2) [OF run_def False l_def] .
    show ?thesis
    proof (cases "l = 128")
      case True
      then have "length (cur # rest) div 128 = length ?ys div 128 + 1" using le by (simp add: le_div_geq)
      then show ?thesis using IH e le nrun by (simp split: if_splits)
    next
      case l128: False
      then have "run_start ?ys" using lit_scan_stop [of 128 "cur # rest"] le l by simp
      moreover have "length ?ys div 128 \<le> length (cur # rest) div 128" by (intro div_le_mono) simp
      ultimately show ?thesis using IH e le nrun by simp
    qed
  qed
qed

text \<open>The buffer size the compressor asks its callers for, \<open>n + n/128 + 2\<close>, always
  suffices: the compressed size is at most \<open>n + n/128 + 1\<close>, and a non-empty source is then
  never reported as an overflow.\<close>

theorem rle_size_bound:
  assumes "length src + length src div 128 + 2 \<le> length dst" and "src \<noteq> []"
  shows "0 < fst (rle_compress src dst) \<and>
    fst (rle_compress src dst) \<le> length src + length src div 128 + 1"
proof -
  have "length (encode src) \<le> length src + length src div 128 + 1"
    using encode_length [of src] by (simp split: if_splits)
  moreover have "encode src \<noteq> []" using assms(2) by (cases src) (auto simp: Let_def)
  ultimately show ?thesis using assms(1) by (simp add: rle_compress_encode)
qed

theorem rle_size_bound_witness:
  "0 < fst (rle_compress [1, 2, 3] (replicate 5 0)) \<and> fst (rle_compress [1, 2, 3] (replicate 5 0)) \<le> 4"
  using rle_size_bound [of "[1, 2, 3]" "replicate 5 0"] by simp

end
