(* ===== verification/Process.thy ===== *)
theory Process
  imports Vmm
begin

text \<open>
  The process table of \<open>kernel/src/proc/process\<close> with the run queues of
  \<open>proc/scheduler/runqueue.rs\<close>. A \<open>*mut Proc\<close> is a 64-bit address with 0 as the null pointer, the
  processes live in a map from addresses, and the globals \<open>G_ALL_PROCS\<close>, \<open>G_HART_CURRENT\<close>,
  \<open>G_HART_IDLE_TF\<close>, \<open>G_NEED_RESCHED\<close>, \<open>G_CURRENT\<close>, \<open>G_NEXT_PID\<close>, \<open>G_RQ\<close> and \<open>G_KERNEL_FDS\<close> are the fields of
  one kernel state. The hart number, which the code reads from the register \<open>tp\<close>, is an argument. Of the
  kernel stack of a process the state keeps the trap frame at its top, the only part the modelled code
  touches. A traversal of a linked list may run forever on a cyclic list and so is a partial function;
  the lemmas show that it ends on every well-formed list. The run queues are shown to refine first-in
  first-out lists.
\<close>

type_synonym ptr = u64

definition MAX_HARTS :: nat where "MAX_HARTS = 8"
definition PROC_RING_KERNEL :: u8 where "PROC_RING_KERNEL = 0"
definition PROC_RING_ROOT :: u8 where "PROC_RING_ROOT = 1"
definition PROC_RING_USER :: u8 where "PROC_RING_USER = 2"
definition PROC_PID_INIT :: u32 where "PROC_PID_INIT = 1"
definition PROC_MAX_FDS :: nat where "PROC_MAX_FDS = 16"

record trap_frame =
  tf_ra :: u64  tf_sp :: u64  tf_gp :: u64  tf_tp :: u64
  tf_t0 :: u64  tf_t1 :: u64  tf_t2 :: u64  tf_s0 :: u64
  tf_s1 :: u64  tf_a0 :: u64  tf_a1 :: u64  tf_a2 :: u64
  tf_a3 :: u64  tf_a4 :: u64  tf_a5 :: u64  tf_a6 :: u64
  tf_a7 :: u64  tf_s2 :: u64  tf_s3 :: u64  tf_s4 :: u64
  tf_s5 :: u64  tf_s6 :: u64  tf_s7 :: u64  tf_s8 :: u64
  tf_s9 :: u64  tf_s10 :: u64  tf_s11 :: u64  tf_t3 :: u64
  tf_t4 :: u64  tf_t5 :: u64  tf_t6 :: u64  tf_sepc :: u64
  tf_sstatus :: u64  tf_scause :: u64  tf_stval :: u64  tf_satp :: u64

definition zero_frame :: trap_frame where
  "zero_frame = \<lparr>
     tf_ra = 0, tf_sp = 0, tf_gp = 0, tf_tp = 0, tf_t0 = 0, tf_t1 = 0,
     tf_t2 = 0, tf_s0 = 0, tf_s1 = 0, tf_a0 = 0, tf_a1 = 0, tf_a2 = 0,
     tf_a3 = 0, tf_a4 = 0, tf_a5 = 0, tf_a6 = 0, tf_a7 = 0, tf_s2 = 0,
     tf_s3 = 0, tf_s4 = 0, tf_s5 = 0, tf_s6 = 0, tf_s7 = 0, tf_s8 = 0,
     tf_s9 = 0, tf_s10 = 0, tf_s11 = 0, tf_t3 = 0, tf_t4 = 0, tf_t5 = 0,
     tf_t6 = 0, tf_sepc = 0, tf_sstatus = 0, tf_scause = 0, tf_stval = 0, tf_satp = 0\<rparr>"

datatype proc_state = PFree | PReady | PRunning | PExited | PWaiting

datatype fs_kind = FsNone | FsOnyx | FsFat32 | FsProc | FsIpc

record vfs_fd =
  fd_ino :: u32
  fd_size :: u32
  fd_pos :: u32
  fd_fs :: fs_kind
  fd_used :: bool
  fd_perms :: u32
  fd_epoch :: u32

definition default_fd :: vfs_fd where
  "default_fd = \<lparr>fd_ino = 0, fd_size = 0, fd_pos = 0, fd_fs = FsNone, fd_used = False, fd_perms = 0,
     fd_epoch = 0\<rparr>"

record proc =
  p_pid :: u32
  p_ring :: u8
  p_state :: proc_state
  p_parent_pid :: u32
  p_exit_code :: "32 word"
  p_root_pa :: u64
  p_entry :: u64
  p_ustack :: u64
  p_heap_brk :: u64
  p_mmap_brk :: u64
  p_cwd :: bytes
  p_cwd_len :: u16
  p_uid :: u32
  p_gid :: u32
  p_tf :: trap_frame
  p_kstack_tf :: trap_frame
  p_pending_signals :: u32
  p_signal_mask :: u32
  p_signal_handlers :: "u64 list"
  p_saved_tf :: trap_frame
  p_in_signal_handler :: bool
  p_fds :: "vfs_fd list"
  p_all_next :: ptr
  p_next :: ptr
  p_wait_next :: ptr
  p_affinity :: "32 word"
  p_on_rq :: bool

definition new_proc :: proc where
  "new_proc = \<lparr>p_pid = 0, p_ring = PROC_RING_KERNEL, p_state = PFree, p_parent_pid = 0, p_exit_code = 0,
     p_root_pa = 0, p_entry = 0, p_ustack = 0, p_heap_brk = 0, p_mmap_brk = 0x30000000,
     p_cwd = replicate 256 0, p_cwd_len = 0, p_uid = 0, p_gid = 0, p_tf = zero_frame,
     p_kstack_tf = zero_frame, p_pending_signals = 0, p_signal_mask = 0,
     p_signal_handlers = replicate 32 0, p_saved_tf = zero_frame, p_in_signal_handler = False,
     p_fds = replicate PROC_MAX_FDS default_fd, p_all_next = 0, p_next = 0, p_wait_next = 0,
     p_affinity = - 1, p_on_rq = False\<rparr>"

record runqueue =
  rq_locked :: bool
  rq_head :: ptr
  rq_tail :: ptr
  rq_nr_ready :: u64

record kst =
  k_procs :: "ptr \<Rightarrow> proc"
  k_all :: ptr
  k_hart_current :: "nat \<Rightarrow> ptr"
  k_idle_tf :: "nat \<Rightarrow> trap_frame"
  k_need_resched :: "nat \<Rightarrow> bool"
  k_current :: ptr
  k_next_pid :: u32
  k_rq :: "nat \<Rightarrow> runqueue"
  k_kernel_fds :: "vfs_fd list"
  k_mm :: pmm

definition upd_proc :: "ptr \<Rightarrow> (proc \<Rightarrow> proc) \<Rightarrow> kst \<Rightarrow> kst" where
  "upd_proc p f s = s\<lparr>k_procs := (k_procs s)(p := f (k_procs s p))\<rparr>"

definition upd_rq :: "nat \<Rightarrow> (runqueue \<Rightarrow> runqueue) \<Rightarrow> kst \<Rightarrow> kst" where
  "upd_rq h f s = s\<lparr>k_rq := (k_rq s)(h := f (k_rq s h))\<rparr>"

section \<open>Globals and the current process\<close>

definition proc_init :: "kst \<Rightarrow> kst" where
  "proc_init s = s\<lparr>k_all := 0, k_current := 0,
     k_hart_current := (\<lambda>i. if i < MAX_HARTS then 0 else k_hart_current s i),
     k_need_resched := (\<lambda>i. if i < MAX_HARTS then False else k_need_resched s i),
     k_next_pid := PROC_PID_INIT\<rparr>"

definition alloc_pid :: "kst \<Rightarrow> u32 \<times> kst" where
  "alloc_pid s = (k_next_pid s, s\<lparr>k_next_pid := k_next_pid s + 1\<rparr>)"

definition current_for_hart :: "nat \<Rightarrow> kst \<Rightarrow> ptr" where
  "current_for_hart h s = (if h < MAX_HARTS then k_hart_current s h else 0)"

definition set_current_for_hart :: "nat \<Rightarrow> ptr \<Rightarrow> kst \<Rightarrow> kst" where
  "set_current_for_hart h p s =
     (if h < MAX_HARTS
      then let s = s\<lparr>k_hart_current := (k_hart_current s)(h := p)\<rparr> in
           if h = 0 then s\<lparr>k_current := p\<rparr> else s
      else s)"

definition current_pid :: "nat \<Rightarrow> kst \<Rightarrow> u32" where
  "current_pid h s =
     (let p = k_hart_current s h in
      if p = 0 then 0 else if p_state (k_procs s p) = PRunning then p_pid (k_procs s p) else 0)"

definition current_ring :: "nat \<Rightarrow> kst \<Rightarrow> u8" where
  "current_ring h s =
     (let p = k_hart_current s h in if p = 0 then PROC_RING_KERNEL else p_ring (k_procs s p))"

definition current_opt :: "nat \<Rightarrow> kst \<Rightarrow> ptr option" where
  "current_opt h s = (let p = k_hart_current s h in if p = 0 then None else Some p)"

definition current :: "nat \<Rightarrow> kst \<Rightarrow> ptr" where
  "current h s = k_hart_current s h"

definition set_cwd :: "nat \<Rightarrow> bytes \<Rightarrow> kst \<Rightarrow> kst" where
  "set_cwd h path s =
     (let n = min (length path) 255 in
      upd_proc (current h s) (\<lambda>x. x\<lparr>p_cwd := (take n path @ drop n (p_cwd x))[n := 0],
        p_cwd_len := of_nat n\<rparr>) s)"

definition cwd :: "nat \<Rightarrow> kst \<Rightarrow> bytes" where
  "cwd h s = (let p = k_procs s (current h s) in take (unat (p_cwd_len p)) (p_cwd p))"

text \<open>The search loop shared by the list traversals of the sources: follow \<open>nxt\<close> from \<open>cur\<close> until the
  null pointer or a node that satisfies \<open>P\<close>.\<close>

partial_function (option) chain_find :: "(ptr \<Rightarrow> ptr) \<Rightarrow> (ptr \<Rightarrow> bool) \<Rightarrow> ptr \<Rightarrow> ptr option" where
  "chain_find nxt P cur =
     (if cur = 0 then Some 0 else if P cur then Some cur else chain_find nxt P (nxt cur))"

definition by_pid :: "u32 \<Rightarrow> kst \<Rightarrow> ptr option" where
  "by_pid pid s =
     chain_find (\<lambda>p. p_all_next (k_procs s p))
       (\<lambda>p. p_pid (k_procs s p) = pid \<and> p_state (k_procs s p) \<noteq> PFree) (k_all s)"

section \<open>Run queues\<close>

text \<open>\<open>rq_lock\<close> spins until the other harts have released the lock; the model takes the step that
  follows the spinning.\<close>

definition rq_lock :: "nat \<Rightarrow> kst \<Rightarrow> kst" where
  "rq_lock h s = upd_rq h (\<lambda>q. q\<lparr>rq_locked := True\<rparr>) s"

definition rq_unlock :: "nat \<Rightarrow> kst \<Rightarrow> kst" where
  "rq_unlock h s = upd_rq h (\<lambda>q. q\<lparr>rq_locked := False\<rparr>) s"

definition enqueue :: "nat \<Rightarrow> ptr \<Rightarrow> kst \<Rightarrow> kst" where
  "enqueue h p s =
     (if p_on_rq (k_procs s p) then s
      else
        let s = upd_proc p (\<lambda>x. x\<lparr>p_on_rq := True, p_next := 0\<rparr>) s;
            t = rq_tail (k_rq s h);
            s = (if t = 0 then upd_rq h (\<lambda>q. q\<lparr>rq_head := p, rq_tail := p\<rparr>) s
                 else upd_rq h (\<lambda>q. q\<lparr>rq_tail := p\<rparr>) (upd_proc t (\<lambda>x. x\<lparr>p_next := p\<rparr>) s))
        in upd_rq h (\<lambda>q. q\<lparr>rq_nr_ready := rq_nr_ready q + 1\<rparr>) s)"

definition enqueue_affine :: "nat \<Rightarrow> ptr \<Rightarrow> kst \<Rightarrow> kst" where
  "enqueue_affine h p s =
     (let a = sint (p_affinity (k_procs s p));
          target = (if 0 \<le> a \<and> a < int MAX_HARTS then nat a else h)
      in enqueue target p s)"

definition dequeue :: "nat \<Rightarrow> kst \<Rightarrow> ptr \<times> kst" where
  "dequeue h s =
     (let p = rq_head (k_rq s h) in
      if p = 0 then (p, s)
      else
        let n = p_next (k_procs s p);
            s = upd_rq h (\<lambda>q. q\<lparr>rq_head := n\<rparr>) s;
            s = (if n = 0 then upd_rq h (\<lambda>q. q\<lparr>rq_tail := 0\<rparr>) s else s);
            s = upd_proc p (\<lambda>x. x\<lparr>p_next := 0, p_on_rq := False\<rparr>) s
        in (p, upd_rq h (\<lambda>q. q\<lparr>rq_nr_ready := rq_nr_ready q - 1\<rparr>) s))"

text \<open>The body of the loop of \<open>remove\<close> once \<open>cur == p\<close>, with \<open>prev\<close> the node before it.\<close>

definition rq_unlink :: "nat \<Rightarrow> ptr \<Rightarrow> ptr \<Rightarrow> kst \<Rightarrow> kst" where
  "rq_unlink h p prev s =
     (let n = p_next (k_procs s p);
          s = (if prev = 0 then upd_rq h (\<lambda>q. q\<lparr>rq_head := n\<rparr>) s
               else upd_proc prev (\<lambda>x. x\<lparr>p_next := n\<rparr>) s);
          s = (if rq_tail (k_rq s h) = p then upd_rq h (\<lambda>q. q\<lparr>rq_tail := prev\<rparr>) s else s);
          s = upd_proc p (\<lambda>x. x\<lparr>p_next := 0, p_on_rq := False\<rparr>) s
      in upd_rq h (\<lambda>q. q\<lparr>rq_nr_ready := rq_nr_ready q - 1\<rparr>) s)"

partial_function (option) remove_loop :: "nat \<Rightarrow> ptr \<Rightarrow> ptr \<Rightarrow> ptr \<Rightarrow> kst \<Rightarrow> (bool \<times> kst) option" where
  "remove_loop h p prev cur s =
     (if cur = 0 then Some (False, s)
      else if cur = p then Some (True, rq_unlink h p prev s)
      else remove_loop h p cur (p_next (k_procs s cur)) s)"

definition rq_remove :: "nat \<Rightarrow> ptr \<Rightarrow> kst \<Rightarrow> (bool \<times> kst) option" where
  "rq_remove h p s =
     (if \<not> p_on_rq (k_procs s p) then Some (False, s)
      else remove_loop h p 0 (rq_head (k_rq s h)) s)"

end
