(* ===== verification/Run_Queue.thy ===== *)
theory Run_Queue
  imports Process
begin

text \<open>
  The run queues of \<open>proc/scheduler/runqueue.rs\<close> refine first-in first-out lists. \<open>chain\<close> reads a linked
  list out of the process map, \<open>rq_ok\<close> relates the eight pointer-based queues to eight lists, the locale
  \<open>fifo_queues\<close> states the interface the scheduler relies on, and its interpretation \<open>rqs\<close> discharges the
  laws for \<open>enqueue\<close> and \<open>dequeue\<close>.
\<close>

fun chain :: "(ptr \<Rightarrow> ptr) \<Rightarrow> ptr \<Rightarrow> ptr list \<Rightarrow> bool" where
  "chain nxt a [] = (a = 0)"
| "chain nxt a (x # xs) = (a = x \<and> x \<noteq> 0 \<and> chain nxt (nxt x) xs)"

lemma chain_not_null: "chain nxt a xs \<Longrightarrow> 0 \<notin> set xs"
  by (induction xs arbitrary: a) auto

lemma chain_cong: "(\<And>x. x \<in> set xs \<Longrightarrow> f x = g x) \<Longrightarrow> chain f a xs = chain g a xs"
  by (induction xs arbitrary: a) auto

lemma chain_snoc: "chain f a (xs @ [x]) \<Longrightarrow> x \<notin> set xs \<Longrightarrow> y \<noteq> 0 \<Longrightarrow> y \<notin> set (xs @ [x]) \<Longrightarrow> f y = 0
  \<Longrightarrow> chain (f(x := y)) a (xs @ [x, y])"
  by (induction xs arbitrary: a) auto

lemma chain_head: "chain f a xs \<Longrightarrow> a = (if xs = [] then 0 else hd xs)"
  by (cases xs) auto

lemma chain_find_chain:
  "chain nxt a xs \<Longrightarrow> chain_find nxt P a = Some (case find P xs of None \<Rightarrow> 0 | Some p \<Rightarrow> p)"
proof (induction xs arbitrary: a)
  case Nil
  then show ?case by (simp add: chain_find.simps)
next
  case (Cons x xs)
  then show ?case by (subst chain_find.simps) auto
qed

text \<open>The queues as lists: links, ends, lengths and the \<open>on_rq\<close> flags agree with eight disjoint lists.\<close>

abbreviation next_of :: "kst \<Rightarrow> ptr \<Rightarrow> ptr" where
  "next_of s \<equiv> \<lambda>p. p_next (k_procs s p)"

definition last_or_null :: "ptr list \<Rightarrow> ptr" where
  "last_or_null xs = (if xs = [] then 0 else last xs)"

definition queued :: "(nat \<Rightarrow> ptr list) \<Rightarrow> ptr set" where
  "queued qs = (\<Union>h<MAX_HARTS. set (qs h))"

definition q_ok :: "kst \<Rightarrow> nat \<Rightarrow> ptr list \<Rightarrow> bool" where
  "q_ok s h xs \<longleftrightarrow> chain (next_of s) (rq_head (k_rq s h)) xs \<and> rq_tail (k_rq s h) = last_or_null xs
     \<and> rq_nr_ready (k_rq s h) = of_nat (length xs) \<and> distinct xs"

definition rq_ok :: "kst \<Rightarrow> (nat \<Rightarrow> ptr list) \<Rightarrow> bool" where
  "rq_ok s qs \<longleftrightarrow> (\<forall>h<MAX_HARTS. q_ok s h (qs h))
     \<and> (\<forall>h<MAX_HARTS. \<forall>k<MAX_HARTS. h \<noteq> k \<longrightarrow> set (qs h) \<inter> set (qs k) = {})
     \<and> (\<forall>p. p_on_rq (k_procs s p) \<longleftrightarrow> p \<in> queued qs)"

lemma rq_okD:
  assumes "rq_ok s qs"
  shows "h < MAX_HARTS \<Longrightarrow> q_ok s h (qs h)"
    and "h < MAX_HARTS \<Longrightarrow> k < MAX_HARTS \<Longrightarrow> h \<noteq> k \<Longrightarrow> set (qs h) \<inter> set (qs k) = {}"
    and "p_on_rq (k_procs s p) \<longleftrightarrow> p \<in> queued qs"
  using assms by (auto simp: rq_ok_def)

lemma queued_upd: "h < MAX_HARTS \<Longrightarrow> queued (qs(h := xs)) = set xs \<union> (\<Union>k\<in>{..<MAX_HARTS} - {h}. set (qs k))"
  by (auto simp: queued_def split: if_splits)

lemma rq_ok_upd:
  assumes ok: "rq_ok s qs" and h: "h < MAX_HARTS" and new: "q_ok s' h xs"
    and links: "\<And>k x. k < MAX_HARTS \<Longrightarrow> k \<noteq> h \<Longrightarrow> x \<in> set (qs k) \<Longrightarrow> next_of s' x = next_of s x"
    and heads: "\<And>k. k \<noteq> h \<Longrightarrow> k_rq s' k = k_rq s k"
    and dis: "\<And>k. k < MAX_HARTS \<Longrightarrow> k \<noteq> h \<Longrightarrow> set xs \<inter> set (qs k) = {}"
    and flags: "\<And>p. p_on_rq (k_procs s' p) \<longleftrightarrow> p \<in> queued (qs(h := xs))"
  shows "rq_ok s' (qs(h := xs))"
proof -
  have "q_ok s' k (qs k)" if "k < MAX_HARTS" "k \<noteq> h" for k
    using rq_okD(1) [OF ok that(1)] chain_cong [of "qs k" "next_of s'" "next_of s"] links [OF that] heads [OF that(2)]
    by (simp add: q_ok_def)
  then show ?thesis
    using new rq_okD(2) [OF ok] dis flags by (fastforce simp: rq_ok_def)
qed

lemma enqueue_queued:
  assumes "rq_ok s qs" "p \<in> queued qs"
  shows "enqueue h p s = s"
  using assms by (simp add: enqueue_def rq_ok_def)

lemma enqueue_fields [simp]:
  "k_hart_current (enqueue h p s) = k_hart_current s" "k_all (enqueue h p s) = k_all s"
  "k_need_resched (enqueue h p s) = k_need_resched s" "k_mm (enqueue h p s) = k_mm s"
  "k_idle_tf (enqueue h p s) = k_idle_tf s" "k_current (enqueue h p s) = k_current s"
  "k_next_pid (enqueue h p s) = k_next_pid s" "k_kernel_fds (enqueue h p s) = k_kernel_fds s"
  by (simp_all add: enqueue_def Let_def upd_rq_def upd_proc_def)

text \<open>What the queue operations leave of a process: everything but its link and its flag.\<close>

definition core :: "proc \<Rightarrow> proc" where
  "core x = x\<lparr>p_next := 0, p_on_rq := False\<rparr>"

lemma core_sel [simp]:
  "p_pid (core x) = p_pid x" "p_state (core x) = p_state x" "p_ring (core x) = p_ring x"
  "p_parent_pid (core x) = p_parent_pid x" "p_tf (core x) = p_tf x" "p_affinity (core x) = p_affinity x"
  "p_all_next (core x) = p_all_next x" "p_wait_next (core x) = p_wait_next x" "p_fds (core x) = p_fds x"
  "p_exit_code (core x) = p_exit_code x" "p_root_pa (core x) = p_root_pa x"
  by (simp_all add: core_def)

definition same_core :: "kst \<Rightarrow> kst \<Rightarrow> bool" where
  "same_core s s' \<longleftrightarrow> (\<forall>p. core (k_procs s' p) = core (k_procs s p)) \<and> k_hart_current s' = k_hart_current s
     \<and> k_all s' = k_all s \<and> (\<forall>h. rq_locked (k_rq s' h) = rq_locked (k_rq s h))"

lemma same_core_proc:
  assumes "same_core s s'"
  shows "p_pid (k_procs s' p) = p_pid (k_procs s p)" "p_state (k_procs s' p) = p_state (k_procs s p)"
    "p_parent_pid (k_procs s' p) = p_parent_pid (k_procs s p)" "p_tf (k_procs s' p) = p_tf (k_procs s p)"
    "p_affinity (k_procs s' p) = p_affinity (k_procs s p)" "p_all_next (k_procs s' p) = p_all_next (k_procs s p)"
    "k_hart_current s' = k_hart_current s" "k_all s' = k_all s"
  using assms by (simp_all add: same_core_def) (metis core_sel)+

lemma same_core_trans: "same_core s s' \<Longrightarrow> same_core s' s'' \<Longrightarrow> same_core s s''"
  by (simp add: same_core_def)

lemma same_core_refl [simp]: "same_core s s"
  by (simp add: same_core_def)

lemma enqueue_core [simp]: "same_core s (enqueue h p s)"
  by (auto simp: same_core_def core_def enqueue_def Let_def upd_rq_def upd_proc_def)

lemma dequeue_core [simp]: "same_core s (snd (dequeue h s))"
  by (auto simp: same_core_def core_def dequeue_def Let_def upd_rq_def upd_proc_def)

lemma q_okD:
  assumes "q_ok s h xs"
  shows "chain (next_of s) (rq_head (k_rq s h)) xs" "rq_tail (k_rq s h) = last_or_null xs"
    "rq_nr_ready (k_rq s h) = of_nat (length xs)" "distinct xs" "0 \<notin> set xs"
  using assms chain_not_null by (auto simp: q_ok_def)

lemma enqueue_q:
  assumes q: "q_ok s h xs" and p: "p \<noteq> 0" "p \<notin> set xs" "\<not> p_on_rq (k_procs s p)"
  shows "q_ok (enqueue h p s) h (xs @ [p])"
proof (cases xs rule: rev_cases)
  case Nil
  then show ?thesis
    using q p by (simp add: q_ok_def enqueue_def Let_def upd_rq_def upd_proc_def last_or_null_def)
next
  case (snoc ys y)
  have n0: "y \<noteq> 0" and yp: "y \<noteq> p" and d: "y \<notin> set ys"
    using q_okD(4,5) [OF q] p snoc by auto
  have links: "next_of (enqueue h p s) = (next_of s)(p := 0, y := p)"
    using q_okD(2) [OF q] p n0 yp snoc
    by (auto simp: fun_eq_iff enqueue_def Let_def upd_rq_def upd_proc_def last_or_null_def)
  have "chain ((next_of s)(p := 0)) (rq_head (k_rq s h)) (ys @ [y])"
    using q_okD(1) [OF q] p snoc by (subst chain_cong [where g = "next_of s"]) auto
  from chain_snoc [OF this d p(1)] have "chain (next_of (enqueue h p s)) (rq_head (k_rq s h)) (ys @ [y, p])"
    using p snoc links by simp
  moreover have "rq_head (k_rq (enqueue h p s) h) = rq_head (k_rq s h)" "rq_tail (k_rq (enqueue h p s) h) = p"
    "rq_nr_ready (k_rq (enqueue h p s) h) = rq_nr_ready (k_rq s h) + 1"
    using q_okD(2) [OF q] p n0 snoc by (simp_all add: enqueue_def Let_def upd_rq_def upd_proc_def last_or_null_def)
  ultimately show ?thesis
    using q_okD(3,4) [OF q] p yp snoc by (simp add: q_ok_def last_or_null_def)
qed

lemma enqueue_other:
  "k \<noteq> h \<Longrightarrow> k_rq (enqueue h p s) k = k_rq s k"
  "x \<noteq> p \<Longrightarrow> x \<noteq> rq_tail (k_rq s h) \<Longrightarrow> next_of (enqueue h p s) x = next_of s x"
  "p_on_rq (k_procs (enqueue h p s) x) = (x = p \<or> p_on_rq (k_procs s x))"
  by (auto simp: enqueue_def Let_def upd_rq_def upd_proc_def)

lemma enqueue_ok:
  assumes ok: "rq_ok s qs" and h: "h < MAX_HARTS" and p: "p \<noteq> 0" "p \<notin> queued qs"
  shows "rq_ok (enqueue h p s) (qs(h := qs h @ [p]))"
proof (rule rq_ok_upd [OF ok h])
  have np: "p \<notin> set (qs k)" if "k < MAX_HARTS" for k using p(2) that by (auto simp: queued_def)
  have tail: "rq_tail (k_rq s h) = last_or_null (qs h)" and n0: "k < MAX_HARTS \<Longrightarrow> 0 \<notin> set (qs k)" for k
    using rq_okD(1) [OF ok] h q_okD by blast+
  show "q_ok (enqueue h p s) h (qs h @ [p])"
    using enqueue_q [OF rq_okD(1) [OF ok h] p(1) np [OF h]] rq_okD(3) [OF ok] p(2) by simp
  show "next_of (enqueue h p s) x = next_of s x" if "k < MAX_HARTS" "k \<noteq> h" "x \<in> set (qs k)" for k x
  proof (rule enqueue_other(2))
    show "x \<noteq> p" using np that by blast
    have "rq_tail (k_rq s h) = 0 \<or> rq_tail (k_rq s h) \<in> set (qs h)"
      using tail by (simp add: last_or_null_def)
    moreover have "x \<noteq> 0" "x \<notin> set (qs h)" using n0 [OF that(1)] that rq_okD(2) [OF ok h that(1)] by auto
    ultimately show "x \<noteq> rq_tail (k_rq s h)" by metis
  qed
  show "k_rq (enqueue h p s) k = k_rq s k" if "k \<noteq> h" for k
    using that by (rule enqueue_other(1))
  show "set (qs h @ [p]) \<inter> set (qs k) = {}" if "k < MAX_HARTS" "k \<noteq> h" for k
    using rq_okD(2) [OF ok h that(1)] that np [OF that(1)] by auto
  show "p_on_rq (k_procs (enqueue h p s) x) \<longleftrightarrow> x \<in> queued (qs(h := qs h @ [p]))" for x
    using h rq_okD(3) [OF ok, of x] by (auto simp: enqueue_other(3) queued_def split: if_splits)
qed

lemma dequeue_nil:
  assumes "rq_ok s qs" "h < MAX_HARTS" "qs h = []"
  shows "dequeue h s = (0, s)"
  using q_okD(1) [OF rq_okD(1) [OF assms(1,2)]] assms(3) by (simp add: dequeue_def)

lemma dequeue_q:
  assumes q: "q_ok s h (p # xs)"
  shows "fst (dequeue h s) = p" "q_ok (snd (dequeue h s)) h xs"
proof -
  have hd: "rq_head (k_rq s h) = p" and p0: "p \<noteq> 0" and c: "chain (next_of s) (next_of s p) xs"
    and d: "p \<notin> set xs" "distinct xs"
    using q_okD [OF q] by auto
  show "fst (dequeue h s) = p" using hd p0 by (simp add: dequeue_def Let_def)
  have n: "next_of s p = (if xs = [] then 0 else hd xs)" using chain_head [OF c] .
  have h0: "xs \<noteq> [] \<Longrightarrow> hd xs \<noteq> 0" using chain_not_null [OF c] hd_in_set [of xs] by metis
  have "chain (next_of (snd (dequeue h s))) (next_of s p) xs"
    using c d hd p0 by (subst chain_cong [where g = "next_of s"])
      (auto simp: dequeue_def Let_def upd_rq_def upd_proc_def)
  moreover have "rq_head (k_rq (snd (dequeue h s)) h) = next_of s p"
    "rq_tail (k_rq (snd (dequeue h s)) h) = last_or_null xs"
    "rq_nr_ready (k_rq (snd (dequeue h s)) h) = of_nat (length xs)"
    using q_okD(2,3) [OF q] hd p0 n h0
    by (auto simp: dequeue_def Let_def upd_rq_def upd_proc_def last_or_null_def)
  ultimately show "q_ok (snd (dequeue h s)) h xs"
    using d(2) by (simp add: q_ok_def)
qed

lemma dequeue_other:
  "k \<noteq> h \<Longrightarrow> k_rq (snd (dequeue h s)) k = k_rq s k"
  "x \<noteq> rq_head (k_rq s h) \<Longrightarrow> next_of (snd (dequeue h s)) x = next_of s x"
  "rq_head (k_rq s h) \<noteq> 0 \<Longrightarrow>
     p_on_rq (k_procs (snd (dequeue h s)) x) = (x \<noteq> rq_head (k_rq s h) \<and> p_on_rq (k_procs s x))"
  by (auto simp: dequeue_def Let_def upd_rq_def upd_proc_def)

lemma rq_ok_drop:
  assumes ok: "rq_ok s qs" and h: "h < MAX_HARTS" and p: "p \<in> set (qs h)" and xs: "set xs = set (qs h) - {p}"
    and q: "q_ok s' h xs" and other: "\<And>k. k \<noteq> h \<Longrightarrow> k_rq s' k = k_rq s k"
    and links: "\<And>x. x \<notin> set (qs h) \<Longrightarrow> next_of s' x = next_of s x"
    and flags: "\<And>x. p_on_rq (k_procs s' x) = (x \<noteq> p \<and> p_on_rq (k_procs s x))"
  shows "rq_ok s' (qs(h := xs))"
proof (rule rq_ok_upd [OF ok h q])
  show "next_of s' x = next_of s x" if "k < MAX_HARTS" "k \<noteq> h" "x \<in> set (qs k)" for k x
    using links rq_okD(2) [OF ok h that(1)] that by blast
  show "set xs \<inter> set (qs k) = {}" if "k < MAX_HARTS" "k \<noteq> h" for k
    using rq_okD(2) [OF ok h that(1)] that xs by auto
  have "p \<notin> set (qs k)" if "k < MAX_HARTS" "k \<noteq> h" for k
    using rq_okD(2) [OF ok h that(1)] that p by blast
  then show "p_on_rq (k_procs s' x) \<longleftrightarrow> x \<in> queued (qs(h := xs))" for x
    using rq_okD(3) [OF ok, of x] flags [of x] xs h unfolding queued_upd [OF h] by (auto simp: queued_def)
qed (rule other)

lemma dequeue_cons:
  assumes ok: "rq_ok s qs" and h: "h < MAX_HARTS" and q: "qs h = p # xs"
  shows "fst (dequeue h s) = p" "rq_ok (snd (dequeue h s)) (qs(h := xs))"
proof -
  have qo: "q_ok s h (p # xs)" using rq_okD(1) [OF ok h] q by simp
  then have hd: "rq_head (k_rq s h) = p" "p \<noteq> 0" "p \<notin> set xs" using q_okD [OF qo] by auto
  show "fst (dequeue h s) = p" by (rule dequeue_q [OF qo])
  show "rq_ok (snd (dequeue h s)) (qs(h := xs))"
  proof (rule rq_ok_drop [OF ok h])
    show "p \<in> set (qs h)" "set xs = set (qs h) - {p}" using q hd by auto
    show "q_ok (snd (dequeue h s)) h xs" by (rule dequeue_q [OF qo])
    show "k_rq (snd (dequeue h s)) k = k_rq s k" if "k \<noteq> h" for k using that by (rule dequeue_other)
    show "next_of (snd (dequeue h s)) x = next_of s x" if "x \<notin> set (qs h)" for x
      using that hd(1) q by (intro dequeue_other) auto
    show "p_on_rq (k_procs (snd (dequeue h s)) x) = (x \<noteq> p \<and> p_on_rq (k_procs s x))" for x
      using dequeue_other(3) [of s h x] hd by simp
  qed
qed

section \<open>Removal\<close>

text \<open>The loop of \<open>remove\<close> stands at \<open>cur\<close> with \<open>ps\<close> behind it: it unlinks \<open>p\<close> from the rest.\<close>

lemma chain_split: "chain f a (xs @ ys) \<Longrightarrow> \<exists>b. chain f b ys \<and> (xs = [] \<longrightarrow> b = a) \<and> (xs \<noteq> [] \<longrightarrow> b = f (last xs))"
proof (induction xs arbitrary: a)
  case (Cons x xs)
  then show ?case by (cases xs) auto
qed simp

lemma chain_unlink:
  "chain f a (xs @ [q, p] @ ys) \<Longrightarrow> distinct (xs @ [q, p] @ ys) \<Longrightarrow> chain (f(q := f p, p := 0)) a (xs @ [q] @ ys)"
proof (induction xs arbitrary: a)
  case Nil
  then have "chain (f(q := f p, p := 0)) (f p) ys = chain f (f p) ys" by (intro chain_cong) auto
  then show ?case using Nil by (auto simp: fun_upd_def)
next
  case (Cons x xs)
  then show ?case by auto
qed

lemma remove_loop_finds:
  assumes "chain (next_of s) cur (xs @ [p] @ ys)" "p \<notin> set xs"
  shows "remove_loop h p prev cur s = remove_loop h p (if xs = [] then prev else last xs) p s"
  using assms
proof (induction xs arbitrary: prev cur)
  case (Cons x xs)
  then have "remove_loop h p prev cur s = remove_loop h p x (next_of s x) s"
    by (subst remove_loop.simps) auto
  also have "\<dots> = remove_loop h p (if xs = [] then x else last xs) p s"
    using Cons by auto
  finally show ?case by simp
qed simp

lemma rq_unlink_simps:
  "k \<noteq> h \<Longrightarrow> k_rq (rq_unlink h p prev s) k = k_rq s k"
  "rq_head (k_rq (rq_unlink h p prev s) h) = (if prev = 0 then next_of s p else rq_head (k_rq s h))"
  "rq_tail (k_rq (rq_unlink h p prev s) h) = (if rq_tail (k_rq s h) = p then prev else rq_tail (k_rq s h))"
  "rq_nr_ready (k_rq (rq_unlink h p prev s) h) = rq_nr_ready (k_rq s h) - 1"
  "prev \<noteq> p \<Longrightarrow> next_of (rq_unlink h p prev s) =
     (if prev = 0 then (next_of s)(p := 0) else (next_of s)(prev := next_of s p, p := 0))"
  "p_on_rq (k_procs (rq_unlink h p prev s) x) = (x \<noteq> p \<and> p_on_rq (k_procs s x))"
  "same_core s (rq_unlink h p prev s)"
  by (auto simp: rq_unlink_def Let_def upd_rq_def upd_proc_def same_core_def core_def fun_eq_iff)

lemma rq_unlink_q:
  assumes q: "q_ok s h (xs @ p # ys)"
  shows "q_ok (rq_unlink h p (last_or_null xs) s) h (xs @ ys)"
proof -
  have p: "p \<noteq> 0" "p \<notin> set xs" "p \<notin> set ys" "last_or_null xs \<noteq> p" "distinct (xs @ ys)"
    "xs \<noteq> [] \<Longrightarrow> last_or_null xs \<noteq> 0" "last_or_null ys = 0 \<longleftrightarrow> ys = []"
    "ys \<noteq> [] \<Longrightarrow> last ys \<noteq> p"
    using q_okD(4,5) [OF q] last_in_set [of xs] last_in_set [of ys] unfolding last_or_null_def by (auto simp del: last_in_set)
  have "chain (next_of (rq_unlink h p (last_or_null xs) s)) (rq_head (k_rq (rq_unlink h p (last_or_null xs) s) h)) (xs @ ys)"
  proof (cases xs rule: rev_cases)
    case Nil
    then have "chain (next_of s) (next_of s p) ys" using q_okD(1) [OF q] by auto
    then have "chain ((next_of s)(p := 0)) (next_of s p) ys" using p(3) by (subst chain_cong [where g = "next_of s"]) auto
    then show ?thesis using Nil p by (simp add: rq_unlink_simps last_or_null_def)
  next
    case (snoc zs z)
    then have "chain ((next_of s)(z := next_of s p, p := 0)) (rq_head (k_rq s h)) (zs @ [z] @ ys)"
      using chain_unlink [of "next_of s" "rq_head (k_rq s h)" zs z p ys] q_okD(1,4) [OF q] by simp
    then show ?thesis using snoc p(1,4,6) by (simp add: rq_unlink_simps last_or_null_def)
  qed
  moreover have "rq_tail (k_rq (rq_unlink h p (last_or_null xs) s) h) = last_or_null (xs @ ys)"
    using q_okD(2) [OF q] p by (auto simp: rq_unlink_simps last_or_null_def)
  ultimately show ?thesis
    using q_okD(3) [OF q] p by (simp add: q_ok_def rq_unlink_simps)
qed

lemma remove_ok:
  assumes ok: "rq_ok s qs" and h: "h < MAX_HARTS" and p: "p \<in> set (qs h)"
  shows "\<exists>s'. rq_remove h p s = Some (True, s') \<and> rq_ok s' (qs(h := remove1 p (qs h))) \<and> same_core s s'"
proof -
  obtain xs ys where q: "qs h = xs @ p # ys" and nx: "p \<notin> set xs" using split_list_first [OF p] by auto
  let ?s = "rq_unlink h p (last_or_null xs) s"
  have qo: "q_ok s h (xs @ p # ys)" using rq_okD(1) [OF ok h] q by simp
  have p0: "p \<noteq> 0" and ny: "p \<notin> set ys" using q_okD(4,5) [OF qo] by auto
  have on: "p_on_rq (k_procs s p)" using rq_okD(3) [OF ok] p h by (auto simp: queued_def)
  have "rq_remove h p s = Some (True, ?s)"
    using on remove_loop_finds [of s "rq_head (k_rq s h)" xs p ys h 0] q_okD(1) [OF qo] nx p0 remove_loop.simps [of h p "last_or_null xs" p s]
    by (simp add: rq_remove_def last_or_null_def)
  moreover have "rq_ok ?s (qs(h := xs @ ys))"
  proof (rule rq_ok_drop [OF ok h p])
    show "set (xs @ ys) = set (qs h) - {p}" using q nx ny by auto
    show "q_ok ?s h (xs @ ys)" by (rule rq_unlink_q [OF qo])
    show "k_rq ?s k = k_rq s k" if "k \<noteq> h" for k using that by (rule rq_unlink_simps(1))
    have l: "last_or_null xs \<noteq> p" "last_or_null xs = 0 \<or> last_or_null xs \<in> set (qs h)"
      using p0 nx q last_in_set [of xs] by (auto simp: last_or_null_def simp del: last_in_set)
    show "next_of ?s x = next_of s x" if "x \<notin> set (qs h)" for x
      using rq_unlink_simps(5) [OF l(1), of h s] l(2) p that by (auto simp: fun_eq_iff)
    show "p_on_rq (k_procs ?s x) = (x \<noteq> p \<and> p_on_rq (k_procs s x))" for x by (rule rq_unlink_simps(6))
  qed
  ultimately show ?thesis using q nx rq_unlink_simps(7) by (auto simp: remove1_append)
qed

lemma remove_loop_absent:
  "chain (next_of s) cur xs \<Longrightarrow> p \<notin> set xs \<Longrightarrow> remove_loop h p prev cur s = Some (False, s)"
proof (induction xs arbitrary: prev cur)
  case Nil
  then show ?case by (subst remove_loop.simps) simp
next
  case (Cons x xs)
  then show ?case by (subst remove_loop.simps) auto
qed

lemma remove_absent:
  assumes "rq_ok s qs" "h < MAX_HARTS" "p \<notin> set (qs h)"
  shows "rq_remove h p s = Some (False, s)"
  using remove_loop_absent [OF q_okD(1) [OF rq_okD(1) [OF assms(1,2)]] assms(3)] by (simp add: rq_remove_def)

section \<open>The interface of the scheduler\<close>

fun deqs :: "(nat \<Rightarrow> 's \<Rightarrow> 'p \<times> 's) \<Rightarrow> nat \<Rightarrow> nat \<Rightarrow> 's \<Rightarrow> 'p list \<times> 's" where
  "deqs deq h 0 s = ([], s)"
| "deqs deq h (Suc n) s = (let (p, s) = deq h s; (ps, s) = deqs deq h n s in (p # ps, s))"

text \<open>A family of first-in first-out queues over a state: \<open>rep\<close> relates the state to the lists.\<close>

locale fifo_queues =
  fixes rep :: "'s \<Rightarrow> (nat \<Rightarrow> 'p list) \<Rightarrow> bool"
    and enq :: "nat \<Rightarrow> 'p \<Rightarrow> 's \<Rightarrow> 's"
    and deq :: "nat \<Rightarrow> 's \<Rightarrow> 'p \<times> 's"
    and null :: 'p
    and harts :: nat
  assumes enq_fresh: "\<lbrakk>rep s qs; h < harts; p \<noteq> null; p \<notin> (\<Union>k<harts. set (qs k))\<rbrakk>
      \<Longrightarrow> rep (enq h p s) (qs(h := qs h @ [p]))"
    and enq_again: "\<lbrakk>rep s qs; p \<in> (\<Union>k<harts. set (qs k))\<rbrakk> \<Longrightarrow> enq h p s = s"
    and deq_empty: "\<lbrakk>rep s qs; h < harts; qs h = []\<rbrakk> \<Longrightarrow> deq h s = (null, s)"
    and deq_first: "\<lbrakk>rep s qs; h < harts; qs h = p # ps\<rbrakk>
      \<Longrightarrow> fst (deq h s) = p \<and> rep (snd (deq h s)) (qs(h := ps))"
begin

lemma enq_total:
  "\<lbrakk>rep s qs; h < harts; p \<noteq> null\<rbrakk>
    \<Longrightarrow> rep (enq h p s) (if p \<in> (\<Union>k<harts. set (qs k)) then qs else qs(h := qs h @ [p]))"
  using enq_fresh [of s qs h p] enq_again [of s qs p h] by simp

lemma deq_total:
  assumes "rep s qs" "h < harts"
  shows "fst (deq h s) = (if qs h = [] then null else hd (qs h))" "rep (snd (deq h s)) (qs(h := tl (qs h)))"
  using deq_empty [OF assms] deq_first [OF assms] assms
  by (cases "qs h"; simp add: fun_upd_idem)+

lemma enq_all:
  assumes "rep s qs" "h < harts" "distinct ps" "null \<notin> set ps" "set ps \<inter> (\<Union>k<harts. set (qs k)) = {}"
  shows "rep (fold (enq h) ps s) (qs(h := qs h @ ps))"
  using assms
proof (induction ps arbitrary: s qs)
  case (Cons p ps)
  have "rep (enq h p s) (qs(h := qs h @ [p]))"
    using Cons.prems by (intro enq_fresh) auto
  moreover have "\<forall>x\<in>set ps. \<forall>k<harts. x \<notin> set (qs k)" using Cons.prems(5) by auto
  then have "set ps \<inter> (\<Union>k<harts. set ((qs(h := qs h @ [p])) k)) = {}"
    using Cons.prems(2,3) by (auto split: if_splits)
  ultimately show ?case
    using Cons.IH [of "enq h p s" "qs(h := qs h @ [p])"] Cons.prems by (simp add: fun_upd_def cong: if_cong)
qed (simp add: fun_upd_idem)

lemma deqs_take:
  assumes "rep s qs" "h < harts" "n \<le> length (qs h)"
  shows "fst (deqs deq h n s) = take n (qs h)" "rep (snd (deqs deq h n s)) (qs(h := drop n (qs h)))"
  using assms
proof (induction n arbitrary: s qs)
  case (Suc n)
  {
    case 1
    then obtain p ps where q: "qs h = p # ps" by (cases "qs h") auto
    show ?case using deq_first [OF 1(1,2) q] Suc.IH(1) [OF conjunct2 [OF deq_first [OF 1(1,2) q]]] 1 q
      by (simp add: case_prod_beta fun_upd_def cong: if_cong)
  next
    case 2
    then obtain p ps where q: "qs h = p # ps" by (cases "qs h") auto
    show ?case using deq_first [OF 2(1,2) q] Suc.IH(2) [OF conjunct2 [OF deq_first [OF 2(1,2) q]]] 2 q
      by (simp add: case_prod_beta fun_upd_def cong: if_cong)
  }
qed (simp_all add: fun_upd_idem)

lemma served_in_order:
  assumes "rep s qs" "h < harts" "distinct ps" "null \<notin> set ps" "set ps \<inter> (\<Union>k<harts. set (qs k)) = {}"
  shows "fst (deqs deq h (length (qs h @ ps)) (fold (enq h) ps s)) = qs h @ ps"
  using deqs_take(1) [OF enq_all [OF assms] assms(2), of "length (qs h @ ps)"] by simp

end

interpretation rqs: fifo_queues rq_ok enqueue dequeue 0 MAX_HARTS
proof unfold_locales
  show "rq_ok (enqueue h p s) (qs(h := qs h @ [p]))"
    if "rq_ok s qs" "h < MAX_HARTS" "p \<noteq> 0" "p \<notin> (\<Union>k<MAX_HARTS. set (qs k))" for s qs h p
    using enqueue_ok that by (simp add: queued_def)
  show "enqueue h p s = s" if "rq_ok s qs" "p \<in> (\<Union>k<MAX_HARTS. set (qs k))" for s qs h p
    using enqueue_queued that by (simp add: queued_def)
  show "dequeue h s = (0, s)" if "rq_ok s qs" "h < MAX_HARTS" "qs h = []" for s qs h
    using that by (rule dequeue_nil)
  show "fst (dequeue h s) = p \<and> rq_ok (snd (dequeue h s)) (qs(h := ps))"
    if "rq_ok s qs" "h < MAX_HARTS" "qs h = p # ps" for s qs h p ps
    using dequeue_cons that by blast
qed

text \<open>C9: The eight pointer-based run queues refine first-in first-out lists. In every state whose queues
  represent the lists \<open>qs\<close>: \<open>enqueue\<close> appends a process at the end of the hart's list and does nothing to one that is
  already queued anywhere; \<open>dequeue\<close> returns the first process of the list, null when there is none, and
  leaves the rest; \<open>remove\<close> always returns, tells whether the process was in that queue and deletes exactly it;
  and processes enqueued one after another are dequeued in that order, after those already waiting.\<close>

theorem runqueue_refines_fifo:
  assumes "rq_ok s qs" "h < MAX_HARTS"
  shows "(\<forall>p. p \<noteq> 0 \<longrightarrow> rq_ok (enqueue h p s) (if p \<in> queued qs then qs else qs(h := qs h @ [p])))
    \<and> fst (dequeue h s) = (if qs h = [] then 0 else hd (qs h))
    \<and> rq_ok (snd (dequeue h s)) (qs(h := tl (qs h)))
    \<and> (\<forall>p. \<exists>s'. rq_remove h p s = Some (p \<in> set (qs h), s') \<and> rq_ok s' (qs(h := remove1 p (qs h))))
    \<and> (\<forall>ps. distinct ps \<and> 0 \<notin> set ps \<and> set ps \<inter> queued qs = {} \<longrightarrow>
          fst (deqs dequeue h (length (qs h @ ps)) (fold (enqueue h) ps s)) = qs h @ ps)"
proof (intro conjI allI impI)
  show "rq_ok (enqueue h p s) (if p \<in> queued qs then qs else qs(h := qs h @ [p]))" if "p \<noteq> 0" for p
    using rqs.enq_total [OF assms that] by (simp add: queued_def)
  show "\<exists>s'. rq_remove h p s = Some (p \<in> set (qs h), s') \<and> rq_ok s' (qs(h := remove1 p (qs h)))" for p
    using remove_ok [OF assms, of p] remove_absent [OF assms, of p] assms(1)
    by (cases "p \<in> set (qs h)") (auto simp: remove1_idem fun_upd_idem)
  show "fst (deqs dequeue h (length (qs h @ ps)) (fold (enqueue h) ps s)) = qs h @ ps"
    if "distinct ps \<and> 0 \<notin> set ps \<and> set ps \<inter> queued qs = {}" for ps
    using rqs.served_in_order [OF assms] that by (simp add: queued_def)
qed (rule rqs.deq_total [OF assms])+

text \<open>A booted kernel with no process, and one with three runnable processes.\<close>

definition kst0 :: kst where
  "kst0 = \<lparr>k_procs = (\<lambda>_. new_proc), k_all = 0, k_hart_current = (\<lambda>_. 0), k_idle_tf = (\<lambda>_. zero_frame),
     k_need_resched = (\<lambda>_. False), k_current = 0, k_next_pid = PROC_PID_INIT,
     k_rq = (\<lambda>_. \<lparr>rq_locked = False, rq_head = 0, rq_tail = 0, rq_nr_ready = 0\<rparr>),
     k_kernel_fds = replicate 16 default_fd, k_mm = board\<rparr>"

lemma kst0_ok: "rq_ok kst0 (\<lambda>_. [])"
  by (simp add: rq_ok_def q_ok_def kst0_def last_or_null_def new_proc_def queued_def)

lemma kst0_queue: "rq_ok (fold (enqueue 0) [0x1000, 0x2000, 0x3000] kst0) ((\<lambda>_. [])(0 := [0x1000, 0x2000, 0x3000]))"
  using rqs.enq_all [OF kst0_ok, of 0 "[0x1000, 0x2000, 0x3000]"] by (simp add: MAX_HARTS_def)

theorem runqueue_refines_fifo_witness:
  "fst (dequeue 0 (fold (enqueue 0) [0x1000, 0x2000, 0x3000] kst0)) = 0x1000"
  using runqueue_refines_fifo [OF kst0_queue, of 0] by (simp add: MAX_HARTS_def)

end
