(* ===== verification/Sched.thy ===== *)
theory Sched
  imports Run_Queue
begin

text \<open>
  The scheduler of \<open>proc/scheduler/sched.rs\<close>: the timer tick, stealing work from the other harts, and
  \<open>sched_yield\<close>. \<open>sched_switch\<close> loads the trap frame at its argument and returns to user mode, so it ends
  the call; an outcome says whether the call returned, switched to a frame, halted or panicked (the
  index \<open>G_RQ[affinity]\<close> out of range). Between two calls the scheduler keeps the invariant \<open>sched_ok\<close> and
  neither loses nor duplicates a runnable process.
\<close>

datatype sched_out = SchedReturns | SwitchTo trap_frame | SchedHalts | SchedPanics

definition set_need_resched :: "nat \<Rightarrow> bool \<Rightarrow> kst \<Rightarrow> kst" where
  "set_need_resched h v s = (if h < MAX_HARTS then s\<lparr>k_need_resched := (k_need_resched s)(h := v)\<rparr> else s)"

definition sched_tick :: "nat \<Rightarrow> kst \<Rightarrow> kst" where
  "sched_tick h s =
     (let cur = current_for_hart h s in
      if cur \<noteq> 0 \<and> p_state (k_procs s cur) \<noteq> PFree
      then s\<lparr>k_need_resched := (k_need_resched s)(h := True)\<rparr> else s)"

definition is_idle :: "nat \<Rightarrow> kst \<Rightarrow> bool" where
  "is_idle h s \<longleftrightarrow> current_for_hart h s = 0"

text \<open>\<open>affinity >= 0 && affinity as usize != hartid\<close>\<close>

definition pinned_elsewhere :: "nat \<Rightarrow> proc \<Rightarrow> bool" where
  "pinned_elsewhere h x \<longleftrightarrow> 0 \<le> sint (p_affinity x) \<and> nat (sint (p_affinity x)) \<noteq> h"

fun steal_from :: "nat \<Rightarrow> nat list \<Rightarrow> kst \<Rightarrow> ptr \<times> kst" where
  "steal_from h [] s = (0, s)"
| "steal_from h (i # is) s =
     (let victim = (h + i) mod MAX_HARTS in
      if victim = h then steal_from h is s
      else if rq_locked (k_rq s victim) then steal_from h is s
      else
        let (p, s) = dequeue victim (rq_lock victim s);
            s = rq_unlock victim s
        in if p \<noteq> 0 then
             if pinned_elsewhere h (k_procs s p) then steal_from h is (enqueue victim p s) else (p, s)
           else steal_from h is s)"

definition steal :: "nat \<Rightarrow> kst \<Rightarrow> ptr \<times> kst" where
  "steal h s = steal_from h [1..<MAX_HARTS] s"

text \<open>The end of \<open>sched_yield\<close>, from the second test of \<open>next\<close> on.\<close>

definition sched_finish :: "nat \<Rightarrow> ptr \<Rightarrow> ptr \<Rightarrow> kst \<Rightarrow> sched_out \<times> kst" where
  "sched_finish h cur nxt s =
     (if nxt = 0 then
        if cur = 0 then (SchedReturns, set_need_resched h False (rq_unlock h s))
        else if p_state (k_procs s cur) = PExited then
          let s = set_need_resched h False (rq_unlock h (set_current_for_hart h 0 s)) in
          if h = 0 then (SchedHalts, s) else (SwitchTo (k_idle_tf s h), s)
        else
          (SchedReturns,
           set_need_resched h False (rq_unlock h (upd_proc cur (\<lambda>x. x\<lparr>p_state := PRunning\<rparr>) s)))
      else
        let s = upd_proc nxt (\<lambda>x. x\<lparr>p_state := PRunning\<rparr>) s;
            s = set_need_resched h False (rq_unlock h (set_current_for_hart h nxt s));
            s = upd_proc nxt (\<lambda>x. x\<lparr>p_kstack_tf := p_tf x\<rparr>) s
        in (SwitchTo (p_tf (k_procs s nxt)), s))"

definition sched_save :: "nat \<Rightarrow> ptr \<Rightarrow> trap_frame \<Rightarrow> kst \<Rightarrow> kst" where
  "sched_save h cur tf s =
     (if cur = 0 then s\<lparr>k_idle_tf := (k_idle_tf s)(h := tf)\<rparr>
      else
        let s = upd_proc cur (\<lambda>x. x\<lparr>p_tf := tf\<rparr>) s in
        if p_state (k_procs s cur) = PRunning
        then enqueue h cur (upd_proc cur (\<lambda>x. x\<lparr>p_state := PReady\<rparr>) s) else s)"

text \<open>Lines 74 to 88: the own queue is empty, so try to steal, then look once more.\<close>

definition sched_steal :: "nat \<Rightarrow> ptr \<Rightarrow> kst \<Rightarrow> sched_out \<times> kst" where
  "sched_steal h cur s =
     (let (stolen, s) = steal h (rq_unlock h s) in
      if stolen \<noteq> 0 then
        let s = upd_proc stolen (\<lambda>x. x\<lparr>p_state := PRunning\<rparr>) s;
            s = set_need_resched h False (set_current_for_hart h stolen s);
            s = upd_proc stolen (\<lambda>x. x\<lparr>p_kstack_tf := p_tf x\<rparr>) s
        in (SwitchTo (p_tf (k_procs s stolen)), s)
      else let (nxt, s) = dequeue h (rq_lock h s) in sched_finish h cur nxt s)"

definition sched_yield :: "nat \<Rightarrow> trap_frame \<Rightarrow> kst \<Rightarrow> sched_out \<times> kst" where
  "sched_yield h tf s =
     (let cur = current_for_hart h s;
          s = sched_save h cur tf (rq_lock h s);
          (nxt, s) = dequeue h s;
          moves = (nxt \<noteq> 0 \<and> pinned_elsewhere h (k_procs s nxt));
          target = nat (sint (p_affinity (k_procs s nxt)))
      in if moves \<and> MAX_HARTS \<le> target then (SchedPanics, s)
         else
           let (nxt, s) = (if moves then dequeue h (enqueue target nxt s) else (nxt, s)) in
           if nxt = 0 then sched_steal h cur s else sched_finish h cur nxt s)"

section \<open>The invariant\<close>

definition fits :: "proc \<Rightarrow> bool" where
  "fits x \<longleftrightarrow> sint (p_affinity x) < int MAX_HARTS"

definition sched_ok :: "kst \<Rightarrow> (nat \<Rightarrow> ptr list) \<Rightarrow> bool" where
  "sched_ok s qs \<longleftrightarrow> rq_ok s qs
     \<and> (\<forall>p\<in>queued qs. p_state (k_procs s p) = PReady \<and> fits (k_procs s p))
     \<and> (\<forall>k<MAX_HARTS. k_hart_current s k \<noteq> 0 \<longrightarrow> k_hart_current s k \<notin> queued qs \<and> fits (k_procs s (k_hart_current s k)))
     \<and> inj_on (k_hart_current s) {k. k < MAX_HARTS \<and> k_hart_current s k \<noteq> 0}"

text \<open>The runnable processes: those in a queue and those running on a hart.\<close>

definition live :: "kst \<Rightarrow> (nat \<Rightarrow> ptr list) \<Rightarrow> ptr set" where
  "live s qs = queued qs \<union>
     {p. p \<noteq> 0 \<and> p \<in> k_hart_current s ` {..<MAX_HARTS} \<and> p_state (k_procs s p) = PRunning}"

text \<open>Inside a call on hart \<open>h\<close>, when its current process may be queued again.\<close>

definition mid_ok :: "nat \<Rightarrow> kst \<Rightarrow> (nat \<Rightarrow> ptr list) \<Rightarrow> bool" where
  "mid_ok h s qs \<longleftrightarrow> rq_ok s qs
     \<and> (\<forall>p\<in>queued qs. p_state (k_procs s p) = PReady \<and> fits (k_procs s p))
     \<and> (\<forall>k<MAX_HARTS. k \<noteq> h \<and> k_hart_current s k \<noteq> 0 \<longrightarrow>
          k_hart_current s k \<notin> queued qs \<and> k_hart_current s k \<noteq> k_hart_current s h \<and> fits (k_procs s (k_hart_current s k)))
     \<and> inj_on (k_hart_current s) {k. k < MAX_HARTS \<and> k \<noteq> h \<and> k_hart_current s k \<noteq> 0}"

definition holds :: "nat \<Rightarrow> ptr \<Rightarrow> kst \<Rightarrow> (nat \<Rightarrow> ptr list) \<Rightarrow> bool" where
  "holds h p s qs \<longleftrightarrow> mid_ok h s qs \<and> p \<noteq> 0 \<and> p \<notin> queued qs \<and> p_state (k_procs s p) = PReady
     \<and> fits (k_procs s p) \<and> (\<forall>k<MAX_HARTS. k \<noteq> h \<longrightarrow> k_hart_current s k \<noteq> p)"

lemma same_core_fits: "same_core s s' \<Longrightarrow> fits (k_procs s' p) = fits (k_procs s p)"
  by (simp add: fits_def same_core_proc)

lemma mid_ok_core:
  assumes "mid_ok h s qs" "same_core s s'" "rq_ok s' qs'" "queued qs' \<subseteq> queued qs"
  shows "mid_ok h s' qs'"
proof -
  note c = same_core_proc(2,7) [OF assms(2)] same_core_fits [OF assms(2)]
  show ?thesis unfolding mid_ok_def c
    using assms(1,3,4) unfolding mid_ok_def by blast
qed

lemma queued_iff: "p \<in> queued qs \<longleftrightarrow> (\<exists>k<MAX_HARTS. p \<in> set (qs k))"
  by (auto simp: queued_def)

lemma queued_cons:
  assumes "rq_ok s qs" "k < MAX_HARTS" "qs k = p # ps"
  shows "p \<notin> queued (qs(k := ps))" "insert p (queued (qs(k := ps))) = queued qs"
proof -
  have "p \<notin> set ps" "j < MAX_HARTS \<Longrightarrow> j \<noteq> k \<Longrightarrow> p \<notin> set (qs j)" for j
    using q_okD(4) [OF rq_okD(1) [OF assms(1,2)]] rq_okD(2) [OF assms(1,2), of j] assms(3) by auto
  then show "p \<notin> queued (qs(k := ps))" using assms(2) by (auto simp: queued_upd)
  show "insert p (queued (qs(k := ps))) = queued qs"
    using assms(2,3) by (auto simp: set_eq_iff queued_iff) (metis set_ConsD)
qed

lemma queued_snoc: "k < MAX_HARTS \<Longrightarrow> queued (qs(k := qs k @ [p])) = insert p (queued qs)"
  by (auto simp: queued_def split: if_splits)

lemma deq_mid:
  assumes ok: "mid_ok h s qs" and k: "k < MAX_HARTS" and q: "qs k = p # ps"
  shows "fst (dequeue k s) = p" "holds h p (snd (dequeue k s)) (qs(k := ps))"
proof -
  have rq: "rq_ok s qs" using ok by (simp add: mid_ok_def)
  note d = dequeue_cons [OF rq k q]
  have m: "mid_ok h (snd (dequeue k s)) (qs(k := ps))"
    using mid_ok_core [OF ok dequeue_core d(2)] queued_cons [OF rq k q] by auto
  have p: "p \<in> queued qs" "p \<noteq> 0" using q k q_okD(5) [OF rq_okD(1) [OF rq k]] by (auto simp: queued_iff intro!: exI [of _ k])
  show "fst (dequeue k s) = p" by (rule d)
  show "holds h p (snd (dequeue k s)) (qs(k := ps))"
    using m p ok queued_cons(1) [OF rq k q]
    unfolding holds_def same_core_proc(2,7) [OF dequeue_core] same_core_fits [OF dequeue_core] mid_ok_def [of h s]
    by auto
qed

lemma enq_mid:
  assumes "holds h p s qs" "k < MAX_HARTS"
  shows "mid_ok h (enqueue k p s) (qs(k := qs k @ [p]))"
proof -
  have ok: "mid_ok h s qs" and p: "p \<noteq> 0" "p \<notin> queued qs" using assms(1) by (auto simp: holds_def)
  then have rq: "rq_ok (enqueue k p s) (qs(k := qs k @ [p]))"
    using assms(2) by (intro enqueue_ok) (auto simp: mid_ok_def)
  then show ?thesis
    using assms same_core_proc [OF enqueue_core, of k p s] same_core_fits [OF enqueue_core, of k p s]
    unfolding mid_ok_def holds_def queued_snoc [OF assms(2)] by simp
qed

section \<open>Stealing\<close>

text \<open>States that differ only in what the queues do not look at.\<close>

definition same_queues :: "kst \<Rightarrow> kst \<Rightarrow> bool" where
  "same_queues s s' \<longleftrightarrow> (\<forall>p. next_of s' p = next_of s p \<and> p_on_rq (k_procs s' p) = p_on_rq (k_procs s p))
     \<and> (\<forall>k. rq_head (k_rq s' k) = rq_head (k_rq s k) \<and> rq_tail (k_rq s' k) = rq_tail (k_rq s k)
          \<and> rq_nr_ready (k_rq s' k) = rq_nr_ready (k_rq s k))"

lemma same_queues_ok:
  assumes "same_queues s s'"
  shows "rq_ok s' qs = rq_ok s qs"
proof -
  have "next_of s' = next_of s" using assms by (auto simp: same_queues_def)
  then show ?thesis using assms by (simp add: rq_ok_def q_ok_def same_queues_def)
qed

lemma lock_simps [simp]:
  "k_procs (rq_lock h s) = k_procs s" "k_procs (rq_unlock h s) = k_procs s"
  "k_hart_current (rq_lock h s) = k_hart_current s" "k_hart_current (rq_unlock h s) = k_hart_current s"
  "k_all (rq_lock h s) = k_all s" "k_all (rq_unlock h s) = k_all s"
  "k_idle_tf (rq_lock h s) = k_idle_tf s" "k_idle_tf (rq_unlock h s) = k_idle_tf s"
  "rq_locked (k_rq (rq_unlock h s) k) = (k \<noteq> h \<and> rq_locked (k_rq s k))"
  "rq_locked (k_rq (rq_lock h s) k) = (k = h \<or> rq_locked (k_rq s k))"
  by (auto simp: rq_lock_def rq_unlock_def upd_rq_def)

lemma lock_ok [simp]:
  "rq_ok (rq_lock h s) qs = rq_ok s qs" "rq_ok (rq_unlock h s) qs = rq_ok s qs"
  by (rule same_queues_ok; simp add: same_queues_def rq_lock_def rq_unlock_def upd_rq_def)+

lemma lock_mid [simp]:
  "mid_ok j (rq_lock h s) qs = mid_ok j s qs" "mid_ok j (rq_unlock h s) qs = mid_ok j s qs"
  "holds j p (rq_lock h s) qs = holds j p s qs" "holds j p (rq_unlock h s) qs = holds j p s qs"
  by (simp_all add: mid_ok_def holds_def)

lemma steal_one:
  assumes ok: "mid_ok h s qs" and v: "v < MAX_HARTS" and free: "\<not> rq_locked (k_rq s v)"
  defines "t \<equiv> rq_unlock v (snd (dequeue v (rq_lock v s)))"
  shows "same_core s t"
    and "qs v = [] \<Longrightarrow> fst (dequeue v (rq_lock v s)) = 0 \<and> mid_ok h t qs"
    and "qs v = p # ps \<Longrightarrow> fst (dequeue v (rq_lock v s)) = p \<and> holds h p t (qs(v := ps))"
proof -
  have ok': "mid_ok h (rq_lock v s) qs" using ok by simp
  have "same_core (rq_lock v s) (snd (dequeue v (rq_lock v s)))" by simp
  then show "same_core s t"
    using free unfolding t_def same_core_def by auto
  show "fst (dequeue v (rq_lock v s)) = 0 \<and> mid_ok h t qs" if "qs v = []"
    using dequeue_nil [of "rq_lock v s" qs v] ok v that by (simp add: t_def mid_ok_def)
  show "fst (dequeue v (rq_lock v s)) = p \<and> holds h p t (qs(v := ps))" if "qs v = p # ps"
    using deq_mid [OF ok' v that] by (simp add: t_def)
qed

definition steal_post :: "nat \<Rightarrow> kst \<Rightarrow> (nat \<Rightarrow> ptr list) \<Rightarrow> ptr \<times> kst \<Rightarrow> bool" where
  "steal_post h s qs r \<longleftrightarrow> same_core s (snd r) \<and>
     (\<exists>qs'. if fst r = 0 then mid_ok h (snd r) qs' \<and> queued qs' = queued qs
        else holds h (fst r) (snd r) qs' \<and> insert (fst r) (queued qs') = queued qs)"

lemma steal_post_trans:
  assumes "same_core s t" "queued qs' = queued qs" "steal_post h t qs' r"
  shows "steal_post h s qs r"
  using assms(3) same_core_trans [OF assms(1)] unfolding steal_post_def assms(2) by blast

lemma steal_from_mid:
  assumes "mid_ok h s qs" "h < MAX_HARTS"
  shows "steal_post h s qs (steal_from h is s)"
  using assms(1)
proof (induction "is" arbitrary: s qs)
  case Nil
  then show ?case by (auto simp: steal_post_def)
next
  case (Cons i "is")
  let ?v = "(h + i) mod MAX_HARTS" let ?t = "rq_unlock ?v (snd (dequeue ?v (rq_lock ?v s)))"
  have v: "?v < MAX_HARTS" by (simp add: MAX_HARTS_def)
  consider "?v = h \<or> rq_locked (k_rq s ?v)" | "?v \<noteq> h" "\<not> rq_locked (k_rq s ?v)" "qs ?v = []"
    | p ps where "?v \<noteq> h" "\<not> rq_locked (k_rq s ?v)" "qs ?v = p # ps" by (cases "qs ?v") auto
  then show ?case
  proof cases
    case 1
    then have e: "steal_from h (i # is) s = steal_from h is s" by (auto simp: Let_def)
    show ?thesis unfolding e by (rule Cons.IH [OF Cons.prems])
  next
    case 2
    note o = steal_one [OF Cons.prems v 2(2)]
    have e: "steal_from h (i # is) s = steal_from h is ?t" using 2 o(2) by (simp add: Let_def case_prod_beta)
    show ?thesis unfolding e by (rule steal_post_trans [OF o(1) refl Cons.IH]) (use o(2) [OF 2(3)] in blast)
  next
    case 3
    note o = steal_one [OF Cons.prems v 3(2)]
    have rq: "rq_ok s qs" using Cons.prems by (simp add: mid_ok_def)
    have h: "holds h p ?t (qs(?v := ps))" "p \<noteq> 0" using o(3) [OF 3(3)] by (auto simp: holds_def)
    have q: "insert p (queued (qs(?v := ps))) = queued qs" using queued_cons [OF rq v 3(3)] by simp
    show ?thesis
    proof (cases "pinned_elsewhere h (k_procs ?t p)")
      case False
      then have "steal_from h (i # is) s = (p, ?t)" using 3 o(3) h(2) by (simp add: Let_def case_prod_beta)
      then show ?thesis using h q o(1) by (auto simp: steal_post_def simp del: lock_mid)
    next
      case True
      let ?u = "enqueue ?v p ?t" let ?qs = "(qs(?v := ps))(?v := (qs(?v := ps)) ?v @ [p])"
      have e: "steal_from h (i # is) s = steal_from h is ?u" using True 3 o(3) h(2) by (simp add: Let_def case_prod_beta)
      have q': "queued ?qs = queued qs" using q queued_snoc [OF v, of "qs(?v := ps)" p] by simp
      show ?thesis unfolding e
        by (rule steal_post_trans [OF same_core_trans [OF o(1) enqueue_core] q' Cons.IH [OF enq_mid [OF h(1) v]]])
    qed
  qed
qed

section \<open>Dispatching\<close>

definition mlive :: "nat \<Rightarrow> kst \<Rightarrow> (nat \<Rightarrow> ptr list) \<Rightarrow> ptr set" where
  "mlive h s qs = queued qs \<union>
     {p. p \<noteq> 0 \<and> p \<in> k_hart_current s ` {k. k < MAX_HARTS \<and> k \<noteq> h} \<and> p_state (k_procs s p) = PRunning}"

lemma mlive_core: "same_core s s' \<Longrightarrow> queued qs' = queued qs \<Longrightarrow> mlive h s' qs' = mlive h s qs"
  by (simp add: mlive_def same_core_proc)

text \<open>Hart \<open>h\<close> makes \<open>p\<close>, just taken from a queue, its current process.\<close>

lemma dispatch_ok:
  assumes p: "holds h p s qs" and h: "h < MAX_HARTS" and q: "same_queues s s'"
    and cur: "k_hart_current s' = (k_hart_current s)(h := p)"
    and pr: "k_procs s' = (k_procs s)(p := (k_procs s p)\<lparr>p_state := PRunning, p_kstack_tf := p_tf (k_procs s p)\<rparr>)"
  shows "sched_ok s' qs" "live s' qs = insert p (mlive h s qs)"
proof -
  have m: "mid_ok h s qs" and pp: "p \<noteq> 0" "p \<notin> queued qs" "fits (k_procs s p)"
    "\<And>k. k < MAX_HARTS \<Longrightarrow> k \<noteq> h \<Longrightarrow> k_hart_current s k \<noteq> p"
    using p by (auto simp: holds_def)
  have "rq_ok s' qs" using same_queues_ok [OF q] m by (simp add: mid_ok_def)
  moreover have "inj_on (k_hart_current s') {k. k < MAX_HARTS \<and> k_hart_current s' k \<noteq> 0}"
    using m pp(4) unfolding mid_ok_def cur inj_on_def by (auto split: if_splits)
  moreover have "fits (k_procs s' x) = fits (k_procs s x)" for x by (simp add: pr fits_def)
  moreover have "\<forall>x\<in>queued qs. p_state (k_procs s' x) = PReady" using m pp(2) by (auto simp: pr mid_ok_def)
  ultimately show "sched_ok s' qs"
    using m pp h unfolding sched_ok_def mid_ok_def cur by (auto split: if_splits)
  show "live s' qs = insert p (mlive h s qs)"
    using pp h unfolding live_def mlive_def cur pr by (auto simp: image_iff)
qed

lemma mid_ok_frame:
  assumes "mid_ok h s qs" "same_queues s s'" "k_hart_current s' = k_hart_current s"
    and "\<And>p. p \<in> queued qs \<or> p \<in> k_hart_current s ` {k. k < MAX_HARTS \<and> k \<noteq> h} \<Longrightarrow>
      p_state (k_procs s' p) = p_state (k_procs s p) \<and> fits (k_procs s' p) = fits (k_procs s p)"
  shows "mid_ok h s' qs"
  using assms same_queues_ok [OF assms(2), of qs] unfolding mid_ok_def by auto

text \<open>What \<open>sched_yield\<close> on hart \<open>h\<close> promises: \<open>live\<close> processes are kept, the run queue is unlocked, and a
  switch loads the frame of the new current process, which runs.\<close>

definition sched_post :: "nat \<Rightarrow> ptr \<Rightarrow> ptr set \<Rightarrow> sched_out \<times> kst \<Rightarrow> bool" where
  "sched_post h cur l r \<longleftrightarrow> fst r \<noteq> SchedPanics \<and>
     (\<exists>qs. sched_ok (snd r) qs
        \<and> live (snd r) qs = l \<union> (if fst r = SchedReturns then {cur} - {0} else {}))
     \<and> \<not> rq_locked (k_rq (snd r) h)
     \<and> (\<forall>f. fst r = SwitchTo f \<longrightarrow>
          (let c = k_hart_current (snd r) h; x = k_procs (snd r) c in
           if c = 0 then f = k_idle_tf (snd r) h
           else p_state x = PRunning \<and> p_tf x = f \<and> p_kstack_tf x = f))"

lemma finish_facts:
  assumes "p \<noteq> 0" "h < MAX_HARTS" and r_def: "r = sched_finish h cur p s"
  shows "same_queues s (snd r)" "k_hart_current (snd r) = (k_hart_current s)(h := p)"
    "k_procs (snd r) = (k_procs s)(p := (k_procs s p)\<lparr>p_state := PRunning, p_kstack_tf := p_tf (k_procs s p)\<rparr>)"
    "\<not> rq_locked (k_rq (snd r) h)" "fst r = SwitchTo (p_tf (k_procs s p))" "k_idle_tf (snd r) = k_idle_tf s"
  using assms by (auto simp: r_def sched_finish_def Let_def rq_unlock_def upd_rq_def upd_proc_def
      set_need_resched_def set_current_for_hart_def same_queues_def)

lemma finish_next:
  assumes p: "holds h p s qs" and h: "h < MAX_HARTS"
  shows "sched_post h cur (insert p (mlive h s qs)) (sched_finish h cur p s)"
proof -
  have p0: "p \<noteq> 0" using p by (simp add: holds_def)
  note f = finish_facts [OF p0 h refl, where s = s and cur = cur]
  show ?thesis
    using dispatch_ok [OF p h f(1-3)] p0 f by (auto simp: sched_post_def Let_def)
qed

lemma mid_inj:
  assumes "mid_ok h s qs"
  shows "inj_on (k_hart_current s) {k. k < MAX_HARTS \<and> k_hart_current s k \<noteq> 0}"
proof (rule inj_onI)
  fix x y
  assume a: "x \<in> {k. k < MAX_HARTS \<and> k_hart_current s k \<noteq> 0}" "y \<in> {k. k < MAX_HARTS \<and> k_hart_current s k \<noteq> 0}"
    "k_hart_current s x = k_hart_current s y"
  then have "x = h \<longleftrightarrow> y = h" using assms unfolding mid_ok_def by (metis (mono_tags, lifting) mem_Collect_eq)
  then show "x = y" using a assms unfolding mid_ok_def inj_on_def by blast
qed

lemma finish_none:
  assumes ok: "mid_ok h s qs" and h: "h < MAX_HARTS" and cur: "k_hart_current s h = cur"
    and c: "cur \<noteq> 0 \<Longrightarrow> cur \<notin> queued qs \<and> fits (k_procs s cur) \<and> p_state (k_procs s cur) \<noteq> PRunning"
  shows "sched_post h cur (mlive h s qs) (sched_finish h cur 0 s)"
proof -
  let ?s = "snd (sched_finish h cur 0 s)"
  note f = sched_finish_def Let_def rq_unlock_def upd_rq_def upd_proc_def set_need_resched_def set_current_for_hart_def
  have q: "same_queues s ?s" and lock: "\<not> rq_locked (k_rq ?s h)"
    using h by (auto simp: f same_queues_def)
  have rq: "rq_ok ?s qs" using same_queues_ok [OF q] ok by (simp add: mid_ok_def)
  note m = ok [unfolded mid_ok_def]
  consider "cur = 0" | "cur \<noteq> 0" "p_state (k_procs s cur) = PExited" | "cur \<noteq> 0" "p_state (k_procs s cur) \<noteq> PExited" by auto
  then show ?thesis
  proof cases
    case 1
    have e: "k_procs ?s = k_procs s" "k_hart_current ?s = k_hart_current s" "fst (sched_finish h cur 0 s) = SchedReturns"
      using 1 by (auto simp: f)
    have "sched_ok ?s qs"
      using m rq 1 cur unfolding sched_ok_def e inj_on_def by (auto)
    moreover have "live ?s qs = mlive h s qs"
      unfolding live_def mlive_def e using 1 cur h by auto
    ultimately show ?thesis using lock 1 e(3) by (auto simp: sched_post_def)
  next
    case 2
    have e: "k_procs ?s = k_procs s" "k_hart_current ?s = (k_hart_current s)(h := 0)"
      "fst (sched_finish h cur 0 s) = (if h = 0 then SchedHalts else SwitchTo (k_idle_tf s h))" "k_idle_tf ?s = k_idle_tf s"
      using 2 h by (auto simp: f)
    have "sched_ok ?s qs"
      using m rq unfolding sched_ok_def e inj_on_def by (auto split: if_splits)
    moreover have "live ?s qs = mlive h s qs"
      unfolding live_def mlive_def e using h by (auto split: if_splits)
    ultimately show ?thesis using lock e(3,4) e(2) by (auto simp: sched_post_def)
  next
    case 3
    have e: "k_procs ?s = (k_procs s)(cur := (k_procs s cur)\<lparr>p_state := PRunning\<rparr>)" "k_hart_current ?s = k_hart_current s"
      "fst (sched_finish h cur 0 s) = SchedReturns"
      using 3 by (auto simp: f)
    have ft: "fits (k_procs ?s x) = fits (k_procs s x)" for x by (simp add: e fits_def)
    have "\<forall>x\<in>queued qs. p_state (k_procs ?s x) = PReady" using m c 3 by (auto simp: e)
    moreover have "k_hart_current s k \<notin> queued qs \<and> fits (k_procs s (k_hart_current s k))"
      if "k < MAX_HARTS" "k_hart_current s k \<noteq> 0" for k
      using m c [OF 3(1)] cur that by (cases "k = h") auto
    ultimately have "sched_ok ?s qs"
      using m rq mid_inj [OF ok] unfolding sched_ok_def e(2) ft by blast
    moreover have "live ?s qs = insert cur (mlive h s qs)"
      unfolding live_def mlive_def e using h cur 3 by (auto simp: image_iff)
    ultimately show ?thesis using lock 3 e(3) by (auto simp: sched_post_def)
  qed
qed

lemma steal_stage:
  assumes ok: "mid_ok h s qs" and h: "h < MAX_HARTS" and cur: "k_hart_current s h = cur"
    and c: "cur \<noteq> 0 \<Longrightarrow> cur \<notin> queued qs \<and> fits (k_procs s cur) \<and> p_state (k_procs s cur) \<noteq> PRunning"
  shows "sched_post h cur (mlive h s qs) (sched_steal h cur s)"
proof -
  obtain p t where r: "steal h (rq_unlock h s) = (p, t)" by (cases "steal h (rq_unlock h s)")
  have sp: "steal_post h (rq_unlock h s) qs (p, t)"
    using steal_from_mid [of h "rq_unlock h s" qs "[1..<MAX_HARTS]"] ok h r by (simp add: steal_def)
  have sc: "same_core (rq_unlock h s) t" using sp by (simp add: steal_post_def)
  have lock: "\<not> rq_locked (k_rq t h)" using sc by (simp add: same_core_def)
  show ?thesis
  proof (cases "p = 0")
    case False
    then obtain qs' where q: "holds h p t qs'" "insert p (queued qs') = queued qs" using sp by (auto simp: steal_post_def)
    let ?s = "snd (sched_steal h cur s)"
    note f = sched_steal_def r Let_def upd_proc_def set_need_resched_def set_current_for_hart_def
    have "same_queues t ?s" "k_hart_current ?s = (k_hart_current t)(h := p)"
      "k_procs ?s = (k_procs t)(p := (k_procs t p)\<lparr>p_state := PRunning, p_kstack_tf := p_tf (k_procs t p)\<rparr>)"
      "\<not> rq_locked (k_rq ?s h)" "fst (sched_steal h cur s) = SwitchTo (p_tf (k_procs t p))"
      using False h lock by (auto simp: f same_queues_def)
    moreover have "insert p (mlive h t qs') = mlive h s qs"
      using q(2) same_core_proc(2,7) [OF sc] by (auto simp: mlive_def)
    ultimately show ?thesis
      using dispatch_ok [OF q(1) h, of ?s] False by (auto simp: sched_post_def Let_def)
  next
    case True
    then obtain qs' where q: "mid_ok h t qs'" "queued qs' = queued qs" using sp by (auto simp: steal_post_def)
    have ml: "mlive h t qs' = mlive h s qs" using q(2) same_core_proc(2,7) [OF sc] by (auto simp: mlive_def)
    have e: "sched_steal h cur s = (let (nxt, s) = dequeue h (rq_lock h t) in sched_finish h cur nxt s)"
      using True r by (simp add: sched_steal_def)
    have m: "mid_ok h (rq_lock h t) qs'" using q by simp
    show ?thesis
    proof (cases "qs' h")
      case Nil
      have d: "dequeue h (rq_lock h t) = (0, rq_lock h t)" using m h Nil by (intro dequeue_nil [of _ qs']) (auto simp: mid_ok_def)
      have "sched_post h cur (mlive h (rq_lock h t) qs') (sched_finish h cur 0 (rq_lock h t))"
        using c cur q(2) same_core_proc(2,7) [OF sc] same_core_fits [OF sc]
        by (intro finish_none [OF m h]) simp_all
      then show ?thesis using e d ml by (simp add: mlive_def)
    next
      case (Cons x xs)
      note d = deq_mid [OF m h Cons]
      have "queued qs' = insert x (queued (qs'(h := xs)))"
        using queued_cons(2) [of "rq_lock h t" qs' h x xs] m h Cons by (simp add: mid_ok_def)
      then have "insert x (mlive h (snd (dequeue h (rq_lock h t))) (qs'(h := xs))) = mlive h t qs'"
        using same_core_proc(2,7) [OF dequeue_core, of h "rq_lock h t"] by (auto simp: mlive_def)
      then show ?thesis
        using finish_next [OF d(2) h, of cur] d(1) e ml by (simp add: case_prod_beta)
    qed
  qed
qed

lemma mid_of_sched:
  assumes "sched_ok s qs" "h < MAX_HARTS"
  shows "mid_ok h s qs"
proof -
  have "k_hart_current s k \<noteq> k_hart_current s h" if "k < MAX_HARTS" "k \<noteq> h" "k_hart_current s k \<noteq> 0" for k
    using assms that unfolding sched_ok_def inj_on_def by (metis (mono_tags, lifting) mem_Collect_eq)
  moreover have "inj_on (k_hart_current s) {k. k < MAX_HARTS \<and> k \<noteq> h \<and> k_hart_current s k \<noteq> 0}"
    using assms(1) unfolding sched_ok_def by (auto intro: inj_on_subset)
  ultimately show ?thesis
    using assms(1) unfolding mid_ok_def sched_ok_def by blast
qed

lemma save_idle:
  assumes ok: "sched_ok s qs" and h: "h < MAX_HARTS" and cur: "cur = k_hart_current s h"
    and c: "cur = 0 \<or> p_state (k_procs s cur) \<noteq> PRunning"
    and t_def: "t = sched_save h cur tf (rq_lock h s)"
  shows "mid_ok h t qs" "mlive h t qs = live s qs" "k_hart_current t h = cur"
    "cur \<noteq> 0 \<Longrightarrow> cur \<notin> queued qs \<and> fits (k_procs t cur) \<and> p_state (k_procs t cur) \<noteq> PRunning"
proof -
  have t: "k_hart_current t = k_hart_current s" "\<And>p. p_state (k_procs t p) = p_state (k_procs s p)"
    "\<And>p. fits (k_procs t p) = fits (k_procs s p)" "same_queues s t"
    using c by (auto simp: t_def sched_save_def Let_def rq_lock_def upd_rq_def upd_proc_def fits_def same_queues_def)
  show "mid_ok h t qs" using mid_ok_frame [OF mid_of_sched [OF ok h] t(4,1)] t(2,3) by blast
  show "mlive h t qs = live s qs"
    using c unfolding mlive_def live_def t(1,2) cur by auto
  show "k_hart_current t h = cur" using cur t by simp
  show "cur \<noteq> 0 \<Longrightarrow> cur \<notin> queued qs \<and> fits (k_procs t cur) \<and> p_state (k_procs t cur) \<noteq> PRunning"
    using ok h c t unfolding sched_ok_def cur by auto
qed

lemma save_running:
  assumes ok: "sched_ok s qs" and h: "h < MAX_HARTS" and cur: "cur = k_hart_current s h"
    and c: "cur \<noteq> 0" "p_state (k_procs s cur) = PRunning"
    and t_def: "t = sched_save h cur tf (rq_lock h s)"
  shows "mid_ok h t (qs(h := qs h @ [cur]))" "mlive h t (qs(h := qs h @ [cur])) = live s qs"
    "k_hart_current t = k_hart_current s" "p_affinity (k_procs t p) = p_affinity (k_procs s p)"
proof -
  define u where "u = upd_proc cur (\<lambda>x. x\<lparr>p_state := PReady\<rparr>) (upd_proc cur (\<lambda>x. x\<lparr>p_tf := tf\<rparr>) (rq_lock h s))"
  have t: "t = enqueue h cur u" using c by (simp add: t_def u_def sched_save_def Let_def upd_proc_def)
  have u: "k_hart_current u = k_hart_current s" "same_queues s u" "p_state (k_procs u cur) = PReady"
    "\<And>p. fits (k_procs u p) = fits (k_procs s p)" "\<And>p. p \<noteq> cur \<Longrightarrow> p_state (k_procs u p) = p_state (k_procs s p)"
    "\<And>p. p_affinity (k_procs u p) = p_affinity (k_procs s p)"
    by (auto simp: u_def rq_lock_def upd_rq_def upd_proc_def fits_def same_queues_def)
  have m: "mid_ok h s qs" by (rule mid_of_sched [OF ok h])
  have nq: "cur \<notin> queued qs" "fits (k_procs s cur)" using ok h c unfolding sched_ok_def cur by auto
  have other: "k < MAX_HARTS \<Longrightarrow> k \<noteq> h \<Longrightarrow> k_hart_current s k \<noteq> cur" for k
    using m c(1) unfolding mid_ok_def cur by auto
  have "mid_ok h u qs"
    by (rule mid_ok_frame [OF m u(2,1)]) (use nq(1) other u(4,5) in \<open>auto; metis\<close>)
  then have hold: "holds h cur u qs" using c nq other u by (auto simp: holds_def)
  show "mid_ok h t (qs(h := qs h @ [cur]))" using enq_mid [OF hold h] t by simp
  have tc: "k_hart_current t = k_hart_current s" "\<And>p. p_state (k_procs t p) = p_state (k_procs u p)"
    "\<And>p. p_affinity (k_procs t p) = p_affinity (k_procs s p)"
    using same_core_proc [OF enqueue_core] u by (auto simp: t)
  then show "k_hart_current t = k_hart_current s" "p_affinity (k_procs t p) = p_affinity (k_procs s p)" by auto
  show "mlive h t (qs(h := qs h @ [cur])) = live s qs"
    unfolding mlive_def live_def queued_snoc [OF h] tc(1,2)
    using u(3,5) c h cur by (auto simp: image_iff) (metis proc_state.distinct)+
qed

section \<open>One call\<close>

lemma mlive_deq:
  assumes "mid_ok h s qs" "k < MAX_HARTS" "qs k = p # ps"
  shows "insert p (mlive h (snd (dequeue k s)) (qs(k := ps))) = mlive h s qs"
proof -
  have "queued qs = insert p (queued (qs(k := ps)))"
    using queued_cons(2) [of s qs k p ps] assms by (simp add: mid_ok_def)
  then show ?thesis using same_core_proc(2,7) [OF dequeue_core] by (auto simp: mlive_def)
qed

lemma mlive_enq: "k < MAX_HARTS \<Longrightarrow> mlive h (enqueue k p s) (qs(k := qs k @ [p])) = insert p (mlive h s qs)"
  using same_core_proc(2,7) [OF enqueue_core] by (auto simp: mlive_def queued_snoc)

text \<open>From the first \<open>dequeue\<close> on. If the own queue can run dry, the current process must not be in it.\<close>

lemma pick_stage:
  assumes ok: "mid_ok h t qs" and h: "h < MAX_HARTS" and cur: "k_hart_current s h = cur" "k_hart_current t h = cur"
    and t: "t = sched_save h cur tf (rq_lock h s)"
    and c: "cur \<noteq> 0 \<Longrightarrow> cur \<in> queued qs \<Longrightarrow> qs h \<noteq> [] \<and> last (qs h) = cur \<and> \<not> pinned_elsewhere h (k_procs t cur)"
    and c': "cur \<noteq> 0 \<Longrightarrow> cur \<notin> queued qs \<Longrightarrow> fits (k_procs t cur) \<and> p_state (k_procs t cur) \<noteq> PRunning"
  shows "sched_post h cur (mlive h t qs) (sched_yield h tf s)"
proof (cases "qs h")
  case Nil
  have d: "dequeue h t = (0, t)" using ok h Nil by (intro dequeue_nil [of _ qs]) (auto simp: mid_ok_def)
  have "sched_yield h tf s = sched_steal h cur t"
    using d t cur h by (simp add: sched_yield_def current_for_hart_def)
  then show ?thesis using steal_stage [OF ok h cur(2)] c c' Nil by auto
next
  case (Cons p ps)
  let ?u = "snd (dequeue h t)"
  note d = deq_mid [OF ok h Cons]
  have p0: "p \<noteq> 0" and ft: "fits (k_procs ?u p)" using d(2) by (auto simp: holds_def)
  show ?thesis
  proof (cases "pinned_elsewhere h (k_procs ?u p)")
    case False
    have "sched_yield h tf s = sched_finish h cur p ?u"
      using d(1) t cur(1) h p0 False by (simp add: sched_yield_def current_for_hart_def Let_def case_prod_beta)
    then show ?thesis using finish_next [OF d(2) h, of cur] mlive_deq [OF ok h Cons] by simp
  next
    case True
    let ?a = "nat (sint (p_affinity (k_procs ?u p)))" let ?v = "enqueue ?a p ?u"
    let ?qs = "(qs(h := ps))(?a := (qs(h := ps)) ?a @ [p])"
    have a: "?a < MAX_HARTS" "?a \<noteq> h" using ft True by (auto simp: fits_def pinned_elsewhere_def)
    have m: "mid_ok h ?v ?qs" by (rule enq_mid [OF d(2) a(1)])
    have ml: "mlive h ?v ?qs = mlive h t qs" unfolding mlive_enq [OF a(1)] by (rule mlive_deq [OF ok h Cons])
    have y: "sched_yield h tf s = (let (nxt, s) = dequeue h ?v in if nxt = 0 then sched_steal h cur s else sched_finish h cur nxt s)"
      using d(1) t cur(1) h p0 True a(1) by (simp add: sched_yield_def current_for_hart_def Let_def case_prod_beta)
    have sc: "same_core t ?v" by (rule same_core_trans [OF dequeue_core enqueue_core])
    have qq: "queued ?qs = queued qs"
      using queued_snoc [OF a(1), of "qs(h := ps)" p] queued_cons(2) [of t qs h p ps] ok h Cons by (simp add: mid_ok_def)
    have qh: "?qs h = ps" using a(2) by simp
    show ?thesis
    proof (cases ps)
      case Nil
      have d': "dequeue h ?v = (0, ?v)" using m h Nil qh by (intro dequeue_nil [of _ ?qs]) (auto simp: mid_ok_def)
      have "cur \<noteq> 0 \<Longrightarrow> cur \<notin> queued qs"
        using c Cons Nil True same_core_proc(5) [OF dequeue_core, of h t] by (auto simp: pinned_elsewhere_def)
      then show ?thesis
        using steal_stage [OF m h, of cur] c' y d' ml cur(2) same_core_proc(2,7) [OF sc] same_core_fits [OF sc] qq by simp
    next
      case (Cons x xs)
      have qx: "?qs h = x # xs" using qh Cons by simp
      note d' = deq_mid [OF m h qx]
      have "x \<noteq> 0" using d'(2) by (simp add: holds_def)
      then have e: "sched_yield h tf s = sched_finish h cur x (snd (dequeue h ?v))" using y d'(1) by (simp add: case_prod_beta)
      show ?thesis
        unfolding e ml [symmetric] mlive_deq [OF m h qx, symmetric] by (rule finish_next [OF d'(2) h])
    qed
  qed
qed

lemma yield_post:
  assumes ok: "sched_ok s qs" and h: "h < MAX_HARTS"
    and pin: "k_hart_current s h = 0 \<or> \<not> pinned_elsewhere h (k_procs s (k_hart_current s h))"
  shows "sched_post h (k_hart_current s h) (live s qs) (sched_yield h tf s)"
proof -
  let ?cur = "k_hart_current s h" let ?t = "sched_save h ?cur tf (rq_lock h s)"
  show ?thesis
  proof (cases "?cur \<noteq> 0 \<and> p_state (k_procs s ?cur) = PRunning")
    case True
    note r = save_running [OF ok h refl conjunct1 [OF True] conjunct2 [OF True] refl, of tf]
    have "sched_post h ?cur (mlive h ?t (qs(h := qs h @ [?cur]))) (sched_yield h tf s)"
      by (rule pick_stage [OF r(1) h refl _ refl])
        (use True pin r h in \<open>auto simp: pinned_elsewhere_def queued_snoc\<close>)
    then show ?thesis using r(2) by simp
  next
    case False
    then have "?cur = 0 \<or> p_state (k_procs s ?cur) \<noteq> PRunning" by blast
    note r = save_idle [OF ok h refl this refl, of tf]
    have "sched_post h ?cur (mlive h ?t qs) (sched_yield h tf s)"
      by (rule pick_stage [OF r(1) h refl r(3) refl]) (use r(4) in auto)
    then show ?thesis using r(2) by simp
  qed
qed

text \<open>The trap frame of the caller is saved, and no other process's frame changes.\<close>

lemma steal_from_tf: "p_tf (k_procs (snd (steal_from h is s)) p) = p_tf (k_procs s p)"
proof (induction "is" arbitrary: s)
  case (Cons i "is")
  then show ?case
    using same_core_proc(4) [OF dequeue_core] same_core_proc(4) [OF enqueue_core]
    by (simp add: Let_def case_prod_beta)
qed simp

lemma finish_tf: "p_tf (k_procs (snd (sched_finish h cur nxt s)) p) = p_tf (k_procs s p)"
  by (simp add: sched_finish_def Let_def upd_proc_def set_need_resched_def set_current_for_hart_def)

lemma save_tf: "p_tf (k_procs (sched_save h cur tf s) p) = (if p = cur \<and> cur \<noteq> 0 then tf else p_tf (k_procs s p))"
  using same_core_proc(4) [OF enqueue_core] by (auto simp: sched_save_def Let_def upd_proc_def)

lemma sched_steal_tf: "p_tf (k_procs (snd (sched_steal h cur s)) p) = p_tf (k_procs s p)"
  using same_core_proc(4) [OF dequeue_core]
  by (simp add: sched_steal_def steal_def Let_def case_prod_beta finish_tf steal_from_tf
      upd_proc_def set_need_resched_def set_current_for_hart_def)

lemma yield_tf:
  assumes "h < MAX_HARTS"
  shows "p_tf (k_procs (snd (sched_yield h tf s)) p) =
    (if p = k_hart_current s h \<and> k_hart_current s h \<noteq> 0 then tf else p_tf (k_procs s p))"
  using assms same_core_proc(4) [OF dequeue_core] same_core_proc(4) [OF enqueue_core]
  by (simp add: sched_yield_def Let_def case_prod_beta finish_tf sched_steal_tf save_tf current_for_hart_def)

section \<open>Round robin\<close>

lemma yield_rotates:
  assumes ok: "sched_ok s qs" and h: "h < MAX_HARTS" and cur: "cur = k_hart_current s h" "cur \<noteq> 0"
    and run: "p_state (k_procs s cur) = PRunning" and q: "qs h = x # xs" and here: "\<not> pinned_elsewhere h (k_procs s x)"
    and r_def: "r = sched_yield h tf s"
  shows "fst r = SwitchTo (p_tf (k_procs s x))" "sched_ok (snd r) (qs(h := xs @ [cur]))"
    "k_hart_current (snd r) h = x" "p_state (k_procs (snd r) x) = PRunning"
    "p_affinity (k_procs (snd r) p) = p_affinity (k_procs s p)"
proof -
  let ?t = "sched_save h cur tf (rq_lock h s)" let ?u = "snd (dequeue h ?t)"
  note sv = save_running [OF ok h cur(1,2) run refl, of tf]
  have q1: "(qs(h := qs h @ [cur])) h = x # (xs @ [cur])" using q by simp
  note d = deq_mid [OF sv(1) h q1]
  have x0: "x \<noteq> 0" using d(2) by (simp add: holds_def)
  have "x \<in> queued qs" "cur \<notin> queued qs"
    using ok q h cur unfolding sched_ok_def by (auto simp: queued_iff intro!: exI [of _ h])
  then have xc: "x \<noteq> cur" by auto
  have aff: "p_affinity (k_procs ?u y) = p_affinity (k_procs s y)" for y
    using same_core_proc(5) [OF dequeue_core, of h ?t] sv(4) by simp
  have "\<not> pinned_elsewhere h (k_procs ?u x)" using here aff by (simp add: pinned_elsewhere_def)
  then have r: "r = sched_finish h cur x ?u"
    using d(1) h x0 cur by (simp add: r_def sched_yield_def current_for_hart_def Let_def case_prod_beta)
  note f = finish_facts [OF x0 h r]
  have "p_tf (k_procs ?u x) = p_tf (k_procs s x)"
    using same_core_proc(4) [OF dequeue_core, of h ?t] xc by (simp add: save_tf)
  then show "fst r = SwitchTo (p_tf (k_procs s x))" using f(5) by simp
  show "sched_ok (snd r) (qs(h := xs @ [cur]))" using dispatch_ok(1) [OF d(2) h f(1-3)] by (simp only: fun_upd_upd)
  show "k_hart_current (snd r) h = x" "p_state (k_procs (snd r) x) = PRunning" using f(2,3) by auto
  show "p_affinity (k_procs (snd r) p) = p_affinity (k_procs s p)" using aff by (simp add: f(3))
qed

fun yields :: "nat \<Rightarrow> trap_frame list \<Rightarrow> kst \<Rightarrow> kst" where
  "yields h [] s = s"
| "yields h (tf # tfs) s = yields h tfs (snd (sched_yield h tf s))"

lemma yields_reach:
  assumes "sched_ok s qs" "h < MAX_HARTS" "k_hart_current s h \<noteq> 0" "p_state (k_procs s (k_hart_current s h)) = PRunning"
    and "length tfs \<le> length (qs h)" "\<forall>p\<in>set (k_hart_current s h # qs h). \<not> pinned_elsewhere h (k_procs s p)"
  shows "k_hart_current (yields h tfs s) h = (k_hart_current s h # qs h) ! length tfs
    \<and> p_state (k_procs (yields h tfs s) (k_hart_current (yields h tfs s) h)) = PRunning"
  using assms
proof (induction tfs arbitrary: s qs)
  case (Cons tf tfs)
  then obtain x xs where q: "qs h = x # xs" by (cases "qs h") auto
  let ?cur = "k_hart_current s h" let ?s = "snd (sched_yield h tf s)"
  have here: "\<not> pinned_elsewhere h (k_procs s x)" using Cons.prems(6) q by simp
  note y = yield_rotates [OF Cons.prems(1,2) refl Cons.prems(3,4) q here refl, of tf]
  have x0: "x \<noteq> 0"
    using q_okD(5) [OF rq_okD(1), of s qs h] Cons.prems(1,2) q by (auto simp: sched_ok_def)
  have "k_hart_current (yields h tfs ?s) h = (k_hart_current ?s h # (qs(h := xs @ [?cur])) h) ! length tfs
    \<and> p_state (k_procs (yields h tfs ?s) (k_hart_current (yields h tfs ?s) h)) = PRunning"
    by (rule Cons.IH [OF y(2) Cons.prems(2)])
      (use y x0 q Cons.prems(5,6) in \<open>auto simp: pinned_elsewhere_def\<close>)
  moreover have "(k_hart_current ?s h # (qs(h := xs @ [?cur])) h) ! length tfs = (?cur # qs h) ! length (tf # tfs)"
    using y(3) q Cons.prems(5) by (simp add: nth_append nth_Cons split: nat.splits)
  ultimately show ?case unfolding yields.simps by metis
qed simp

text \<open>C5: \<open>sched_yield\<close> neither loses nor duplicates a runnable process. Let the scheduler invariant hold: the run
  queues are well-formed, a queued process is Ready and no hart's current process, and no process is current on two harts.
  Let the current process of the hart not be pinned to another one. Then \<open>sched_yield\<close> does not panic, the invariant holds again,
  the run queue lock is free, and the set of runnable processes (queued, or running on a hart) is the same,
  a blocked caller that is resumed because nothing else can run being the only one added. The caller's
  registers are saved in its own trap frame and no other process's frame changes; a switch loads exactly the
  saved frame of the process that is now current and Running, or the idle frame if there is none.\<close>

theorem sched_yield_conserves:
  assumes "sched_ok s qs" "h < MAX_HARTS"
    and "k_hart_current s h = 0 \<or> \<not> pinned_elsewhere h (k_procs s (k_hart_current s h))"
    and "sched_yield h tf s = (out, s')"
  shows "out \<noteq> SchedPanics \<and> \<not> rq_locked (k_rq s' h)
    \<and> (\<exists>qs'. sched_ok s' qs' \<and>
         live s' qs' = live s qs \<union> (if out = SchedReturns then {k_hart_current s h} - {0} else {}))
    \<and> (\<forall>p. p_tf (k_procs s' p) = (if p = k_hart_current s h \<and> k_hart_current s h \<noteq> 0 then tf else p_tf (k_procs s p)))
    \<and> (\<forall>f. out = SwitchTo f \<longrightarrow>
         (let c = k_hart_current s' h; x = k_procs s' c in
          if c = 0 then f = k_idle_tf s' h else p_state x = PRunning \<and> p_tf x = f \<and> p_kstack_tf x = f))"
  using yield_post [OF assms(1-3), of tf] yield_tf [OF assms(2), of tf s]
  unfolding assms(4) sched_post_def fst_conv snd_conv by blast

text \<open>C8: Round robin is fair. On a hart with a running process and a run queue \<open>qs h\<close>, none of them pinned to another hart,
  the process at position \<open>k\<close> of the queue runs after exactly \<open>k + 1\<close> calls of \<open>sched_yield\<close>, whatever the
  trap frames of the callers: no runnable process waits longer than one pass over the queue.\<close>

theorem round_robin:
  assumes "sched_ok s qs" "h < MAX_HARTS" "k_hart_current s h \<noteq> 0"
    and "p_state (k_procs s (k_hart_current s h)) = PRunning"
    and "\<forall>p\<in>set (k_hart_current s h # qs h). \<not> pinned_elsewhere h (k_procs s p)"
    and "length tfs = k + 1" "k < length (qs h)"
  shows "k_hart_current (yields h tfs s) h = qs h ! k \<and> p_state (k_procs (yields h tfs s) (qs h ! k)) = PRunning"
  using yields_reach [OF assms(1-4), of tfs] assms(5-7) by auto

text \<open>Waking a process keeps the invariant.\<close>

lemma enqueue_sched:
  assumes "sched_ok s qs" "h < MAX_HARTS" "p \<noteq> 0" "p \<notin> queued qs" "p_state (k_procs s p) = PReady" "fits (k_procs s p)"
    and "p \<notin> k_hart_current s ` {..<MAX_HARTS}"
  shows "sched_ok (enqueue h p s) (qs(h := qs h @ [p]))"
proof -
  note c = same_core_proc(2,7) [OF enqueue_core, of h p s] same_core_fits [OF enqueue_core, of h p s]
  have "rq_ok (enqueue h p s) (qs(h := qs h @ [p]))" using assms by (intro enqueue_ok) (auto simp: sched_ok_def)
  then show ?thesis
    using assms unfolding sched_ok_def c queued_snoc [OF assms(2)] by auto
qed

text \<open>Three processes on hart 0: one runs and two wait, one of them pinned to this hart.\<close>

definition kst_base :: kst where
  "kst_base = kst0\<lparr>k_procs := (\<lambda>p. new_proc\<lparr>p_state := if p = 0x1000 then PRunning else PReady,
      p_affinity := if p = 0x3000 then 0 else - 1\<rparr>),
     k_hart_current := (\<lambda>k. if k = 0 then 0x1000 else 0), k_current := 0x1000\<rparr>"

definition kst1 :: kst where
  "kst1 = enqueue 0 0x3000 (enqueue 0 0x2000 kst_base)"

lemma kst1_ok: "sched_ok kst1 ((\<lambda>_. [])(0 := [0x2000, 0x3000]))"
proof -
  have rq: "rq_ok kst_base (\<lambda>_. [])"
    by (simp add: rq_ok_def q_ok_def kst_base_def kst0_def last_or_null_def new_proc_def queued_def)
  have b: "sched_ok kst_base (\<lambda>_. [])"
    using rq unfolding sched_ok_def
    by (auto simp: queued_def inj_on_def kst_base_def kst0_def new_proc_def fits_def MAX_HARTS_def split: if_splits)
  have m: "0 < MAX_HARTS" by (simp add: MAX_HARTS_def)
  have f: "p \<noteq> 0x1000 \<Longrightarrow> p \<noteq> 0 \<Longrightarrow> p \<notin> k_hart_current kst_base ` {..<MAX_HARTS}"
    "p \<noteq> 0x1000 \<Longrightarrow> p_state (k_procs kst_base p) = PReady" "fits (k_procs kst_base p)" for p
    by (auto simp: kst_base_def kst0_def new_proc_def fits_def MAX_HARTS_def)
  have c: "k_hart_current (enqueue 0 0x2000 kst_base) = k_hart_current kst_base"
    "p_state (k_procs (enqueue 0 0x2000 kst_base) p) = p_state (k_procs kst_base p)"
    "fits (k_procs (enqueue 0 0x2000 kst_base) p) = fits (k_procs kst_base p)" for p
    using same_core_proc [OF enqueue_core] same_core_fits [OF enqueue_core] by auto
  have e: "sched_ok (enqueue 0 0x2000 kst_base) ((\<lambda>_. [])(0 := (\<lambda>_. []) 0 @ [0x2000]))"
    by (rule enqueue_sched [OF b]) (simp_all add: f m queued_def)
  show ?thesis
    using enqueue_sched [OF e, of 0 "0x3000"] unfolding kst1_def
    by (simp add: f c m queued_def fun_upd_def cong: if_cong)
qed

lemma kst1_simps:
  "k_hart_current kst1 0 = 0x1000" "p_state (k_procs kst1 0x1000) = PRunning"
  "p_affinity (k_procs kst1 p) = (if p = 0x3000 then 0 else - 1)"
  using same_core_proc [OF same_core_trans [OF enqueue_core enqueue_core]]
  by (auto simp: kst1_def kst_base_def kst0_def)

theorem sched_yield_conserves_witness:
  "fst (sched_yield 0 zero_frame kst1) \<noteq> SchedPanics \<and> \<not> rq_locked (k_rq (snd (sched_yield 0 zero_frame kst1)) 0)"
  using sched_yield_conserves [OF kst1_ok, of 0 zero_frame "fst (sched_yield 0 zero_frame kst1)" "snd (sched_yield 0 zero_frame kst1)"]
  by (simp add: MAX_HARTS_def pinned_elsewhere_def kst1_simps)

theorem round_robin_witness:
  "k_hart_current (yields 0 [zero_frame, zero_frame] kst1) 0 = 0x3000"
  using round_robin [OF kst1_ok, of 0 "[zero_frame, zero_frame]" 1]
  by (simp add: MAX_HARTS_def pinned_elsewhere_def kst1_simps)

section \<open>A pinned process may run on two harts\<close>

text \<open>The hypothesis of the conservation theorem on the caller's own affinity is needed. A process that
  pinned itself to another hart, with nothing else to run, is moved to the queue of that hart and is still resumed
  on this one, so it is current here and queued there at once.\<close>

definition kst_pinned :: kst where
  "kst_pinned = kst0\<lparr>k_procs := (\<lambda>p. new_proc\<lparr>p_state := PRunning, p_affinity := 1\<rparr>),
     k_hart_current := (\<lambda>k. if k = 0 then 0x1000 else 0), k_current := 0x1000\<rparr>"

lemma pinned_runs_twice:
  "sched_ok kst_pinned (\<lambda>_. []) \<and>
   (let (out, s) = sched_yield 0 zero_frame kst_pinned in
    out = SchedReturns \<and> k_hart_current s 0 = 0x1000 \<and> p_state (k_procs s 0x1000) = PRunning
    \<and> rq_head (k_rq s 1) = 0x1000 \<and> p_on_rq (k_procs s 0x1000))"
proof
  show "sched_ok kst_pinned (\<lambda>_. [])"
    by (simp add: sched_ok_def rq_ok_def q_ok_def kst_pinned_def kst0_def last_or_null_def new_proc_def queued_def
        inj_on_def fits_def MAX_HARTS_def)
  show "let (out, s) = sched_yield 0 zero_frame kst_pinned in
    out = SchedReturns \<and> k_hart_current s 0 = 0x1000 \<and> p_state (k_procs s 0x1000) = PRunning
    \<and> rq_head (k_rq s 1) = 0x1000 \<and> p_on_rq (k_procs s 0x1000)"
    by (simp add: sched_yield_def current_for_hart_def sched_save_def sched_steal_def steal_def sched_finish_def
        enqueue_def dequeue_def rq_lock_def rq_unlock_def upd_rq_def upd_proc_def pinned_elsewhere_def
        kst_pinned_def kst0_def new_proc_def MAX_HARTS_def set_need_resched_def upt_conv_Cons Let_def)
qed

end
