(* ===== verification/Vfs_Fd.thy ===== *)
theory Vfs_Fd
  imports Run_Queue
begin

text \<open>
  The descriptor layer of \<open>kernel/src/fs/vfs\<close>: mount resolution, descriptor allocation, tokens with epochs,
  \<open>open\<close>, \<open>close\<close>, \<open>dup\<close>, \<open>dup2\<close>, pipes, \<open>lseek\<close>, \<open>read\<close> and \<open>write\<close>. A token carries the slot and the epoch of the
  slot, so that a token outlives its descriptor harmlessly. The four file systems behind the layer are
  arguments of the operations that call them. \<open>fd_tab\<close> is the table the code selects: that of the kernel during boot, that of
  the current process otherwise.
\<close>

definition VFS_MAX_FDS :: nat where "VFS_MAX_FDS = 16"
definition PERM_READ :: u32 where "PERM_READ = 1"
definition PERM_WRITE :: u32 where "PERM_WRITE = 2"
definition PERM_SEEK :: u32 where "PERM_SEEK = 4"
definition PERM_EXEC :: u32 where "PERM_EXEC = 8"
definition PERM_ALL :: u32 where "PERM_ALL = PERM_READ OR PERM_WRITE OR PERM_SEEK OR PERM_EXEC"
definition FD_TOKEN_NONE :: u64 where "FD_TOKEN_NONE = 0xFFFFFFFFFFFFFFFF"

definition fd_token :: "nat \<Rightarrow> u32 \<Rightarrow> u64" where
  "fd_token idx epoch = push_bit 32 (of_nat idx) OR ucast epoch"

definition fd_token_idx :: "u64 \<Rightarrow> nat" where
  "fd_token_idx token = unat (drop_bit 32 token)"

definition fd_token_epoch :: "u64 \<Rightarrow> u32" where
  "fd_token_epoch token = ucast token"

section \<open>The descriptor table\<close>

definition is_kernel_boot :: "nat \<Rightarrow> kst \<Rightarrow> bool" where
  "is_kernel_boot h s \<longleftrightarrow> current_pid h s = 0"

definition fd_tab :: "nat \<Rightarrow> kst \<Rightarrow> vfs_fd list" where
  "fd_tab h s = (if is_kernel_boot h s then k_kernel_fds s else p_fds (k_procs s (current h s)))"

definition upd_tab :: "nat \<Rightarrow> (vfs_fd list \<Rightarrow> vfs_fd list) \<Rightarrow> kst \<Rightarrow> kst" where
  "upd_tab h f s =
     (if is_kernel_boot h s then s\<lparr>k_kernel_fds := f (k_kernel_fds s)\<rparr>
      else upd_proc (current h s) (\<lambda>x. x\<lparr>p_fds := f (p_fds x)\<rparr>) s)"

definition upd_fd :: "nat \<Rightarrow> nat \<Rightarrow> (vfs_fd \<Rightarrow> vfs_fd) \<Rightarrow> kst \<Rightarrow> kst" where
  "upd_fd h i f = upd_tab h (\<lambda>tab. tab[i := f (tab ! i)])"

definition bump :: "u32 \<Rightarrow> u32" where
  "bump e = (if e + 1 = 0 then 1 else e + 1)"

definition fd_get :: "nat \<Rightarrow> nat \<Rightarrow> kst \<Rightarrow> vfs_fd" where
  "fd_get h idx s = fd_tab h s ! idx"

definition alloc_fd :: "nat \<Rightarrow> u32 \<Rightarrow> kst \<Rightarrow> (errno + nat) \<times> kst" where
  "alloc_fd h perms s =
     (case find (\<lambda>i. \<not> fd_used (fd_tab h s ! i)) [(if is_kernel_boot h s then 0 else 3)..<VFS_MAX_FDS] of
        None \<Rightarrow> (Inl ENoMem, s)
      | Some i \<Rightarrow> (Inr i, upd_fd h i (\<lambda>fd. fd\<lparr>fd_used := True, fd_perms := perms, fd_epoch := bump (fd_epoch fd)\<rparr>) s))"

definition fd_check :: "nat \<Rightarrow> u64 \<Rightarrow> kst \<Rightarrow> errno + nat" where
  "fd_check h token s =
     (let idx = fd_token_idx token in
      if VFS_MAX_FDS \<le> idx then Inl EBadFd
      else
        let fd = fd_get h idx s in
        if \<not> fd_used fd \<or> fd_epoch fd \<noteq> fd_token_epoch token then Inl EBadFd else Inr idx)"

definition fd_check_perm :: "nat \<Rightarrow> u64 \<Rightarrow> u32 \<Rightarrow> kst \<Rightarrow> errno + nat" where
  "fd_check_perm h token perm s =
     (case fd_check h token s of
        Inl e \<Rightarrow> Inl e
      | Inr idx \<Rightarrow> if fd_perms (fd_get h idx s) AND perm = 0 then Inl EPerm else Inr idx)"

definition fd_set :: "nat \<Rightarrow> nat \<Rightarrow> u32 \<Rightarrow> u32 \<Rightarrow> fs_kind \<Rightarrow> u32 \<Rightarrow> kst \<Rightarrow> kst" where
  "fd_set h idx ino sz fs pos =
     upd_fd h idx (\<lambda>fd. fd\<lparr>fd_ino := ino, fd_size := sz, fd_fs := fs, fd_pos := pos\<rparr>)"

definition fd_update_pos :: "nat \<Rightarrow> nat \<Rightarrow> u32 \<Rightarrow> kst \<Rightarrow> kst" where
  "fd_update_pos h idx pos = upd_fd h idx (\<lambda>fd. fd\<lparr>fd_pos := pos\<rparr>)"

definition fd_clear :: "nat \<Rightarrow> nat \<Rightarrow> kst \<Rightarrow> kst" where
  "fd_clear h idx = upd_fd h idx (\<lambda>fd. fd\<lparr>fd_used := False\<rparr>)"

section \<open>Mounts\<close>

record mount_entry =
  m_path :: bytes
  m_fs :: fs_kind

record vfs_mounts =
  g_mounts :: "mount_entry list"
  g_root_fs :: fs_kind

definition no_mounts :: vfs_mounts where
  "no_mounts = \<lparr>g_mounts = replicate 5 \<lparr>m_path = [], m_fs = FsNone\<rparr>, g_root_fs = FsNone\<rparr>"

definition mount_procfs :: "vfs_mounts \<Rightarrow> vfs_mounts" where
  "mount_procfs m = m\<lparr>g_mounts := (g_mounts m)[0 := \<lparr>m_path = [112, 114, 111, 99], m_fs = FsProc\<rparr>]\<rparr>"

definition mount_ipcfs :: "vfs_mounts \<Rightarrow> vfs_mounts" where
  "mount_ipcfs m = m\<lparr>g_mounts := (g_mounts m)[1 := \<lparr>m_path = [105, 112, 99], m_fs = FsIpc\<rparr>]\<rparr>"

definition mount_root :: "bool \<Rightarrow> bool \<Rightarrow> vfs_mounts \<Rightarrow> (errno + unit) \<times> vfs_mounts" where
  "mount_root onyx_ok fat_ok m =
     (if onyx_ok then (Inr (), m\<lparr>g_root_fs := FsOnyx\<rparr>)
      else if fat_ok then (Inr (), m\<lparr>g_root_fs := FsFat32\<rparr>)
      else (Inl EIo, m))"

fun resolve_mounts :: "mount_entry list \<Rightarrow> fs_kind \<Rightarrow> bytes \<Rightarrow> fs_kind \<times> bytes" where
  "resolve_mounts [] root path = (root, path)"
| "resolve_mounts (m # ms) root path =
     (if m_fs m = FsNone then resolve_mounts ms root path
      else if path = m_path m then (m_fs m, [])
      else if take (length (m_path m)) path = m_path m \<and> length path > length (m_path m)
              \<and> path ! length (m_path m) = 47
      then (m_fs m, drop (length (m_path m) + 1) path)
      else resolve_mounts ms root path)"

definition resolve_mount :: "vfs_mounts \<Rightarrow> bytes \<Rightarrow> fs_kind \<times> bytes" where
  "resolve_mount m path = resolve_mounts (g_mounts m) (g_root_fs m) path"

section \<open>File operations\<close>

text \<open>The file systems: lookup of a path (inode and size), reading at a position (the bytes read) and writing
  (the number of bytes written).\<close>

record backends =
  b_lookup :: "fs_kind \<Rightarrow> bytes \<Rightarrow> errno + (u32 \<times> u64)"
  b_read :: "fs_kind \<Rightarrow> u32 \<Rightarrow> u32 \<Rightarrow> u32 \<Rightarrow> errno + bytes"
  b_write :: "fs_kind \<Rightarrow> u32 \<Rightarrow> bytes \<Rightarrow> u32 \<Rightarrow> errno + u32"

text \<open>The lookup of \<open>open\<close>: the file system, the inode and the size, clipped to 32 bits for OnyxFS.\<close>

definition open_lookup :: "backends \<Rightarrow> vfs_mounts \<Rightarrow> bytes \<Rightarrow> errno + (fs_kind \<times> u32 \<times> u32)" where
  "open_lookup B m name =
     (let (fs, subpath) = resolve_mount m name in
      if fs = FsProc \<or> fs = FsIpc
      then map_sum id (\<lambda>(ino, sz). (fs, ino, ucast sz)) (b_lookup B fs subpath)
      else if g_root_fs m = FsOnyx
      then map_sum id (\<lambda>(ino, sz). (fs, ino, ucast (min sz 0xFFFFFFFF))) (b_lookup B FsOnyx name)
      else if g_root_fs m = FsFat32
      then map_sum id (\<lambda>(ino, sz). (fs, ino, ucast sz)) (b_lookup B FsFat32 name)
      else Inl EInval)"

definition vfs_open :: "backends \<Rightarrow> vfs_mounts \<Rightarrow> nat \<Rightarrow> bytes \<Rightarrow> u32 \<Rightarrow> kst \<Rightarrow> (errno + u64) \<times> kst" where
  "vfs_open B m h path perms s =
     (if path = [] \<or> hd path \<noteq> 47 then (Inl EInval, s)
      else
        case alloc_fd h perms s of
          (Inl e, s) \<Rightarrow> (Inl e, s)
        | (Inr idx, s) \<Rightarrow>
            case open_lookup B m (tl path) of
              Inl e \<Rightarrow> (Inl e, s)
            | Inr (fs, ino, sz) \<Rightarrow>
                let s = fd_set h idx ino sz fs 0 s in (Inr (fd_token idx (fd_epoch (fd_get h idx s))), s))"

definition vfs_close :: "nat \<Rightarrow> u64 \<Rightarrow> kst \<Rightarrow> (errno + unit) \<times> kst" where
  "vfs_close h token s =
     (case fd_check h token s of Inl e \<Rightarrow> (Inl e, s) | Inr idx \<Rightarrow> (Inr (), fd_clear h idx s))"

definition dup :: "nat \<Rightarrow> u64 \<Rightarrow> kst \<Rightarrow> (errno + u64) \<times> kst" where
  "dup h token s =
     (case fd_check h token s of
        Inl e \<Rightarrow> (Inl e, s)
      | Inr idx \<Rightarrow>
          let fd = fd_get h idx s in
          case alloc_fd h (fd_perms fd) s of
            (Inl e, s) \<Rightarrow> (Inl e, s)
          | (Inr new_idx, s) \<Rightarrow>
              let s = fd_set h new_idx (fd_ino fd) (fd_size fd) (fd_fs fd) (fd_pos fd) s
              in (Inr (fd_token new_idx (fd_epoch (fd_get h new_idx s))), s))"

definition dup2 :: "nat \<Rightarrow> u64 \<Rightarrow> u64 \<Rightarrow> kst \<Rightarrow> (errno + u64) \<times> kst" where
  "dup2 h old_token new_fd s =
     (case fd_check h old_token s of
        Inl e \<Rightarrow> (Inl e, s)
      | Inr idx \<Rightarrow>
          let fd = fd_get h idx s; new_idx = unat new_fd in
          if VFS_MAX_FDS \<le> new_idx then (Inl EBadFd, s)
          else
            let s = upd_fd h new_idx (\<lambda>x. x\<lparr>fd_used := True, fd_perms := fd_perms fd, fd_epoch := bump (fd_epoch x),
                      fd_ino := fd_ino fd, fd_size := fd_size fd, fd_fs := fd_fs fd, fd_pos := fd_pos fd\<rparr>) s
            in (Inr (fd_token new_idx (fd_epoch (fd_get h new_idx s))), s))"

definition create_pipe :: "nat \<Rightarrow> kst \<Rightarrow> (errno + (u64 \<times> u64)) \<times> kst" where
  "create_pipe h s =
     (case alloc_fd h PERM_READ s of
        (Inl e, s) \<Rightarrow> (Inl e, s)
      | (Inr r_idx, s) \<Rightarrow>
          case alloc_fd h PERM_WRITE s of
            (Inl e, s) \<Rightarrow> (Inl e, s)
          | (Inr w_idx, s) \<Rightarrow>
              let s = fd_set h w_idx (NOT 0) 0 FsIpc 0 (fd_set h r_idx (NOT 0) 0 FsIpc 0 s)
              in (Inr (fd_token r_idx (fd_epoch (fd_get h r_idx s)), fd_token w_idx (fd_epoch (fd_get h w_idx s))), s))"

text \<open>\<open>i64\<close> positions are 64-bit words read as signed numbers; the sums wrap.\<close>

definition lseek :: "nat \<Rightarrow> u64 \<Rightarrow> 64 word \<Rightarrow> u32 \<Rightarrow> kst \<Rightarrow> (errno + u32) \<times> kst" where
  "lseek h token off whence s =
     (case fd_check_perm h token PERM_SEEK s of
        Inl e \<Rightarrow> (Inl e, s)
      | Inr idx \<Rightarrow>
          let fd = fd_get h idx s in
          if whence \<noteq> 0 \<and> whence \<noteq> 1 \<and> whence \<noteq> 2 then (Inl EInval, s)
          else
            let new_pos :: 64 word = (if whence = 0 then off else if whence = 1 then ucast (fd_pos fd) + off
                                      else ucast (fd_size fd) + off) in
            if sint new_pos < 0 \<or> uint (fd_size fd) < sint new_pos then (Inl ERange, s)
            else (Inr (ucast new_pos), fd_update_pos h idx (ucast new_pos) s))"

definition vfs_read :: "backends \<Rightarrow> nat \<Rightarrow> u64 \<Rightarrow> u32 \<Rightarrow> kst \<Rightarrow> (errno + bytes) \<times> kst" where
  "vfs_read B h token len s =
     (case fd_check_perm h token PERM_READ s of
        Inl e \<Rightarrow> (Inl e, s)
      | Inr idx \<Rightarrow>
          let fd = fd_get h idx s;
              avail = (if fd_size fd < fd_pos fd then 0 else fd_size fd - fd_pos fd);
              to_read = min len avail
          in if to_read = 0 then (Inr [], s)
             else if fd_fs fd = FsNone then (Inl EInval, s)
             else case b_read B (fd_fs fd) (fd_ino fd) (fd_pos fd) to_read of
                    Inl e \<Rightarrow> (Inl e, s)
                  | Inr bs \<Rightarrow> (Inr bs, fd_update_pos h idx (fd_pos fd + of_nat (length bs)) s))"

definition vfs_write :: "backends \<Rightarrow> nat \<Rightarrow> u64 \<Rightarrow> bytes \<Rightarrow> kst \<Rightarrow> (errno + u32) \<times> kst" where
  "vfs_write B h token buf s =
     (case fd_check_perm h token PERM_WRITE s of
        Inl e \<Rightarrow> (Inl e, s)
      | Inr idx \<Rightarrow>
          let fd = fd_get h idx s in
          if fd_fs fd = FsProc then (Inl EPerm, s)
          else if fd_fs fd \<noteq> FsOnyx \<and> fd_fs fd \<noteq> FsIpc then (Inl ENoSys, s)
          else case b_write B (fd_fs fd) (fd_ino fd) buf (fd_pos fd) of
                 Inl e \<Rightarrow> (Inl e, s)
               | Inr written \<Rightarrow>
                   let new_pos = fd_pos fd + written;
                       s = fd_update_pos h idx new_pos s
                   in (Inr written,
                       if fd_size fd < new_pos then upd_fd h idx (\<lambda>x. x\<lparr>fd_size := new_pos\<rparr>) s else s))"

definition vfs_stat :: "nat \<Rightarrow> u64 \<Rightarrow> kst \<Rightarrow> errno + u32" where
  "vfs_stat h token s =
     (case fd_check h token s of Inl e \<Rightarrow> Inl e | Inr idx \<Rightarrow> Inr (fd_size (fd_get h idx s)))"

section \<open>Tables\<close>

lemma token_idx [simp]: "idx < VFS_MAX_FDS \<Longrightarrow> fd_token_idx (fd_token idx e) = idx"
proof -
  assume a: "idx < VFS_MAX_FDS"
  have "drop_bit 32 (ucast e :: u64) = 0"
    by (rule bit_eqI) (auto simp: bit_drop_bit_eq bit_ucast_iff dest: bit_imp_le_length)
  then have "drop_bit 32 (fd_token idx e) = take_bit 32 (of_nat idx)"
    by (simp add: fd_token_def drop_bit_push_bit) (rule bit_eqI, auto simp: bit_simps)
  then show ?thesis using a by (simp add: fd_token_idx_def VFS_MAX_FDS_def unat_take_bit_nat unat_of_nat take_bit_nat_eq_self)
qed

lemma token_epoch [simp]: "fd_token_epoch (fd_token idx e) = e"
  unfolding fd_token_epoch_def fd_token_def by (rule bit_word_eqI) (auto simp: bit_simps)

lemma upd_tab_pid [simp]: "current_pid h (upd_tab h f s) = current_pid h s" "current h (upd_tab h f s) = current h s"
  by (simp_all add: upd_tab_def upd_proc_def current_pid_def current_def Let_def)

lemma upd_fd_boot [simp]: "is_kernel_boot h (upd_fd h i f s) = is_kernel_boot h s"
  by (simp add: upd_fd_def is_kernel_boot_def)

lemma fd_tab_upd [simp]: "fd_tab h (upd_fd h i f s) = (fd_tab h s)[i := f (fd_tab h s ! i)]"
  by (simp add: fd_tab_def upd_fd_def is_kernel_boot_def) (simp add: upd_tab_def is_kernel_boot_def upd_proc_def)

lemma alloc_fd_cases:
  assumes "alloc_fd h perms s = (r, s')"
  obtains "r = Inl ENoMem" "s' = s"
  | i where "r = Inr i" "i < VFS_MAX_FDS" "\<not> fd_used (fd_tab h s ! i)" "is_kernel_boot h s \<or> 3 \<le> i"
      "s' = upd_fd h i (\<lambda>fd. fd\<lparr>fd_used := True, fd_perms := perms, fd_epoch := bump (fd_epoch fd)\<rparr>) s"
proof (cases "find (\<lambda>i. \<not> fd_used (fd_tab h s ! i)) [(if is_kernel_boot h s then 0 else 3)..<VFS_MAX_FDS]")
  case None
  then show ?thesis using assms that(1) by (simp add: alloc_fd_def)
next
  case (Some i)
  then have "\<not> fd_used (fd_tab h s ! i)" "i < VFS_MAX_FDS" "is_kernel_boot h s \<or> 3 \<le> i"
    by (auto simp: find_Some_iff split: if_splits)
  then show ?thesis using assms Some that(2) [of i] by (simp add: alloc_fd_def)
qed

section \<open>Operations as steps on the table\<close>

datatype fd_op =
    OpOpen bytes u32 | OpClose u64 | OpDup u64 | OpDup2 u64 u64 | OpPipe
  | OpSeek u64 u64 u32 | OpRead u64 u32 | OpWrite u64 bytes

fun run_op :: "backends \<Rightarrow> vfs_mounts \<Rightarrow> nat \<Rightarrow> fd_op \<Rightarrow> kst \<Rightarrow> kst" where
  "run_op B m h (OpOpen path perms) s = snd (vfs_open B m h path perms s)"
| "run_op B m h (OpClose token) s = snd (vfs_close h token s)"
| "run_op B m h (OpDup token) s = snd (dup h token s)"
| "run_op B m h (OpDup2 token n) s = snd (dup2 h token n s)"
| "run_op B m h OpPipe s = snd (create_pipe h s)"
| "run_op B m h (OpSeek token off whence) s = snd (lseek h token off whence s)"
| "run_op B m h (OpRead token len) s = snd (vfs_read B h token len s)"
| "run_op B m h (OpWrite token buf) s = snd (vfs_write B h token buf s)"

text \<open>What one operation may do to one slot: keep the epoch and not open it, or take it into the next epoch. \<open>wf\<close>
  says that an entry stays well-formed.\<close>

definition fd_wf :: "vfs_fd \<Rightarrow> bool" where
  "fd_wf fd \<longleftrightarrow> fd_pos fd \<le> fd_size fd \<and> (fd_used fd \<longrightarrow> fd_epoch fd \<noteq> 0)"

definition slot_step :: "vfs_fd \<Rightarrow> vfs_fd \<Rightarrow> bool" where
  "slot_step x y \<longleftrightarrow> (fd_epoch y = fd_epoch x \<and> (fd_used y \<longrightarrow> fd_used x) \<or> fd_epoch y = bump (fd_epoch x))
     \<and> (fd_wf x \<longrightarrow> fd_wf y)"

definition tab_step :: "vfs_fd list \<Rightarrow> vfs_fd list \<Rightarrow> bool" where
  "tab_step tab tab' \<longleftrightarrow> length tab' = length tab \<and> (\<forall>i<length tab. slot_step (tab ! i) (tab' ! i))"

definition fd_step :: "nat \<Rightarrow> kst \<Rightarrow> kst \<Rightarrow> bool" where
  "fd_step h s s' \<longleftrightarrow> is_kernel_boot h s' = is_kernel_boot h s \<and> tab_step (fd_tab h s) (fd_tab h s')"

lemma slot_step_refl [simp]: "slot_step x x" by (simp add: slot_step_def)

lemma fd_step_refl [simp]: "fd_step h s s" by (simp add: fd_step_def tab_step_def)

lemma fd_step_tab:
  assumes "is_kernel_boot h s' = is_kernel_boot h s" "fd_tab h s' = (fd_tab h s)[i := x]" "slot_step (fd_tab h s ! i) x"
  shows "fd_step h s s'"
proof -
  have "slot_step (fd_tab h s ! j) (((fd_tab h s)[i := x]) ! j)" if "j < length (fd_tab h s)" for j
    using that assms(3) by (cases "j = i") auto
  then show ?thesis unfolding fd_step_def tab_step_def assms(1,2) by simp
qed

lemma bump_nonzero: "bump e \<noteq> 0" by (simp add: bump_def)

lemma fd_check_Inr: "fd_check h token s = Inr i \<Longrightarrow> i < VFS_MAX_FDS \<and> fd_used (fd_tab h s ! i)"
  by (auto simp: fd_check_def fd_get_def Let_def split: if_splits)

lemma fd_check_perm_Inr: "fd_check_perm h token perm s = Inr i \<Longrightarrow> i < VFS_MAX_FDS \<and> fd_used (fd_tab h s ! i)"
  using fd_check_Inr by (auto simp: fd_check_perm_def split: sum.splits if_splits)

lemma alloc_set_step:
  assumes a: "alloc_fd h perms s = (Inr i, t)" and l: "length (fd_tab h s) = VFS_MAX_FDS" and p: "pos \<le> sz"
  shows "fd_step h s t" "fd_step h s (fd_set h i ino sz fs pos t)"
proof -
  let ?f = "\<lambda>fd. fd\<lparr>fd_used := True, fd_perms := perms, fd_epoch := bump (fd_epoch fd)\<rparr>"
  have i: "i < length (fd_tab h s)" and t: "t = upd_fd h i ?f s" using alloc_fd_cases [OF a] l by auto
  show "fd_step h s t" unfolding t
    by (rule fd_step_tab [OF upd_fd_boot fd_tab_upd]) (simp add: slot_step_def fd_wf_def bump_nonzero)
  show "fd_step h s (fd_set h i ino sz fs pos t)" unfolding t fd_set_def
    by (rule fd_step_tab [where i = i], simp, use i in simp, use p in \<open>simp add: slot_step_def fd_wf_def bump_nonzero\<close>)
qed

lemma alloc_fd_Inl: "alloc_fd h perms s = (Inl e, t) \<Longrightarrow> t = s \<and> e = ENoMem"
  by (auto simp: alloc_fd_def split: option.splits)

lemma open_step:
  assumes l: "length (fd_tab h s) = VFS_MAX_FDS"
  shows "fd_step h s (snd (vfs_open B m h path perms s))"
proof (cases "path = [] \<or> hd path \<noteq> 47")
  case False
  obtain r t where a: "alloc_fd h perms s = (r, t)" by (cases "alloc_fd h perms s")
  show ?thesis
  proof (cases r)
    case (Inl e)
    then show ?thesis using a False alloc_fd_Inl [OF a [unfolded Inl]] by (simp add: vfs_open_def)
  next
    case (Inr i)
    note st = alloc_set_step [OF a [unfolded Inr] l]
    show ?thesis
    proof (cases "open_lookup B m (tl path)")
      case (Inl e)
      then show ?thesis using a False Inr st(1) [of 0 0] by (simp add: vfs_open_def)
    next
      case Inr': (Inr f)
      obtain fs ino sz where f: "f = (fs, ino, sz)" by (cases f)
      show ?thesis using a False Inr Inr' st(2) [of 0 sz ino fs] by (simp add: vfs_open_def f Let_def)
    qed
  qed
qed (simp add: vfs_open_def)

lemma close_step: "fd_step h s (snd (vfs_close h token s))"
proof (cases "fd_check h token s")
  case (Inr i)
  have "fd_step h s (fd_clear h i s)" unfolding fd_clear_def
    by (rule fd_step_tab [OF upd_fd_boot fd_tab_upd]) (simp add: slot_step_def fd_wf_def)
  then show ?thesis using Inr by (simp add: vfs_close_def)
qed (simp add: vfs_close_def)

lemma dup_step:
  assumes l: "length (fd_tab h s) = VFS_MAX_FDS" and wf: "\<forall>fd\<in>set (fd_tab h s). fd_wf fd"
  shows "fd_step h s (snd (dup h token s))"
proof (cases "fd_check h token s")
  case (Inr i)
  let ?fd = "fd_tab h s ! i"
  have p: "fd_pos ?fd \<le> fd_size ?fd" using wf fd_check_Inr [OF Inr] l by (auto simp: fd_wf_def)
  obtain r t where a: "alloc_fd h (fd_perms ?fd) s = (r, t)" by (cases "alloc_fd h (fd_perms ?fd) s")
  show ?thesis
  proof (cases r)
    case (Inl e)
    then show ?thesis using a Inr alloc_fd_Inl [OF a [unfolded Inl]] by (simp add: dup_def fd_get_def)
  next
    case Inr': (Inr j)
    show ?thesis using a Inr Inr' alloc_set_step(2) [OF a [unfolded Inr'] l p] by (simp add: dup_def fd_get_def Let_def)
  qed
qed (simp add: dup_def)

lemma dup2_step:
  assumes l: "length (fd_tab h s) = VFS_MAX_FDS" and wf: "\<forall>fd\<in>set (fd_tab h s). fd_wf fd"
  shows "fd_step h s (snd (dup2 h token n s))"
proof (cases "fd_check h token s")
  case (Inr i)
  let ?fd = "fd_tab h s ! i"
  have p: "fd_pos ?fd \<le> fd_size ?fd" using wf fd_check_Inr [OF Inr] l by (auto simp: fd_wf_def)
  have "fd_step h s (upd_fd h (unat n) (\<lambda>x. x\<lparr>fd_used := True, fd_perms := fd_perms ?fd, fd_epoch := bump (fd_epoch x),
    fd_ino := fd_ino ?fd, fd_size := fd_size ?fd, fd_fs := fd_fs ?fd, fd_pos := fd_pos ?fd\<rparr>) s)"
    by (rule fd_step_tab [OF upd_fd_boot fd_tab_upd]) (use p in \<open>simp add: slot_step_def fd_wf_def bump_nonzero\<close>)
  then show ?thesis using Inr by (simp add: dup2_def fd_get_def Let_def)
qed (simp add: dup2_def)

lemma pipe_step:
  assumes l: "length (fd_tab h s) = VFS_MAX_FDS"
  shows "fd_step h s (snd (create_pipe h s))"
proof -
  let ?f = "\<lambda>p fd. fd\<lparr>fd_used := True, fd_perms := p, fd_epoch := bump (fd_epoch fd)\<rparr>"
  obtain r t where a: "alloc_fd h PERM_READ s = (r, t)" by (cases "alloc_fd h PERM_READ s")
  show ?thesis
  proof (cases r)
    case (Inl e)
    then show ?thesis using a alloc_fd_Inl [OF a [unfolded Inl]] by (simp add: create_pipe_def)
  next
    case (Inr i)
    have st: "fd_step h s t" using alloc_set_step(1) [OF a [unfolded Inr] l, of 0 0] by simp
    have i: "i < length (fd_tab h s)" and t: "t = upd_fd h i (?f PERM_READ) s" using alloc_fd_cases [OF a] Inr l by auto
    have used: "fd_used (fd_tab h t ! i)" using i by (simp add: t)
    obtain r' u where b: "alloc_fd h PERM_WRITE t = (r', u)" by (cases "alloc_fd h PERM_WRITE t")
    show ?thesis
    proof (cases r')
      case (Inl e)
      then show ?thesis using a b Inr st alloc_fd_Inl [OF b [unfolded Inl]] by (simp add: create_pipe_def)
    next
      case Inr': (Inr j)
      have lt: "length (fd_tab h t) = VFS_MAX_FDS" using l by (simp add: t)
      have j: "j < length (fd_tab h s)" "\<not> fd_used (fd_tab h t ! j)" and u: "u = upd_fd h j (?f PERM_WRITE) t"
        using alloc_fd_cases [OF b] Inr' l by auto
      have ij: "i \<noteq> j" using used j(2) by auto
      let ?v = "fd_set h j (NOT 0) 0 FsIpc 0 (fd_set h i (NOT 0) 0 FsIpc 0 u)"
      have "slot_step (fd_tab h s ! k) (fd_tab h ?v ! k)" if "k < length (fd_tab h s)" for k
        using that i j ij by (cases "k = i"; cases "k = j")
          (simp_all add: t u fd_set_def slot_step_def fd_wf_def bump_nonzero)
      then have "fd_step h s ?v" by (simp add: fd_step_def tab_step_def t u fd_set_def)
      then show ?thesis using a b Inr Inr' by (simp add: create_pipe_def Let_def)
    qed
  qed
qed

lemma pos_step:
  assumes "fd_tab h s ! i = fd" "fd_wf fd \<Longrightarrow> pos \<le> fd_size fd"
  shows "fd_step h s (fd_update_pos h i pos s)"
  unfolding fd_update_pos_def
  by (rule fd_step_tab [OF upd_fd_boot fd_tab_upd]) (use assms in \<open>auto simp: slot_step_def fd_wf_def\<close>)

lemma lseek_step: "fd_step h s (snd (lseek h token off whence s))"
proof (cases "fd_check_perm h token PERM_SEEK s")
  case (Inr i)
  have "ucast x \<le> fd_size fd" if "\<not> sint x < 0" "\<not> uint (fd_size fd) < sint x" for x :: u64 and fd
  proof -
    have "uint (ucast x :: u32) = take_bit 32 (uint x)" by (simp add: unsigned_ucast_eq)
    also have "\<dots> = take_bit 32 (sint x)" by (subst uint_sint) simp
    also have "\<dots> \<le> sint x" using that(1) by (simp add: take_bit_int_less_eq_self_iff)
    finally show ?thesis using that(2) by (simp add: word_le_def)
  qed
  note le = this
  show ?thesis unfolding lseek_def Let_def fd_get_def
    using Inr le by (auto intro!: pos_step [OF refl])
qed (simp add: lseek_def)

text \<open>What the descriptor layer relies on: a file system returns no more bytes than it was asked for.\<close>

definition reads_within :: "backends \<Rightarrow> bool" where
  "reads_within B \<longleftrightarrow> (\<forall>fs ino pos n bs. b_read B fs ino pos n = Inr bs \<longrightarrow> length bs \<le> unat n)"

lemma read_pos:
  fixes pos size n :: u32
  assumes "pos \<le> size" "k \<le> unat n" "n \<le> size - pos"
  shows "pos + of_nat k \<le> size"
proof -
  have "unat (of_nat k :: u32) = k" using assms(2) unsigned_less [where 'a = nat, of n] by (simp add: unat_of_nat)
  moreover have "unat pos + k \<le> unat size" using assms by (simp add: word_le_nat_alt unat_sub)
  ultimately show ?thesis
    using unsigned_less [where 'a = nat, of size] by (simp add: word_le_nat_alt unat_word_ariths)
qed

lemma read_step:
  assumes B: "reads_within B"
  shows "fd_step h s (snd (vfs_read B h token len s))"
proof (cases "fd_check_perm h token PERM_READ s")
  case (Inr i)
  let ?fd = "fd_tab h s ! i"
  have "fd_step h s (fd_update_pos h i (fd_pos ?fd + of_nat (length bs)) s)"
    if "b_read B (fd_fs ?fd) (fd_ino ?fd) (fd_pos ?fd) (min len (fd_size ?fd - fd_pos ?fd)) = Inr bs" for bs
  proof (rule pos_step [OF refl])
    assume "fd_wf ?fd"
    then show "fd_pos ?fd + of_nat (length bs) \<le> fd_size ?fd"
      using B that by (intro read_pos [of _ _ _ "min len (fd_size ?fd - fd_pos ?fd)"]) (auto simp: reads_within_def fd_wf_def)
  qed
  then show ?thesis using Inr by (auto simp: vfs_read_def fd_get_def Let_def split: sum.split)
qed (simp add: vfs_read_def)

lemma write_step: "fd_step h s (snd (vfs_write B h token buf s))"
proof (cases "fd_check_perm h token PERM_WRITE s")
  case (Inr i)
  let ?fd = "fd_tab h s ! i"
  have il: "i < length (fd_tab h s) \<or> length (fd_tab h s) \<le> i" by auto
  have "fd_step h s (upd_fd h i (\<lambda>x. x\<lparr>fd_size := pos\<rparr>) (fd_update_pos h i pos s))" for pos
    unfolding fd_update_pos_def using il
  proof
    assume "i < length (fd_tab h s)"
    then show "fd_step h s (upd_fd h i (\<lambda>x. x\<lparr>fd_size := pos\<rparr>) (upd_fd h i (\<lambda>x. x\<lparr>fd_pos := pos\<rparr>) s))"
      by (intro fd_step_tab [where i = i and x = "?fd\<lparr>fd_pos := pos, fd_size := pos\<rparr>"]) (auto simp: slot_step_def fd_wf_def)
  next
    assume "length (fd_tab h s) \<le> i"
    then show "fd_step h s (upd_fd h i (\<lambda>x. x\<lparr>fd_size := pos\<rparr>) (upd_fd h i (\<lambda>x. x\<lparr>fd_pos := pos\<rparr>) s))"
      by (intro fd_step_tab [where i = i and x = ?fd]) (auto simp: list_update_beyond)
  qed
  moreover have "fd_step h s (fd_update_pos h i pos s)" if "\<not> fd_size ?fd < pos" for pos
    using that by (intro pos_step [OF refl]) (simp add: not_less)
  ultimately show ?thesis using Inr by (auto simp: vfs_write_def fd_get_def Let_def split: sum.split)
qed (simp add: vfs_write_def)

definition fds_ok :: "nat \<Rightarrow> kst \<Rightarrow> bool" where
  "fds_ok h s \<longleftrightarrow> length (fd_tab h s) = VFS_MAX_FDS \<and> (\<forall>fd\<in>set (fd_tab h s). fd_wf fd)"

lemma run_op_step:
  assumes "fds_ok h s" "reads_within B"
  shows "fd_step h s (run_op B m h op s)"
  using assms open_step close_step dup_step dup2_step pipe_step lseek_step read_step write_step
  by (cases op) (simp_all add: fds_ok_def)

lemma fd_step_ok:
  assumes "fds_ok h s" "fd_step h s s'"
  shows "fds_ok h s'"
proof -
  have "fd_wf (fd_tab h s' ! i)" if "i < VFS_MAX_FDS" for i
    using assms that by (auto simp: fds_ok_def fd_step_def tab_step_def slot_step_def)
  then show ?thesis using assms by (auto simp: fds_ok_def fd_step_def tab_step_def set_conv_nth)
qed

definition run_ops :: "backends \<Rightarrow> vfs_mounts \<Rightarrow> nat \<Rightarrow> fd_op list \<Rightarrow> kst \<Rightarrow> kst" where
  "run_ops B m h ops s = fold (run_op B m h) ops s"

lemma run_ops_ok: "fds_ok h s \<Longrightarrow> reads_within B \<Longrightarrow> fds_ok h (run_ops B m h ops s)"
  unfolding run_ops_def by (induction ops arbitrary: s) (auto intro: fd_step_ok run_op_step)

section \<open>Epochs\<close>

lemma bump_iter:
  assumes "e \<noteq> 0"
  shows "unat ((bump ^^ n) e) = (unat e - 1 + n) mod (2 ^ 32 - 1) + 1"
proof (induction n)
  case 0
  have "0 < unat e" "unat e < 2 ^ 32" using assms unsigned_less [where 'a = nat, of e] by (auto simp: unat_gt_0)
  then show ?case by simp
next
  case (Suc n)
  let ?x = "(bump ^^ n) e"
  have b: "unat (bump x) = (if unat x = 2 ^ 32 - 1 then 1 else unat x + 1)" for x
    using unsigned_less [where 'a = nat, of x]
    by (auto simp: bump_def unat_word_ariths word_unat_eq_iff split: if_splits)
  show ?case using Suc.IH b [of ?x] by (simp add: mod_Suc)
qed

lemma bump_fresh: "e \<noteq> 0 \<Longrightarrow> 0 < n \<Longrightarrow> n < 2 ^ 32 - 1 \<Longrightarrow> (bump ^^ n) e \<noteq> e"
proof
  assume a: "e \<noteq> 0" "0 < n" "n < 2 ^ 32 - 1" "(bump ^^ n) e = e"
  have e: "0 < unat e" "unat e < 2 ^ 32" using a(1) unsigned_less [where 'a = nat, of e] by (auto simp: unat_gt_0)
  have "(unat e - 1 + n) mod (2 ^ 32 - 1) = unat e - 1" using bump_iter [OF a(1), of n] a(4) e by simp
  then show False using a(2,3) e by (auto simp: mod_if split: if_splits)
qed

text \<open>A closed slot after some operations: still closed, or reopened in a later epoch.\<close>

definition later :: "u32 \<Rightarrow> nat \<Rightarrow> vfs_fd \<Rightarrow> bool" where
  "later e n x \<longleftrightarrow> (\<exists>k\<le>n. fd_epoch x = (bump ^^ k) e \<and> (fd_used x \<longrightarrow> 0 < k))"

lemma later_step: "later e n x \<Longrightarrow> slot_step x y \<Longrightarrow> later e (Suc n) y"
  unfolding later_def slot_step_def
  by (elim exE conjE disjE) (metis le_SucI, metis Suc_le_mono funpow.simps(2) o_apply zero_less_Suc)

lemma later_run:
  assumes "fds_ok h s" "reads_within B" "i < VFS_MAX_FDS" "later e n (fd_tab h s ! i)"
  shows "later e (n + length ops) (fd_tab h (run_ops B m h ops s) ! i)"
  using assms
proof (induction ops arbitrary: s n)
  case (Cons op ops)
  let ?s = "run_op B m h op s"
  have st: "fd_step h s ?s" using Cons.prems by (intro run_op_step)
  have "later e (Suc n) (fd_tab h ?s ! i)"
    using later_step [OF Cons.prems(4)] st Cons.prems(1,3) by (simp add: fd_step_def tab_step_def fds_ok_def)
  then show ?case
    using Cons.IH [of ?s "Suc n"] fd_step_ok [OF Cons.prems(1) st] Cons.prems by (simp add: run_ops_def)
qed (simp add: run_ops_def)

lemma open_token:
  assumes l: "length (fd_tab h s) = VFS_MAX_FDS" and o: "vfs_open B m h path perms s = (Inr token, t)"
  shows "\<exists>i fs ino sz. open_lookup B m (tl path) = Inr (fs, ino, sz) \<and> fd_check h token t = Inr i
    \<and> fd_get h i t = \<lparr>fd_ino = ino, fd_size = sz, fd_pos = 0, fd_fs = fs, fd_used = True, fd_perms = perms,
         fd_epoch = fd_token_epoch token\<rparr>"
proof -
  obtain i u where a: "alloc_fd h perms s = (Inr i, u)"
    using o by (auto simp: vfs_open_def split: if_splits prod.splits sum.splits)
  obtain fs ino sz where f: "open_lookup B m (tl path) = Inr (fs, ino, sz)"
    using o a by (auto simp: vfs_open_def split: if_splits sum.splits)
  have t: "t = fd_set h i ino sz fs 0 u" "token = fd_token i (fd_epoch (fd_get h i t))"
    using o a f by (auto simp: vfs_open_def Let_def split: if_splits)
  have i: "i < VFS_MAX_FDS" and u: "u = upd_fd h i (\<lambda>fd. fd\<lparr>fd_used := True, fd_perms := perms, fd_epoch := bump (fd_epoch fd)\<rparr>) s"
    using alloc_fd_cases [OF a] by auto
  have g: "fd_get h i t = \<lparr>fd_ino = ino, fd_size = sz, fd_pos = 0, fd_fs = fs, fd_used = True, fd_perms = perms,
      fd_epoch = bump (fd_epoch (fd_tab h s ! i))\<rparr>"
    using i l by (simp add: t(1) u fd_get_def fd_set_def)
  have "fd_check h token t = Inr i" using i g by (simp add: fd_check_def t(2))
  then show ?thesis using f g t(2) by auto
qed

lemma closed_later:
  assumes ok: "fds_ok h s" and c: "fd_check h token s = Inr i"
  shows "later (fd_token_epoch token) 0 (fd_tab h (snd (vfs_close h token s)) ! i)" "i < VFS_MAX_FDS"
    "i = fd_token_idx token" "fd_token_epoch token \<noteq> 0"
proof -
  show i: "i < VFS_MAX_FDS" "i = fd_token_idx token"
    using c by (auto simp: fd_check_def Let_def split: if_splits)
  have e: "fd_epoch (fd_tab h s ! i) = fd_token_epoch token" "fd_used (fd_tab h s ! i)"
    using c by (auto simp: fd_check_def fd_get_def Let_def split: if_splits)
  have il: "i < length (fd_tab h s)" using ok i(1) by (simp add: fds_ok_def)
  then show "later (fd_token_epoch token) 0 (fd_tab h (snd (vfs_close h token s)) ! i)"
    using c e by (simp add: vfs_close_def fd_clear_def later_def)
  show "fd_token_epoch token \<noteq> 0" using ok e il nth_mem [OF il] by (auto simp: fds_ok_def fd_wf_def)
qed

text \<open>C39: The descriptor table keeps its type under every sequence of descriptor operations (open, close, dup, dup2, pipe,
  lseek, read, write, failed ones included): it has sixteen entries, the position of an entry never passes its size, and
  an open entry has a non-zero epoch. The file systems are only assumed to return no more bytes than requested.\<close>

theorem fd_table_invariant:
  assumes "fds_ok h s" "reads_within B"
  shows "length (fd_tab h (run_ops B m h ops s)) = VFS_MAX_FDS \<and>
    (\<forall>fd\<in>set (fd_tab h (run_ops B m h ops s)).
       fd_pos fd \<le> fd_size fd \<and> (fd_used fd \<longrightarrow> fd_epoch fd \<noteq> 0))"
  using run_ops_ok [OF assms, of m ops] unfolding fds_ok_def fd_wf_def .

text \<open>C7: A token is a capability for one open file. The token \<open>open\<close> returns is accepted and its entry holds the inode and
  size the lookup found, position 0 and the requested permissions. Once a token has been closed it is
  rejected with \<open>BadFd\<close>, whatever fewer than \<open>2^32 - 1\<close> operations follow and even if its slot is opened again: the epochs of a slot
  do not repeat earlier.\<close>

theorem token_lifetime:
  assumes "fds_ok h s" "reads_within B"
  shows "(\<forall>path perms token t. vfs_open B m h path perms s = (Inr token, t) \<longrightarrow>
       (\<exists>i fs ino sz. open_lookup B m (tl path) = Inr (fs, ino, sz) \<and> fd_check h token t = Inr i
          \<and> fd_get h i t = \<lparr>fd_ino = ino, fd_size = sz, fd_pos = 0, fd_fs = fs, fd_used = True, fd_perms = perms,
               fd_epoch = fd_token_epoch token\<rparr>))
    \<and> (\<forall>token i ops. fd_check h token s = Inr i \<and> length ops < 2 ^ 32 - 1 \<longrightarrow>
         fd_check h token (run_ops B m h ops (snd (vfs_close h token s))) = Inl EBadFd)"
proof (intro conjI allI impI)
  show "\<exists>i fs ino sz. open_lookup B m (tl path) = Inr (fs, ino, sz) \<and> fd_check h token t = Inr i
      \<and> fd_get h i t = \<lparr>fd_ino = ino, fd_size = sz, fd_pos = 0, fd_fs = fs, fd_used = True, fd_perms = perms,
           fd_epoch = fd_token_epoch token\<rparr>"
    if "vfs_open B m h path perms s = (Inr token, t)" for path perms token t
    using open_token [OF _ that] assms(1) by (simp add: fds_ok_def)
  fix token i and ops :: "fd_op list"
  assume "fd_check h token s = Inr i \<and> length ops < 2 ^ 32 - 1"
  then have c: "fd_check h token s = Inr i" and n: "length ops < 2 ^ 32 - 1" by auto
  let ?s = "snd (vfs_close h token s)" let ?x = "fd_tab h (run_ops B m h ops ?s) ! i"
  note cl = closed_later [OF assms(1) c]
  have "later (fd_token_epoch token) (0 + length ops) ?x"
    by (rule later_run [OF fd_step_ok [OF assms(1) close_step] assms(2) cl(2,1)])
  then have "fd_used ?x \<longrightarrow> fd_epoch ?x \<noteq> fd_token_epoch token"
    using bump_fresh [OF cl(4)] n unfolding later_def by (metis add_0 order.strict_trans1)
  then show "fd_check h token (run_ops B m h ops ?s) = Inl EBadFd"
    using cl(3) by (auto simp: fd_check_def fd_get_def Let_def)
qed

text \<open>A failed lookup leaves the slot that \<open>open\<close> took in use, although no token for it is returned.\<close>

lemma failed_open_leaks_slot:
  assumes l: "length (fd_tab h s) = VFS_MAX_FDS" and a: "alloc_fd h perms s = (Inr i, u)"
    and p: "path \<noteq> []" "hd path = 47" and f: "open_lookup B m (tl path) = Inl e"
  shows "\<exists>t. vfs_open B m h path perms s = (Inl e, t) \<and> \<not> fd_used (fd_get h i s) \<and> fd_used (fd_get h i t)"
proof -
  have i: "i < VFS_MAX_FDS" "\<not> fd_used (fd_tab h s ! i)"
    and u: "u = upd_fd h i (\<lambda>fd. fd\<lparr>fd_used := True, fd_perms := perms, fd_epoch := bump (fd_epoch fd)\<rparr>) s"
    using alloc_fd_cases [OF a] by auto
  then show ?thesis using a p f l by (auto simp: vfs_open_def fd_get_def)
qed

definition demo_backends :: backends where
  "demo_backends = \<lparr>b_lookup = (\<lambda>fs p. if p = [] then Inl ENoEnt else Inr (7, 100)),
     b_read = (\<lambda>fs ino pos n. Inr (replicate (min 4 (unat n)) 65)),
     b_write = (\<lambda>fs ino bs pos. Inr (of_nat (length bs)))\<rparr>"

lemma demo_backends_ok: "reads_within demo_backends"
  by (simp add: reads_within_def demo_backends_def)

lemma kst0_fds: "fds_ok 0 kst0"
  by (simp add: fds_ok_def fd_tab_def is_kernel_boot_def current_pid_def kst0_def VFS_MAX_FDS_def fd_wf_def default_fd_def)

theorem fd_table_invariant_witness:
  "length (fd_tab 0 (run_ops demo_backends no_mounts 0 [OpOpen [47, 97] PERM_READ, OpPipe, OpClose (fd_token 0 1)] kst0)) = 16"
  using fd_table_invariant [OF kst0_fds demo_backends_ok, of no_mounts "[OpOpen [47, 97] PERM_READ, OpPipe, OpClose (fd_token 0 1)]"]
  by (simp add: VFS_MAX_FDS_def)

text \<open>The boot kernel has slot 0 open, closes it and opens it again: the first token is dead.\<close>

definition kst_open :: kst where
  "kst_open = kst0\<lparr>k_kernel_fds := default_fd\<lparr>fd_used := True, fd_perms := PERM_READ, fd_fs := FsOnyx, fd_size := 100,
     fd_epoch := 1\<rparr> # replicate 15 default_fd\<rparr>"

lemma kst_open_ok: "fds_ok 0 kst_open" "fd_check 0 (fd_token 0 1) kst_open = Inr 0"
  by (simp_all add: fds_ok_def fd_tab_def fd_check_def fd_get_def is_kernel_boot_def current_pid_def kst_open_def kst0_def
      VFS_MAX_FDS_def fd_wf_def default_fd_def token_idx [unfolded VFS_MAX_FDS_def])

theorem token_lifetime_witness:
  "fd_check 0 (fd_token 0 1) (run_ops demo_backends no_mounts 0 [OpOpen [47, 97] PERM_READ, OpPipe]
     (snd (vfs_close 0 (fd_token 0 1) kst_open))) = Inl EBadFd"
  using token_lifetime [OF kst_open_ok(1) demo_backends_ok, of no_mounts] kst_open_ok(2) by simp

end
