(* ===== verification/Lifecycle.thy ===== *)
theory Lifecycle
  imports Sched Vfs_Fd
begin

text \<open>
  The life of a process: \<open>proc/lifecycle.rs\<close> and the creation and reaping functions of \<open>proc/spawn.rs\<close>. The
  outcome of \<open>kmalloc\<close> is an argument of \<open>alloc_proc\<close>; releasing the memory of a process node has no effect on the
  state, which keeps only live nodes reachable. Log lines are left out. The list of all processes is described by
  \<open>all_ok\<close>; on it every traversal ends.
\<close>

definition SSTATUS_SPIE :: u64 where "SSTATUS_SPIE = push_bit 5 1"

text \<open>What \<open>write_bytes(p, 0, size_of::<Proc>())\<close> leaves.\<close>

definition zero_proc :: proc where
  "zero_proc = \<lparr>p_pid = 0, p_ring = 0, p_state = PFree, p_parent_pid = 0, p_exit_code = 0,
     p_root_pa = 0, p_entry = 0, p_ustack = 0, p_heap_brk = 0, p_mmap_brk = 0,
     p_cwd = replicate 256 0, p_cwd_len = 0, p_uid = 0, p_gid = 0, p_tf = zero_frame,
     p_kstack_tf = zero_frame, p_pending_signals = 0, p_signal_mask = 0,
     p_signal_handlers = replicate 32 0, p_saved_tf = zero_frame, p_in_signal_handler = False,
     p_fds = replicate PROC_MAX_FDS default_fd, p_all_next = 0, p_next = 0, p_wait_next = 0,
     p_affinity = 0, p_on_rq = False\<rparr>"

definition alloc_proc :: "(errno + ptr) \<Rightarrow> kst \<Rightarrow> (errno + ptr) \<times> kst" where
  "alloc_proc kmalloc s =
     (case kmalloc of
        Inl e \<Rightarrow> (Inl e, s)
      | Inr p \<Rightarrow>
          (Inr p, s\<lparr>k_procs := (k_procs s)(p := zero_proc\<lparr>
             p_pid := 0, p_ring := PROC_RING_KERNEL, p_state := PFree, p_parent_pid := 0, p_exit_code := 0,
             p_root_pa := 0, p_entry := 0, p_ustack := 0, p_heap_brk := 0, p_mmap_brk := 0x30000000,
             p_uid := 0, p_gid := 0, p_tf := zero_frame, p_pending_signals := 0, p_signal_mask := 0,
             p_signal_handlers := replicate 32 0, p_saved_tf := zero_frame, p_in_signal_handler := False,
             p_fds := replicate PROC_MAX_FDS default_fd, p_wait_next := 0, p_all_next := k_all s\<rparr>),
           k_all := p\<rparr>))"

definition free_proc :: "ptr \<Rightarrow> kst \<Rightarrow> kst option" where
  "free_proc p s =
     (if k_all s = p then Some (s\<lparr>k_all := p_all_next (k_procs s p)\<rparr>)
      else case chain_find (\<lambda>c. p_all_next (k_procs s c)) (\<lambda>c. p_all_next (k_procs s c) = p) (k_all s) of
             None \<Rightarrow> None
           | Some cur \<Rightarrow>
               Some (if cur \<noteq> 0 then upd_proc cur (\<lambda>x. x\<lparr>p_all_next := p_all_next (k_procs s p)\<rparr>) s else s))"

definition create_user :: "(errno + ptr) \<Rightarrow> nat \<Rightarrow> u64 \<Rightarrow> u64 \<Rightarrow> u64 \<Rightarrow> u32 \<Rightarrow> u32 \<Rightarrow> u64 \<Rightarrow> u8 \<Rightarrow> u64 \<Rightarrow> u64 \<Rightarrow>
    kst \<Rightarrow> (errno + unit) \<times> kst" where
  "create_user kmalloc h entry ustack root_pa pid parent_pid heap_brk ring argc argv_sp s =
     (if entry = 0 then (Inl EInval, s)
      else case alloc_proc kmalloc s of
        (Inl e, s) \<Rightarrow> (Inl e, s)
      | (Inr p, s) \<Rightarrow>
          let uid = (if ring \<le> PROC_RING_ROOT then 0 else 1000);
              s = upd_proc p (\<lambda>x. x\<lparr>p_pid := pid, p_ring := ring, p_state := PReady, p_parent_pid := parent_pid,
                    p_exit_code := 0, p_root_pa := root_pa, p_entry := entry, p_ustack := ustack,
                    p_heap_brk := heap_brk, p_uid := uid, p_gid := uid,
                    p_tf := zero_frame\<lparr>tf_sepc := entry, tf_sp := if argc > 0 then argv_sp else ustack, tf_a0 := argc,
                      tf_a1 := if argc > 0 then argv_sp + 8 else 0, tf_sstatus := SSTATUS_SPIE,
                      tf_satp := SATP_MODE_SV39 OR drop_bit 12 root_pa\<rparr>,
                    p_pending_signals := 0, p_signal_mask := 0\<rparr>) s
          in (Inr (), enqueue h p s))"

text \<open>\<open>enter_user\<close> halts when the process does not exist; otherwise it drops to user mode with the entry point,
  the stack and the root page table of the process.\<close>

definition enter_user :: "nat \<Rightarrow> u32 \<Rightarrow> kst \<Rightarrow> ((u64 \<times> u64 \<times> u64) option \<times> kst) option" where
  "enter_user h pid s =
     (case chain_find (\<lambda>p. p_all_next (k_procs s p))
             (\<lambda>p. p_pid (k_procs s p) = pid \<and> p_state (k_procs s p) \<noteq> PFree) (k_all s) of
        None \<Rightarrow> None
      | Some p \<Rightarrow>
          if p = 0 then Some (None, s)
          else
            let s = set_current_for_hart h p (upd_proc p (\<lambda>x. x\<lparr>p_state := PRunning\<rparr>) s); x = k_procs s p
            in Some (Some (p_entry x, p_ustack x, p_root_pa x), s))"

definition close_all :: "nat \<Rightarrow> ptr \<Rightarrow> kst \<Rightarrow> kst" where
  "close_all h p s =
     fold (\<lambda>i s. let fd = p_fds (k_procs s p) ! i in
             if fd_used fd then snd (vfs_close h (fd_token i (fd_epoch fd)) s) else s)
       [0..<length (p_fds (k_procs s p))] s"

partial_function (option) reparent :: "u32 \<Rightarrow> ptr \<Rightarrow> kst \<Rightarrow> kst option" where
  "reparent pid cur s =
     (if cur = 0 then Some s
      else
        let x = k_procs s cur;
            s = (if p_parent_pid x = pid \<and> p_state x \<noteq> PFree \<and> p_state x \<noteq> PExited
                 then upd_proc cur (\<lambda>x. x\<lparr>p_parent_pid := 1\<rparr>) s else s)
        in reparent pid (p_all_next (k_procs s cur)) s)"

definition wake_parent :: "nat \<Rightarrow> u32 \<Rightarrow> kst \<Rightarrow> kst option" where
  "wake_parent h parent s =
     (if parent = 0 then Some s
      else case by_pid parent s of
             None \<Rightarrow> None
           | Some pp \<Rightarrow>
               Some (if pp \<noteq> 0 \<and> p_state (k_procs s pp) = PWaiting
                     then enqueue h pp (upd_proc pp (\<lambda>x. x\<lparr>p_state := PReady\<rparr>) s) else s))"

definition proc_exit :: "nat \<Rightarrow> u32 \<Rightarrow> u32 \<Rightarrow> kst \<Rightarrow> kst option" where
  "proc_exit h pid code s =
     (case by_pid pid s of
        None \<Rightarrow> None
      | Some p \<Rightarrow>
          if p = 0 then Some s
          else
            let s = close_all h p s;
                s = s\<lparr>k_mm := destroy_root (p_root_pa (k_procs s p)) (k_mm s)\<rparr>;
                s = upd_proc p (\<lambda>x. x\<lparr>p_exit_code := code, p_state := PExited\<rparr>) s
            in case wake_parent h (p_parent_pid (k_procs s p)) s of
                 None \<Rightarrow> None
               | Some s \<Rightarrow> reparent pid (k_all s) s)"

partial_function (option) count_from :: "kst \<Rightarrow> nat \<Rightarrow> ptr \<Rightarrow> nat option" where
  "count_from s n cur =
     (if cur = 0 then Some n
      else count_from s (if p_state (k_procs s cur) \<noteq> PFree then n + 1 else n) (p_next (k_procs s cur)))"

definition proc_count :: "kst \<Rightarrow> nat option" where
  "proc_count s = count_from s 0 (k_all s)"

text \<open>\<open>wait\<close>: the status word written through \<open>status_out\<close> is part of the result; the last case is the
  call of \<open>sched_yield\<close>, after which the code returns \<open>NoEnt\<close> if control comes back.\<close>

datatype wait_out = WaitRet "errno + (u32 \<times> u32)" | WaitYield sched_out

definition wait :: "nat \<Rightarrow> trap_frame \<Rightarrow> kst \<Rightarrow> (wait_out \<times> kst) option" where
  "wait h tf s =
     (let my_pid = current_pid h s; nxt = (\<lambda>p. p_all_next (k_procs s p)) in
      case chain_find nxt (\<lambda>p. p_parent_pid (k_procs s p) = my_pid \<and> p_state (k_procs s p) = PExited) (k_all s) of
        None \<Rightarrow> None
      | Some p \<Rightarrow>
          if p \<noteq> 0 then
            map_option (Pair (WaitRet (Inr (p_pid (k_procs s p), p_exit_code (k_procs s p))))) (free_proc p s)
          else
            case chain_find nxt (\<lambda>p. p_parent_pid (k_procs s p) = my_pid \<and> p_state (k_procs s p) \<noteq> PFree) (k_all s) of
              None \<Rightarrow> None
            | Some c \<Rightarrow>
                if c = 0 then Some (WaitRet (Inl ENoEnt), s)
                else
                  let cur = current_for_hart h s;
                      s = (if cur \<noteq> 0 then upd_proc cur (\<lambda>x. x\<lparr>p_state := PWaiting\<rparr>) s else s);
                      (out, s) = sched_yield h tf s
                  in Some (if out = SchedReturns then WaitRet (Inl ENoEnt) else WaitYield out, s))"

section \<open>The list of all processes\<close>

abbreviation all_next_of :: "kst \<Rightarrow> ptr \<Rightarrow> ptr" where
  "all_next_of s \<equiv> \<lambda>p. p_all_next (k_procs s p)"

definition all_ok :: "kst \<Rightarrow> ptr list \<Rightarrow> bool" where
  "all_ok s ps \<longleftrightarrow> chain (all_next_of s) (k_all s) ps \<and> distinct ps"

definition first_or_null :: "(ptr \<Rightarrow> bool) \<Rightarrow> ptr list \<Rightarrow> ptr" where
  "first_or_null P ps = (case find P ps of None \<Rightarrow> 0 | Some p \<Rightarrow> p)"

lemma by_pid_list:
  assumes "all_ok s ps"
  shows "by_pid pid s = Some (first_or_null (\<lambda>p. p_pid (k_procs s p) = pid \<and> p_state (k_procs s p) \<noteq> PFree) ps)"
  using assms chain_find_chain by (simp add: by_pid_def all_ok_def first_or_null_def)

lemma first_or_null_cong: "(\<And>p. p \<in> set ps \<Longrightarrow> P p = Q p) \<Longrightarrow> first_or_null P ps = first_or_null Q ps"
  unfolding first_or_null_def by (metis find_cong)

lemma first_or_null_Some:
  assumes "first_or_null P ps = p" "p \<noteq> 0"
  shows "p \<in> set ps" "P p"
  using assms by (auto simp: first_or_null_def find_Some_iff split: option.splits)

text \<open>Creating a process puts it at the head of the list, Ready, in the run queue of the hart, and pinned to hart 0:
  \<open>alloc_proc\<close> clears \<open>affinity\<close>, and 0 is a hart number, not ``any''.\<close>

lemma create_user_ok:
  assumes "all_ok s ps" "p \<noteq> 0" "p \<notin> set ps" "entry \<noteq> 0"
    and c: "create_user (Inr p) h entry ustack root_pa pid parent_pid heap_brk ring argc argv_sp s = (r, s')"
  shows "r = Inr ()" "all_ok s' (p # ps)" "p_state (k_procs s' p) = PReady" "p_on_rq (k_procs s' p)"
    "p_pid (k_procs s' p) = pid" "tf_sepc (p_tf (k_procs s' p)) = entry" "p_affinity (k_procs s' p) = 0"
proof -
  obtain t where t: "s' = enqueue h p t" "r = Inr ()" "k_all t = p" "p_all_next (k_procs t p) = k_all s"
    "p_state (k_procs t p) = PReady" "p_pid (k_procs t p) = pid" "tf_sepc (p_tf (k_procs t p)) = entry"
    "p_affinity (k_procs t p) = 0" "\<And>q. q \<noteq> p \<Longrightarrow> k_procs t q = k_procs s q"
    using c assms(4) by (auto simp: create_user_def alloc_proc_def upd_proc_def Let_def zero_proc_def)
  note sc = same_core_proc [OF enqueue_core, of h p t]
  show "r = Inr ()" by (rule t)
  have "chain (all_next_of t) (k_all s) ps = chain (all_next_of s) (k_all s) ps"
    by (intro chain_cong) (metis t(9) assms(3))
  then have "chain (all_next_of t) p (p # ps)" using assms(1,2) t(4) by (simp add: all_ok_def)
  then show "all_ok s' (p # ps)" using assms(1,3) t(3) sc by (simp add: all_ok_def t(1))
  show "p_on_rq (k_procs s' p)" by (simp add: t(1) enqueue_other(3))
  show "p_state (k_procs s' p) = PReady" "p_pid (k_procs s' p) = pid" "tf_sepc (p_tf (k_procs s' p)) = entry"
    "p_affinity (k_procs s' p) = 0"
    using sc t by (simp_all add: t(1))
qed

section \<open>Exit\<close>

definition closed :: "vfs_fd \<Rightarrow> vfs_fd" where
  "closed fd = fd\<lparr>fd_used := False\<rparr>"

lemma closed_unused [simp]: "\<not> fd_used fd \<Longrightarrow> closed fd = fd" "fd_used (closed fd) = False"
  by (simp_all add: closed_def)

definition runs :: "nat \<Rightarrow> ptr \<Rightarrow> kst \<Rightarrow> bool" where
  "runs h p s \<longleftrightarrow> k_hart_current s h = p \<and> p \<noteq> 0 \<and> p_state (k_procs s p) = PRunning \<and> p_pid (k_procs s p) \<noteq> 0
     \<and> length (p_fds (k_procs s p)) = PROC_MAX_FDS"

abbreviation set_fds :: "ptr \<Rightarrow> (vfs_fd list \<Rightarrow> vfs_fd list) \<Rightarrow> kst \<Rightarrow> kst" where
  "set_fds p f \<equiv> upd_proc p (\<lambda>x. x\<lparr>p_fds := f (p_fds x)\<rparr>)"

lemma runs_set_fds: "runs h p s \<Longrightarrow> length (f (p_fds (k_procs s p))) = PROC_MAX_FDS \<Longrightarrow> runs h p (set_fds p f s)"
  by (simp add: runs_def upd_proc_def)

lemma close_one:
  assumes r: "runs h p s" and i: "i < PROC_MAX_FDS"
  shows "(let fd = p_fds (k_procs s p) ! i in
      if fd_used fd then snd (vfs_close h (fd_token i (fd_epoch fd)) s) else s)
    = set_fds p (\<lambda>xs. xs[i := closed (xs ! i)]) s"
proof -
  have tab: "fd_tab h s = p_fds (k_procs s p)" "\<not> is_kernel_boot h s" "current h s = p"
    using r by (auto simp: runs_def fd_tab_def is_kernel_boot_def current_pid_def current_def)
  have iv: "i < VFS_MAX_FDS" using i by (simp add: VFS_MAX_FDS_def PROC_MAX_FDS_def)
  show ?thesis
  proof (cases "fd_used (p_fds (k_procs s p) ! i)")
    case True
    then have "fd_check h (fd_token i (fd_epoch (p_fds (k_procs s p) ! i))) s = Inr i"
      using iv by (simp add: fd_check_def fd_get_def tab)
    then show ?thesis using True tab
      by (simp add: vfs_close_def fd_clear_def upd_fd_def upd_tab_def closed_def)
  next
    case False
    then show ?thesis by (simp add: upd_proc_def)
  qed
qed

lemma close_all_eq:
  assumes r: "runs h p s"
  shows "close_all h p s = set_fds p (map closed) s"
proof -
  let ?g = "\<lambda>i s. let fd = p_fds (k_procs s p) ! i in
      if fd_used fd then snd (vfs_close h (fd_token i (fd_epoch fd)) s) else s"
  have l: "length (p_fds (k_procs s p)) = PROC_MAX_FDS" using r by (simp add: runs_def)
  have "fold ?g [0..<n] s = set_fds p (\<lambda>xs. map closed (take n xs) @ drop n xs) s" if "n \<le> PROC_MAX_FDS" for n
    using that
  proof (induction n)
    case 0
    then show ?case by (simp add: upd_proc_def)
  next
    case (Suc n)
    let ?t = "set_fds p (\<lambda>xs. map closed (take n xs) @ drop n xs) s"
    have "runs h p ?t" using r Suc.prems l by (intro runs_set_fds) auto
    then have "?g n ?t = set_fds p (\<lambda>xs. xs[n := closed (xs ! n)]) ?t" using Suc.prems by (intro close_one) auto
    also have "\<dots> = set_fds p (\<lambda>xs. map closed (take (Suc n) xs) @ drop (Suc n) xs) s"
      using Suc.prems l by (simp add: upd_proc_def list_update_append nth_append take_Suc_conv_app_nth
          Cons_nth_drop_Suc [symmetric])
    finally have g: "?g n ?t = set_fds p (\<lambda>xs. map closed (take (Suc n) xs) @ drop (Suc n) xs) s" .
    have e: "fold ?g [0..<Suc n] s = ?g n (fold ?g [0..<n] s)" by simp
    show ?case unfolding e Suc.IH [OF Suc_leD [OF Suc.prems]] by (rule g)
  qed
  from this [of PROC_MAX_FDS] show ?thesis
    unfolding close_all_def l by (simp add: upd_proc_def l)
qed

lemma reparent_list:
  assumes "chain (all_next_of s) a ps" "distinct ps"
  shows "reparent pid a s = Some (s\<lparr>k_procs := (\<lambda>q. if q \<in> set ps \<and> p_parent_pid (k_procs s q) = pid
      \<and> p_state (k_procs s q) \<noteq> PFree \<and> p_state (k_procs s q) \<noteq> PExited
    then (k_procs s q)\<lparr>p_parent_pid := 1\<rparr> else k_procs s q)\<rparr>)"
  using assms
proof (induction ps arbitrary: a s)
  case Nil
  then show ?case by (subst reparent.simps) simp
next
  case (Cons x xs)
  let ?c = "\<lambda>s q. p_parent_pid (k_procs s q) = pid \<and> p_state (k_procs s q) \<noteq> PFree \<and> p_state (k_procs s q) \<noteq> PExited"
  define t where "t = (if ?c s x then upd_proc x (\<lambda>x. x\<lparr>p_parent_pid := 1\<rparr>) s else s)"
  have a: "a = x" "x \<noteq> 0" using Cons.prems by auto
  have nx: "all_next_of t = all_next_of s" by (auto simp: t_def upd_proc_def)
  have "reparent pid a s = reparent pid (all_next_of s x) t"
    using a by (subst reparent.simps) (simp add: t_def Let_def upd_proc_def)
  also have "\<dots> = Some (t\<lparr>k_procs := (\<lambda>q. if q \<in> set xs \<and> ?c t q
      then (k_procs t q)\<lparr>p_parent_pid := 1\<rparr> else k_procs t q)\<rparr>)"
    using Cons.prems by (intro Cons.IH) (auto simp: nx)
  also have "\<dots> = Some (s\<lparr>k_procs := (\<lambda>q. if q \<in> set (x # xs) \<and> ?c s q
      then (k_procs s q)\<lparr>p_parent_pid := 1\<rparr> else k_procs s q)\<rparr>)"
  proof -
    have f: "(\<lambda>q. if q \<in> set xs \<and> ?c t q then (k_procs t q)\<lparr>p_parent_pid := 1\<rparr> else k_procs t q)
      = (\<lambda>q. if q \<in> set (x # xs) \<and> ?c s q then (k_procs s q)\<lparr>p_parent_pid := 1\<rparr> else k_procs s q)"
      by (rule ext) (use Cons.prems(2) in \<open>auto simp: t_def upd_proc_def\<close>)
    have "t\<lparr>k_procs := F\<rparr> = s\<lparr>k_procs := F\<rparr>" for F by (simp add: t_def upd_proc_def)
    then show ?thesis unfolding f by simp
  qed
  finally show ?case .
qed

lemma all_ok_frame:
  assumes "all_ok s ps" "k_all s' = k_all s" "\<And>p. p_all_next (k_procs s' p) = p_all_next (k_procs s p)"
  shows "all_ok s' ps"
proof -
  have "all_next_of s' = all_next_of s" using assms(3) by auto
  then show ?thesis using assms(1,2) by (simp add: all_ok_def)
qed

text \<open>The state before the parent is woken.\<close>

definition dead :: "ptr \<Rightarrow> u32 \<Rightarrow> kst \<Rightarrow> kst" where
  "dead p code s = (let s = set_fds p (map closed) s in
     upd_proc p (\<lambda>x. x\<lparr>p_exit_code := code, p_state := PExited\<rparr>)
       (s\<lparr>k_mm := destroy_root (p_root_pa (k_procs s p)) (k_mm s)\<rparr>))"

lemma dead_simps:
  "k_procs (dead p code s) = (k_procs s)(p := (k_procs s p)\<lparr>p_fds := map closed (p_fds (k_procs s p)),
     p_exit_code := code, p_state := PExited\<rparr>)"
  "k_mm (dead p code s) = destroy_root (p_root_pa (k_procs s p)) (k_mm s)" "k_all (dead p code s) = k_all s"
  by (simp_all add: dead_def upd_proc_def)

lemma by_pid_dead:
  assumes "all_ok s ps" "runs h p s"
  shows "by_pid pid (dead p code s) = by_pid pid s"
proof -
  have "all_ok (dead p code s) ps" by (rule all_ok_frame [OF assms(1)]) (simp_all add: dead_simps)
  then show ?thesis
    using assms by (auto simp: by_pid_list dead_simps runs_def intro!: first_or_null_cong)
qed

lemma wake_parent_ok:
  assumes ok: "all_ok s ps"
  shows "\<exists>s'. wake_parent h parent s = Some s' \<and> k_mm s' = k_mm s \<and> k_all s' = k_all s
    \<and> (\<forall>q. let x = k_procs s q; y = k_procs s' q in
        p_state y = (if parent \<noteq> 0 \<and> by_pid parent s = Some q \<and> q \<noteq> 0 \<and> p_state x = PWaiting then PReady else p_state x)
        \<and> (parent \<noteq> 0 \<and> by_pid parent s = Some q \<and> q \<noteq> 0 \<and> p_state x = PWaiting \<longrightarrow> p_on_rq y)
        \<and> p_parent_pid y = p_parent_pid x \<and> p_exit_code y = p_exit_code x \<and> p_fds y = p_fds x
        \<and> p_all_next y = p_all_next x)"
proof (cases "parent = 0")
  case True
  then show ?thesis by (simp add: wake_parent_def)
next
  case False
  define pp where "pp = first_or_null (\<lambda>p. p_pid (k_procs s p) = parent \<and> p_state (k_procs s p) \<noteq> PFree) ps"
  have b: "by_pid parent s = Some pp" using by_pid_list [OF ok] by (simp add: pp_def)
  define t where "t = upd_proc pp (\<lambda>x. x\<lparr>p_state := PReady\<rparr>) s"
  have t: "k_procs t = (k_procs s)(pp := (k_procs s pp)\<lparr>p_state := PReady\<rparr>)" "k_mm t = k_mm s" "k_all t = k_all s"
    by (simp_all add: t_def upd_proc_def)
  have core: "p_parent_pid (k_procs (enqueue h pp t) q) = p_parent_pid (k_procs t q)"
    "p_exit_code (k_procs (enqueue h pp t) q) = p_exit_code (k_procs t q)"
    "p_fds (k_procs (enqueue h pp t) q) = p_fds (k_procs t q)"
    "p_all_next (k_procs (enqueue h pp t) q) = p_all_next (k_procs t q)"
    "p_state (k_procs (enqueue h pp t) q) = p_state (k_procs t q)" for q
    using enqueue_core [of t h pp] unfolding same_core_def by (metis core_sel)+
  have w: "wake_parent h parent s = Some (if pp \<noteq> 0 \<and> p_state (k_procs s pp) = PWaiting then enqueue h pp t else s)"
    using False b by (simp add: wake_parent_def t_def)
  show ?thesis
    unfolding w b using False by (auto simp: core t Let_def enqueue_other(3))
qed

definition adopted :: "u32 \<Rightarrow> ptr list \<Rightarrow> kst \<Rightarrow> kst" where
  "adopted pid ps t = t\<lparr>k_procs := (\<lambda>q. if q \<in> set ps \<and> p_parent_pid (k_procs t q) = pid
        \<and> p_state (k_procs t q) \<noteq> PFree \<and> p_state (k_procs t q) \<noteq> PExited
      then (k_procs t q)\<lparr>p_parent_pid := 1\<rparr> else k_procs t q)\<rparr>"

text \<open>\<open>exit\<close> on a well-formed list: the dead process, the parent woken, the children handed to process 1.\<close>

lemma exit_steps:
  assumes "all_ok s ps" "runs h p s" "by_pid pid s = Some p" "by_pid (p_parent_pid (k_procs s p)) s = Some pp"
  obtains t where "proc_exit h pid code s = Some (adopted pid ps t)"
    and "all_ok t ps" "k_mm t = k_mm (dead p code s)"
    and "\<And>q. p_state (k_procs t q) = (if p_parent_pid (k_procs s p) \<noteq> 0 \<and> pp = q \<and> q \<noteq> 0
         \<and> p_state (k_procs (dead p code s) q) = PWaiting then PReady else p_state (k_procs (dead p code s) q))"
      "\<And>q. p_parent_pid (k_procs s p) \<noteq> 0 \<Longrightarrow> pp = q \<Longrightarrow> q \<noteq> 0 \<Longrightarrow> p_state (k_procs (dead p code s) q) = PWaiting \<Longrightarrow> p_on_rq (k_procs t q)"
      "\<And>q. p_parent_pid (k_procs t q) = p_parent_pid (k_procs (dead p code s) q)"
      "\<And>q. p_exit_code (k_procs t q) = p_exit_code (k_procs (dead p code s) q)"
      "\<And>q. p_fds (k_procs t q) = p_fds (k_procs (dead p code s) q)"
proof -
  let ?d = "dead p code s"
  have p0: "p \<noteq> 0" using assms(2) by (simp add: runs_def)
  have okd: "all_ok ?d ps" by (rule all_ok_frame [OF assms(1)]) (simp_all add: dead_simps)
  obtain t where w: "wake_parent h (p_parent_pid (k_procs s p)) ?d = Some t"
    and t: "k_mm t = k_mm ?d" "k_all t = k_all ?d"
    and q: "\<And>q. p_state (k_procs t q) = (if p_parent_pid (k_procs s p) \<noteq> 0 \<and> pp = q \<and> q \<noteq> 0
         \<and> p_state (k_procs ?d q) = PWaiting then PReady else p_state (k_procs ?d q))"
      "\<And>q. p_parent_pid (k_procs s p) \<noteq> 0 \<Longrightarrow> pp = q \<Longrightarrow> q \<noteq> 0 \<Longrightarrow> p_state (k_procs ?d q) = PWaiting \<Longrightarrow> p_on_rq (k_procs t q)"
      "\<And>q. p_parent_pid (k_procs t q) = p_parent_pid (k_procs ?d q)" "\<And>q. p_exit_code (k_procs t q) = p_exit_code (k_procs ?d q)"
      "\<And>q. p_fds (k_procs t q) = p_fds (k_procs ?d q)" "\<And>q. p_all_next (k_procs t q) = p_all_next (k_procs ?d q)"
    using wake_parent_ok [OF okd, of h "p_parent_pid (k_procs s p)"] assms(4) by_pid_dead [OF assms(1,2)] by (auto simp: Let_def)
  have okt: "all_ok t ps" by (rule all_ok_frame [OF okd t(2) q(6)])
  then have r: "reparent pid (k_all t) t = Some (adopted pid ps t)"
    using reparent_list by (simp add: all_ok_def adopted_def)
  have e: "proc_exit h pid code s = Some (adopted pid ps t)"
    using assms(3) p0 w r by (simp add: proc_exit_def close_all_eq [OF assms(2)] dead_def Let_def upd_proc_def)
  show thesis by (rule that [OF e okt t(1) q(1-5)])
qed

lemma exit_exited:
  assumes "all_ok s ps" "runs h p s" "by_pid pid s = Some p" "by_pid (p_parent_pid (k_procs s p)) s = Some pp"
  shows "\<exists>s'. proc_exit h pid code s = Some s' \<and> all_ok s' ps \<and> p_state (k_procs s' p) = PExited \<and> p_exit_code (k_procs s' p) = code"
proof (rule exit_steps [OF assms, of code])
  fix t
  assume e: "proc_exit h pid code s = Some (adopted pid ps t)"
    and t: "all_ok t ps" "\<And>q. p_state (k_procs t q) = (if p_parent_pid (k_procs s p) \<noteq> 0 \<and> pp = q \<and> q \<noteq> 0
         \<and> p_state (k_procs (dead p code s) q) = PWaiting then PReady else p_state (k_procs (dead p code s) q))"
      "\<And>q. p_exit_code (k_procs t q) = p_exit_code (k_procs (dead p code s) q)"
  have "all_ok (adopted pid ps t) ps" by (rule all_ok_frame [OF t(1)]) (simp_all add: adopted_def)
  then show ?thesis using e t(2,3) by (auto simp: dead_simps adopted_def)
qed

text \<open>C10: \<open>exit\<close> always returns and does all its work. When the running process of a hart exits in a state with a well-formed process list, it is
  Exited with its exit code, none of its descriptors is open, its address space has been given back by
  \<open>destroy_root\<close>, a parent blocked in \<open>wait\<close> is Ready and in a run queue, every child that is neither free nor exited has
  become a child of process 1, the process list is the same, and no other process changes its state.\<close>

theorem exit_correct:
  assumes "all_ok s ps" "runs h p s" "by_pid pid s = Some p" "by_pid (p_parent_pid (k_procs s p)) s = Some pp"
  shows "\<exists>s'. proc_exit h pid code s = Some s' \<and> all_ok s' ps
    \<and> p_state (k_procs s' p) = PExited \<and> p_exit_code (k_procs s' p) = code
    \<and> (\<forall>fd\<in>set (p_fds (k_procs s' p)). \<not> fd_used fd)
    \<and> k_mm s' = destroy_root (p_root_pa (k_procs s p)) (k_mm s)
    \<and> (\<forall>q. q \<noteq> p \<longrightarrow> p_state (k_procs s' q) =
          (if q = pp \<and> q \<noteq> 0 \<and> p_parent_pid (k_procs s p) \<noteq> 0 \<and> p_state (k_procs s q) = PWaiting then PReady
           else p_state (k_procs s q)))
    \<and> (pp \<noteq> p \<and> pp \<noteq> 0 \<and> p_parent_pid (k_procs s p) \<noteq> 0 \<and> p_state (k_procs s pp) = PWaiting \<longrightarrow> p_on_rq (k_procs s' pp))
    \<and> (\<forall>q\<in>set ps. q \<noteq> p \<and> p_parent_pid (k_procs s q) = pid \<and> p_state (k_procs s q) \<noteq> PFree \<and> p_state (k_procs s q) \<noteq> PExited
          \<longrightarrow> p_parent_pid (k_procs s' q) = 1)"
proof -
  have p0: "p \<noteq> 0" using assms(2) by (simp add: runs_def)
  obtain t where t: "proc_exit h pid code s = Some (adopted pid ps t)"
    and okt: "all_ok t ps" and q: "k_mm t = k_mm (dead p code s)"
      "\<And>q. p_state (k_procs t q) = (if p_parent_pid (k_procs s p) \<noteq> 0 \<and> pp = q \<and> q \<noteq> 0
         \<and> p_state (k_procs (dead p code s) q) = PWaiting then PReady else p_state (k_procs (dead p code s) q))"
      "\<And>q. p_parent_pid (k_procs s p) \<noteq> 0 \<Longrightarrow> pp = q \<Longrightarrow> q \<noteq> 0 \<Longrightarrow> p_state (k_procs (dead p code s) q) = PWaiting \<Longrightarrow> p_on_rq (k_procs t q)"
      "\<And>q. p_parent_pid (k_procs t q) = p_parent_pid (k_procs (dead p code s) q)"
      "\<And>q. p_exit_code (k_procs t q) = p_exit_code (k_procs (dead p code s) q)"
      "\<And>q. p_fds (k_procs t q) = p_fds (k_procs (dead p code s) q)"
    by (rule exit_steps [OF assms, of code]) blast
  have "all_ok (adopted pid ps t) ps" by (rule all_ok_frame [OF okt]) (simp_all add: adopted_def)
  then show ?thesis
    using t q p0 by (auto simp: dead_simps closed_def adopted_def)
qed

section \<open>Reaping\<close>

lemma chain_remove:
  "chain f a (xs @ [q, p] @ ys) \<Longrightarrow> distinct (xs @ [q, p] @ ys) \<Longrightarrow> chain (f(q := f p)) a (xs @ [q] @ ys)"
proof (induction xs arbitrary: a)
  case Nil
  then have "chain (f(q := f p)) (f p) ys = chain f (f p) ys" by (intro chain_cong) auto
  then show ?case using Nil by (auto simp: fun_upd_def)
next
  case (Cons x xs)
  then show ?case by auto
qed

lemma find_pred:
  assumes "chain f a (xs @ [q, p] @ ys)" "distinct (xs @ [q, p] @ ys)"
  shows "find (\<lambda>c. f c = p) (xs @ [q, p] @ ys) = Some q"
  using assms
proof (induction xs arbitrary: a)
  case (Cons x xs)
  then have "f x \<noteq> p" by (cases xs) auto
  then show ?case using Cons by auto
qed auto

lemma free_proc_ok:
  assumes ok: "all_ok s ps" and p: "p \<in> set ps"
  shows "\<exists>s'. free_proc p s = Some s' \<and> all_ok s' (remove1 p ps)
    \<and> (\<forall>q. (k_procs s' q)\<lparr>p_all_next := 0\<rparr> = (k_procs s q)\<lparr>p_all_next := 0\<rparr>)"
proof -
  obtain xs ys where ps: "ps = xs @ p # ys" "p \<notin> set xs" using split_list_first [OF p] by auto
  have c: "chain (all_next_of s) (k_all s) (xs @ p # ys)" "distinct (xs @ p # ys)" using ok ps by (auto simp: all_ok_def)
  show ?thesis
  proof (cases xs rule: rev_cases)
    case Nil
    then have "k_all s = p" "chain (all_next_of s) (p_all_next (k_procs s p)) ys" "distinct ys" using c by auto
    then show ?thesis using ps Nil by (simp add: free_proc_def all_ok_def)
  next
    case (snoc zs z)
    have c': "chain (all_next_of s) (k_all s) (zs @ [z, p] @ ys)" "distinct (zs @ [z, p] @ ys)" using c snoc by auto
    have z: "z \<noteq> 0" "k_all s \<noteq> p"
      using chain_not_null [OF c'(1)] chain_head [OF c'(1)] c'(2) by (auto simp: hd_append split: if_splits)
    have "chain_find (all_next_of s) (\<lambda>c. p_all_next (k_procs s c) = p) (k_all s) = Some z"
      unfolding chain_find_chain [OF c'(1)] find_pred [OF c'] by simp
    then have f: "free_proc p s = Some (upd_proc z (\<lambda>x. x\<lparr>p_all_next := p_all_next (k_procs s p)\<rparr>) s)" (is "_ = Some ?t")
      using z by (simp add: free_proc_def)
    have "all_next_of ?t = (all_next_of s)(z := all_next_of s p)" by (auto simp: upd_proc_def)
    then have "chain (all_next_of ?t) (k_all ?t) (zs @ [z] @ ys)"
      using chain_remove [OF c'] by (simp add: upd_proc_def)
    moreover have "remove1 p ps = zs @ [z] @ ys" using ps snoc by (simp add: remove1_append)
    ultimately show ?thesis using f c'(2) by (auto simp: all_ok_def upd_proc_def)
  qed
qed

text \<open>C35: \<open>wait\<close> reaps exactly one exited child. If the caller has an exited child, \<open>wait\<close> returns without blocking the pid and exit code of
  the first one in the process list, which is removed from the list while every other process stays as it is; if
  the caller has no child at all it returns \<open>NoEnt\<close> and changes nothing.\<close>

theorem wait_reaps:
  assumes "all_ok s ps"
  shows "(\<forall>c. c \<noteq> 0 \<and> first_or_null (\<lambda>q. p_parent_pid (k_procs s q) = current_pid h s \<and> p_state (k_procs s q) = PExited) ps = c
      \<longrightarrow> (\<exists>s'. wait h tf s = Some (WaitRet (Inr (p_pid (k_procs s c), p_exit_code (k_procs s c))), s')
            \<and> all_ok s' (remove1 c ps)
            \<and> (\<forall>q. (k_procs s' q)\<lparr>p_all_next := 0\<rparr> = (k_procs s q)\<lparr>p_all_next := 0\<rparr>)))
    \<and> ((\<forall>q\<in>set ps. p_parent_pid (k_procs s q) \<noteq> current_pid h s \<or> p_state (k_procs s q) = PFree)
      \<longrightarrow> wait h tf s = Some (WaitRet (Inl ENoEnt), s))"
proof (intro conjI allI impI)
  have f: "chain_find (all_next_of s) P (k_all s) = Some (first_or_null P ps)" for P
    using chain_find_chain assms by (simp add: all_ok_def first_or_null_def)
  let ?E = "\<lambda>q. p_parent_pid (k_procs s q) = current_pid h s \<and> p_state (k_procs s q) = PExited"
  let ?A = "\<lambda>q. p_parent_pid (k_procs s q) = current_pid h s \<and> p_state (k_procs s q) \<noteq> PFree"
  fix c
  assume c: "c \<noteq> 0 \<and> first_or_null ?E ps = c"
  then have "c \<in> set ps" using first_or_null_Some(1) by blast
  from free_proc_ok [OF assms this] obtain s' where s': "free_proc c s = Some s'" "all_ok s' (remove1 c ps)"
    "\<forall>q. (k_procs s' q)\<lparr>p_all_next := 0\<rparr> = (k_procs s q)\<lparr>p_all_next := 0\<rparr>" by auto
  then show "\<exists>s'. wait h tf s = Some (WaitRet (Inr (p_pid (k_procs s c), p_exit_code (k_procs s c))), s')
            \<and> all_ok s' (remove1 c ps)
            \<and> (\<forall>q. (k_procs s' q)\<lparr>p_all_next := 0\<rparr> = (k_procs s q)\<lparr>p_all_next := 0\<rparr>)"
    using c by (auto simp: wait_def f Let_def)
next
  have f: "chain_find (all_next_of s) P (k_all s) = Some (first_or_null P ps)" for P
    using chain_find_chain assms by (simp add: all_ok_def first_or_null_def)
  let ?E = "\<lambda>q. p_parent_pid (k_procs s q) = current_pid h s \<and> p_state (k_procs s q) = PExited"
  let ?A = "\<lambda>q. p_parent_pid (k_procs s q) = current_pid h s \<and> p_state (k_procs s q) \<noteq> PFree"
  assume a: "\<forall>q\<in>set ps. p_parent_pid (k_procs s q) \<noteq> current_pid h s \<or> p_state (k_procs s q) = PFree"
  then have "first_or_null ?E ps = 0" "first_or_null ?A ps = 0"
    using first_or_null_Some(1,2) by fastforce+
  then show "wait h tf s = Some (WaitRet (Inl ENoEnt), s)" by (simp add: wait_def f Let_def)
qed

text \<open>A parent blocked in \<open>wait\<close> with its running child, and the same pair after the child has exited.\<close>

definition kst_pair :: "proc_state \<Rightarrow> proc_state \<Rightarrow> ptr \<Rightarrow> kst" where
  "kst_pair ps cs cur = kst0\<lparr>
     k_procs := (\<lambda>_. new_proc)(
       0x1000 := new_proc\<lparr>p_pid := 2, p_state := cs, p_parent_pid := 1, p_all_next := 0x2000, p_exit_code := 7\<rparr>,
       0x2000 := new_proc\<lparr>p_pid := 1, p_state := ps\<rparr>),
     k_all := 0x1000, k_hart_current := (\<lambda>k. if k = 0 then cur else 0)\<rparr>"

lemma kst_pair_ok: "all_ok (kst_pair a b c) [0x1000, 0x2000]"
  by (simp add: all_ok_def kst_pair_def new_proc_def)

lemma kst_pair_exit:
  "runs 0 0x1000 (kst_pair PWaiting PRunning 0x1000)"
  "by_pid 2 (kst_pair PWaiting PRunning 0x1000) = Some 0x1000"
  "by_pid (p_parent_pid (k_procs (kst_pair PWaiting PRunning 0x1000) 0x1000)) (kst_pair PWaiting PRunning 0x1000) = Some 0x2000"
  "p_parent_pid (k_procs (kst_pair PWaiting PRunning 0x1000) 0x1000) = 1"
  "p_state (k_procs (kst_pair PWaiting PRunning 0x1000) 0x2000) = PWaiting"
  unfolding by_pid_list [OF kst_pair_ok]
  by (simp_all add: runs_def kst_pair_def new_proc_def first_or_null_def)

theorem exit_correct_witness:
  "\<exists>s'. proc_exit 0 2 7 (kst_pair PWaiting PRunning 0x1000) = Some s' \<and> p_state (k_procs s' 0x1000) = PExited
     \<and> p_state (k_procs s' 0x2000) = PReady \<and> p_on_rq (k_procs s' 0x2000)"
  using exit_correct [OF kst_pair_ok kst_pair_exit(1-3), of 7] kst_pair_exit(4,5) by auto

theorem wait_reaps_witness:
  "\<exists>s'. wait 0 zero_frame (kst_pair PRunning PExited 0x2000) = Some (WaitRet (Inr (2, 7)), s') \<and> all_ok s' [0x2000]"
proof -
  let ?s = "kst_pair PRunning PExited 0x2000"
  have c: "first_or_null (\<lambda>q. p_parent_pid (k_procs ?s q) = current_pid 0 ?s \<and> p_state (k_procs ?s q) = PExited) [0x1000, 0x2000] = 0x1000"
    by (simp add: first_or_null_def kst_pair_def current_pid_def)
  show ?thesis
    using conjunct1 [OF wait_reaps [OF kst_pair_ok [of PRunning PExited "0x2000"], of 0 zero_frame], rule_format, of "0x1000"] c
    by (auto simp: kst_pair_def)
qed

text \<open>\<open>count\<close> follows the run queue link instead of the list of all processes: with both processes off the queues it counts one.\<close>

lemma count_follows_run_queue: "proc_count (kst_pair PWaiting PWaiting 0) = Some 1"
  unfolding proc_count_def by (subst count_from.simps, subst count_from.simps) (simp add: kst_pair_def new_proc_def)

end
