(* ===== verification/Signals.thy ===== *)
theory Signals
  imports Lifecycle
begin

text \<open>
  Signals: \<open>proc/signals.rs\<close>. User memory is reached through \<open>translate\<close> and the memory cells of the page
  allocator's state; a translated pointer is 8-byte aligned, as the code's \<open>u64\<close> accesses need. The
  trap frame of the caller is passed in and out.
\<close>

definition SIG_KILL :: u32 where "SIG_KILL = 9"
definition SIG_STOP :: u32 where "SIG_STOP = 19"

definition sigbit :: "u32 \<Rightarrow> u32" where
  "sigbit n = push_bit (unat n) 1"

definition load64 :: "u64 \<Rightarrow> kst \<Rightarrow> u64" where
  "load64 pa s = pm_mem (k_mm s) pa"

definition store64 :: "u64 \<Rightarrow> u64 \<Rightarrow> kst \<Rightarrow> kst" where
  "store64 pa v s = s\<lparr>k_mm := (k_mm s)\<lparr>pm_mem := (pm_mem (k_mm s))(pa := v)\<rparr>\<rparr>"

definition signal_send :: "nat \<Rightarrow> u32 \<Rightarrow> u32 \<Rightarrow> kst \<Rightarrow> ((errno + unit) \<times> kst) option" where
  "signal_send h pid signal s =
     (if signal = 0 \<or> 32 \<le> signal then Some (Inl EInval, s)
      else case by_pid pid s of
        None \<Rightarrow> None
      | Some p \<Rightarrow>
          if p = 0 then Some (Inl ENoEnt, s)
          else
            let s = upd_proc p (\<lambda>x. x\<lparr>p_pending_signals := p_pending_signals x OR sigbit signal\<rparr>) s;
                s = (if p_state (k_procs s p) = PWaiting
                     then enqueue h p (upd_proc p (\<lambda>x. x\<lparr>p_state := PReady\<rparr>) s) else s)
            in Some (Inr (), s))"

definition sigaction :: "nat \<Rightarrow> u32 \<Rightarrow> u64 \<Rightarrow> u64 \<Rightarrow> kst \<Rightarrow> (errno + unit) \<times> kst" where
  "sigaction h signum act_ptr oldact_ptr s =
     (if signum = 0 \<or> 32 \<le> signum then (Inl EInval, s)
      else if signum = SIG_KILL \<or> signum = SIG_STOP then (Inl EInval, s)
      else
        let p = current h s;
            user_root = p_root_pa (k_procs s p);
            old_pa = translate user_root oldact_ptr (k_mm s);
            s = (if oldact_ptr \<noteq> 0 \<and> old_pa \<noteq> 0
                 then store64 (old_pa + 24) 0 (store64 (old_pa + 16) 0 (store64 (old_pa + 8) 0
                        (store64 old_pa (p_signal_handlers (k_procs s p) ! unat signum) s)))
                 else s)
        in if act_ptr \<noteq> 0 then
             let new_pa = translate user_root act_ptr (k_mm s) in
             if new_pa = 0 then (Inl EInval, s)
             else
               let handler = load64 new_pa s; extra_mask = load64 (new_pa + 8) s;
                   s = upd_proc p (\<lambda>x. x\<lparr>p_signal_handlers := (p_signal_handlers x)[unat signum := handler]\<rparr>) s;
                   s = (if extra_mask \<noteq> 0
                        then upd_proc p (\<lambda>x. x\<lparr>p_signal_mask := p_signal_mask x OR ucast extra_mask\<rparr>) s else s)
               in (Inr (), s)
           else (Inr (), s))"

definition sig_protected :: u32 where
  "sig_protected = sigbit SIG_KILL OR sigbit SIG_STOP"

definition sigprocmask :: "nat \<Rightarrow> u32 \<Rightarrow> u64 \<Rightarrow> u64 \<Rightarrow> kst \<Rightarrow> (errno + unit) \<times> kst" where
  "sigprocmask h how set_ptr oldset_ptr s =
     (let p = current h s;
          user_root = p_root_pa (k_procs s p);
          old_pa = translate user_root oldset_ptr (k_mm s);
          s = (if oldset_ptr \<noteq> 0 \<and> old_pa \<noteq> 0 then store64 old_pa (ucast (p_signal_mask (k_procs s p))) s else s)
      in if set_ptr \<noteq> 0 then
           let set_pa = translate user_root set_ptr (k_mm s) in
           if set_pa = 0 then (Inl EInval, s)
           else
             let new_mask = ucast (load64 set_pa s) AND NOT sig_protected in
             if how = 0 then (Inr (), upd_proc p (\<lambda>x. x\<lparr>p_signal_mask := p_signal_mask x OR new_mask\<rparr>) s)
             else if how = 1 then (Inr (), upd_proc p (\<lambda>x. x\<lparr>p_signal_mask := p_signal_mask x AND NOT new_mask\<rparr>) s)
             else if how = 2 then (Inr (), upd_proc p (\<lambda>x. x\<lparr>p_signal_mask := new_mask\<rparr>) s)
             else (Inl EInval, s)
         else (Inr (), s))"

definition sigreturn :: "nat \<Rightarrow> trap_frame \<Rightarrow> kst \<Rightarrow> trap_frame \<times> kst" where
  "sigreturn h tf s =
     (let p = current h s in
      if \<not> p_in_signal_handler (k_procs s p) then (tf, s)
      else (p_saved_tf (k_procs s p), upd_proc p (\<lambda>x. x\<lparr>p_in_signal_handler := False\<rparr>) s))"

definition signal_check :: "nat \<Rightarrow> trap_frame \<Rightarrow> kst \<Rightarrow> (trap_frame \<times> kst) option" where
  "signal_check h tf s =
     (let cur = current_for_hart h s; resched = (\<lambda>s. s\<lparr>k_need_resched := (k_need_resched s)(h := True)\<rparr>) in
      if cur = 0 then Some (tf, s)
      else
        let pid = p_pid (k_procs s cur); x = k_procs s cur in
        if p_pending_signals x AND sigbit SIG_KILL \<noteq> 0 then
          map_option (\<lambda>s. (tf, resched s))
            (proc_exit h pid (128 + SIG_KILL)
              (upd_proc cur (\<lambda>x. x\<lparr>p_pending_signals := p_pending_signals x AND NOT (sigbit SIG_KILL)\<rparr>) s))
        else if p_in_signal_handler x then Some (tf, s)
        else
          let pending = p_pending_signals x AND NOT (p_signal_mask x) in
          if pending = 0 then Some (tf, s)
          else case find (\<lambda>i. pending AND sigbit (of_nat i) \<noteq> 0) [1..<32] of
            None \<Rightarrow> Some (tf, s)
          | Some n \<Rightarrow>
              let s = upd_proc cur (\<lambda>x. x\<lparr>p_pending_signals := p_pending_signals x AND NOT (sigbit (of_nat n))\<rparr>) s;
                  handler = p_signal_handlers (k_procs s cur) ! n
              in if handler = 0 then map_option (\<lambda>s. (tf, resched s)) (proc_exit h pid (128 + of_nat n) s)
                 else if handler = 1 then Some (tf, s)
                 else
                   let s = upd_proc cur (\<lambda>x. x\<lparr>p_saved_tf := tf, p_in_signal_handler := True\<rparr>) s
                   in Some (tf\<lparr>tf_sepc := handler, tf_a0 := of_nat n, tf_sp := (tf_sp tf - 256) AND NOT 15\<rparr>, s))"

section \<open>Bits\<close>

lemma sigbit_and [simp]: "n < 32 \<Longrightarrow> x AND sigbit (of_nat n) = 0 \<longleftrightarrow> \<not> bit x n"
  by (simp add: sigbit_def unat_of_nat and_exp_eq_0_iff_not_bit)

lemma sigbit_bit: "n < 32 \<Longrightarrow> bit (sigbit (of_nat n)) i \<longleftrightarrow> i = n"
  by (auto simp: sigbit_def unat_of_nat bit_simps)

lemma sigbit_kill: "x AND sigbit SIG_KILL = 0 \<longleftrightarrow> \<not> bit x 9" "bit (sigbit SIG_KILL) i \<longleftrightarrow> i = 9"
  using sigbit_and [of 9 x] sigbit_bit [of 9 i] by (simp_all add: SIG_KILL_def)

lemma sigbit_stop: "bit (sigbit SIG_STOP) i \<longleftrightarrow> i = 19"
  using sigbit_bit [of 19 i] by (simp add: SIG_STOP_def)

section \<open>Masks\<close>

text \<open>No call of \<open>sigprocmask\<close> changes whether KILL or STOP is blocked, except that it may unblock them by setting the mask.\<close>

lemma sigprocmask_protects:
  assumes "n = 9 \<or> n = 19" "bit (p_signal_mask (k_procs (snd (sigprocmask h how set_ptr oldset_ptr s)) p)) n"
  shows "bit (p_signal_mask (k_procs s p)) n"
  using assms
  by (auto simp: sigprocmask_def sig_protected_def Let_def upd_proc_def store64_def load64_def bit_simps
      sigbit_kill(2) sigbit_stop split: if_splits)

section \<open>Delivery\<close>

text \<open>Changing the pending set leaves the process list alone.\<close>

lemma pending_frame:
  assumes "all_ok s ps" and t_def: "t = upd_proc p (\<lambda>x. x\<lparr>p_pending_signals := f x\<rparr>) s"
  shows "all_ok t ps" "by_pid pid t = by_pid pid s" "runs h q t = runs h q s"
    "p_parent_pid (k_procs t q) = p_parent_pid (k_procs s q)"
proof -
  show ok: "all_ok t ps" by (rule all_ok_frame [OF assms(1)]) (simp_all add: t_def upd_proc_def)
  show "by_pid pid t = by_pid pid s"
    unfolding by_pid_list [OF ok] by_pid_list [OF assms(1)] by (auto simp: t_def upd_proc_def intro!: first_or_null_cong)
qed (simp_all add: t_def upd_proc_def runs_def)

text \<open>C37: KILL cannot be blocked, caught or deferred. Whatever the signal mask, the handlers and a handler being executed, a
  process with KILL pending is terminated by the next \<open>signal_check\<close> with exit code 137, and its hart is told to
  reschedule. And no call of \<open>sigprocmask\<close> can make KILL or STOP blocked, nor can \<open>sigaction\<close> install a handler for them.\<close>

theorem kill_unmaskable:
  assumes "all_ok s ps" "runs h p s" "h < MAX_HARTS" "by_pid (p_pid (k_procs s p)) s = Some p"
    and "by_pid (p_parent_pid (k_procs s p)) s = Some pp" "bit (p_pending_signals (k_procs s p)) 9"
  shows "(\<exists>s'. signal_check h tf s = Some (tf, s') \<and> p_state (k_procs s' p) = PExited
      \<and> p_exit_code (k_procs s' p) = 137 \<and> k_need_resched s' h \<and> all_ok s' ps)
    \<and> (\<forall>how set_ptr oldset_ptr n. n \<in> {9, 19} \<and> bit (p_signal_mask (k_procs (snd (sigprocmask h how set_ptr oldset_ptr s)) p)) n
        \<longrightarrow> bit (p_signal_mask (k_procs s p)) n)
    \<and> (\<forall>act oldact. sigaction h SIG_KILL act oldact s = (Inl EInval, s) \<and> sigaction h SIG_STOP act oldact s = (Inl EInval, s))"
proof (intro conjI allI impI)
  let ?t = "upd_proc p (\<lambda>x. x\<lparr>p_pending_signals := p_pending_signals x AND NOT (sigbit SIG_KILL)\<rparr>) s"
  note pf = pending_frame [OF assms(1) refl, where p = p and f = "\<lambda>x. p_pending_signals x AND NOT (sigbit SIG_KILL)"]
  have r: "runs h p ?t" "by_pid (p_pid (k_procs s p)) ?t = Some p" "by_pid (p_parent_pid (k_procs ?t p)) ?t = Some pp"
    using assms(2,4,5) pf by auto
  have cur: "current_for_hart h s = p" "p \<noteq> 0" using assms(2,3) by (auto simp: runs_def current_for_hart_def)
  obtain s' where e: "proc_exit h (p_pid (k_procs s p)) 137 ?t = Some s'" "all_ok s' ps"
    "p_state (k_procs s' p) = PExited" "p_exit_code (k_procs s' p) = 137"
    using exit_exited [OF pf(1) r, of 137] by auto
  let ?s = "s'\<lparr>k_need_resched := (k_need_resched s')(h := True)\<rparr>"
  have "signal_check h tf s = Some (tf, ?s)"
    using cur e(1) assms(6) by (simp add: signal_check_def Let_def sigbit_kill(1)) (simp add: SIG_KILL_def)
  moreover have "all_ok ?s ps" by (rule all_ok_frame [OF e(2)]) simp_all
  ultimately show "\<exists>s'. signal_check h tf s = Some (tf, s') \<and> p_state (k_procs s' p) = PExited
      \<and> p_exit_code (k_procs s' p) = 137 \<and> k_need_resched s' h \<and> all_ok s' ps"
    using e(3,4) by auto
  show "bit (p_signal_mask (k_procs s p)) n"
    if "n \<in> {9, 19} \<and> bit (p_signal_mask (k_procs (snd (sigprocmask h how set_ptr oldset_ptr s)) p)) n" for how set_ptr oldset_ptr n
    using sigprocmask_protects [of n h how set_ptr oldset_ptr s p] that by auto
qed (simp_all add: sigaction_def SIG_KILL_def SIG_STOP_def)

lemma find_lowest:
  assumes "0 < n" "n < 32" "P n" "\<And>i. 0 < i \<Longrightarrow> i < n \<Longrightarrow> \<not> P i"
  shows "find P [1..<32] = Some n"
proof -
  have "[1..<32] ! (n - 1) = n" "n - 1 < length [1..<32]" using assms(1,2) by simp_all
  moreover have "\<not> P ([1..<32] ! j)" if "j < n - 1" for j using assms(2,4) that by simp
  ultimately show ?thesis using assms(3) unfolding find_Some_iff by (intro exI [of _ "n - 1"]) auto
qed

text \<open>Delivery of the lowest-numbered pending signal that is not blocked: the interrupted frame is saved, no second delivery is made before
  \<open>sigreturn\<close>, and \<open>sigreturn\<close> copies the saved frame back.\<close>

lemma signal_frame_roundtrip:
  assumes "h < MAX_HARTS" "p = k_hart_current s h" "p \<noteq> 0" "x = k_procs s p" "\<not> p_in_signal_handler x"
    and "\<not> bit (p_pending_signals x) 9" "0 < n" "n < 32" "bit (p_pending_signals x) n" "\<not> bit (p_signal_mask x) n"
    and "\<forall>i. 0 < i \<and> i < n \<longrightarrow> \<not> bit (p_pending_signals x) i \<or> bit (p_signal_mask x) i"
    and "p_signal_handlers x ! n \<noteq> 0" "p_signal_handlers x ! n \<noteq> 1"
  shows "\<exists>tf' s'. signal_check h tf s = Some (tf', s')
    \<and> tf' = tf\<lparr>tf_sepc := p_signal_handlers x ! n, tf_a0 := of_nat n, tf_sp := (tf_sp tf - 256) AND NOT 15\<rparr>
    \<and> tf_sp tf' AND 15 = 0
    \<and> (\<forall>i. bit (p_pending_signals (k_procs s' p)) i \<longleftrightarrow> i \<noteq> n \<and> bit (p_pending_signals x) i)
    \<and> (\<forall>tf2. signal_check h tf2 s' = Some (tf2, s'))
    \<and> (\<forall>tf2. fst (sigreturn h tf2 s') = tf \<and> \<not> p_in_signal_handler (k_procs (snd (sigreturn h tf2 s')) p))"
proof -
  let ?pend = "p_pending_signals x AND NOT (p_signal_mask x)"
  have b: "bit ?pend i \<longleftrightarrow> bit (p_pending_signals x) i \<and> \<not> bit (p_signal_mask x) i" for i
    by (auto simp: bit_simps dest: bit_imp_le_length)
  have f: "find (\<lambda>i. ?pend AND sigbit (of_nat i) \<noteq> 0) [1..<32] = Some n"
    using assms(7-11) b by (intro find_lowest) simp_all
  have ne: "?pend \<noteq> 0" using b [of n] assms(9,10) by (metis bit_0_eq bot_apply bot_bool_def)
  have cur: "current_for_hart h s = p" using assms(1,2) by (simp add: current_for_hart_def)
  define s' where "s' = upd_proc p (\<lambda>x. x\<lparr>p_saved_tf := tf, p_in_signal_handler := True\<rparr>)
    (upd_proc p (\<lambda>x. x\<lparr>p_pending_signals := p_pending_signals x AND NOT (sigbit (of_nat n))\<rparr>) s)"
  have k: "k_procs s' p = x\<lparr>p_pending_signals := p_pending_signals x AND NOT (sigbit (of_nat n)), p_saved_tf := tf,
      p_in_signal_handler := True\<rparr>" "k_hart_current s' h = p"
    using assms(2,4) by (simp_all add: s'_def upd_proc_def)
  have c: "signal_check h tf s = Some (tf\<lparr>tf_sepc := p_signal_handlers x ! n, tf_a0 := of_nat n, tf_sp := (tf_sp tf - 256) AND NOT 15\<rparr>, s')"
    using cur assms(3-6,12,13) f ne by (simp add: signal_check_def Let_def sigbit_kill(1) s'_def upd_proc_def)
  have pend: "bit (p_pending_signals (k_procs s' p)) i \<longleftrightarrow> i \<noteq> n \<and> bit (p_pending_signals x) i" for i
    using assms(8) by (auto simp: k(1) bit_simps sigbit_bit dest: bit_imp_le_length)
  have "((tf_sp tf - 256) AND NOT 15) AND 15 = (0 :: u64)"
    by (rule bit_word_eqI) (auto simp: bit_simps)
  moreover have "signal_check h tf2 s' = Some (tf2, s')" for tf2
    using assms(1,3,6) k pend [of 9] by (simp add: signal_check_def current_for_hart_def Let_def sigbit_kill(1))
  moreover have "fst (sigreturn h tf2 s') = tf \<and> \<not> p_in_signal_handler (k_procs (snd (sigreturn h tf2 s')) p)" for tf2
    using k by (simp add: sigreturn_def current_def upd_proc_def)
  ultimately show ?thesis using c pend by auto
qed

text \<open>A child with every signal blocked and KILL pending; one with signals 1, 2 and 10 pending, 1 blocked and 2 handled.\<close>

definition kst_kill :: kst where
  "kst_kill = upd_proc 0x1000 (\<lambda>x. x\<lparr>p_pending_signals := 0x200, p_signal_mask := 0xFFFFFFFF\<rparr>) (kst_pair PWaiting PRunning 0x1000)"

definition kst_handled :: kst where
  "kst_handled = upd_proc 0x1000 (\<lambda>x. x\<lparr>p_pending_signals := 0x406, p_signal_mask := 2,
     p_signal_handlers := (replicate 32 0)[2 := 0x4000]\<rparr>) (kst_pair PWaiting PRunning 0x1000)"

lemma kst_kill_ok:
  "all_ok kst_kill [0x1000, 0x2000]" "runs 0 0x1000 kst_kill" "by_pid (p_pid (k_procs kst_kill 0x1000)) kst_kill = Some 0x1000"
  "by_pid (p_parent_pid (k_procs kst_kill 0x1000)) kst_kill = Some 0x2000" "bit (p_pending_signals (k_procs kst_kill 0x1000)) 9"
proof -
  show ok: "all_ok kst_kill [0x1000, 0x2000]" by (simp add: all_ok_def kst_kill_def kst_pair_def upd_proc_def new_proc_def)
  show "by_pid (p_pid (k_procs kst_kill 0x1000)) kst_kill = Some 0x1000"
    "by_pid (p_parent_pid (k_procs kst_kill 0x1000)) kst_kill = Some 0x2000"
    unfolding by_pid_list [OF ok] by (simp_all add: first_or_null_def kst_kill_def kst_pair_def upd_proc_def new_proc_def)
qed (simp_all add: runs_def kst_kill_def kst_pair_def upd_proc_def new_proc_def)

theorem kill_unmaskable_witness:
  "\<exists>s'. signal_check 0 zero_frame kst_kill = Some (zero_frame, s') \<and> p_state (k_procs s' 0x1000) = PExited
     \<and> p_exit_code (k_procs s' 0x1000) = 137"
  using kill_unmaskable [OF kst_kill_ok(1,2) _ kst_kill_ok(3-5), of zero_frame] by (auto simp: MAX_HARTS_def)

text \<open>\<open>sigaction\<close> copies the mask of the new action into the process mask without the check of \<open>sigprocmask\<close>: STOP can be blocked.\<close>

lemma sigaction_blocks_stop:
  assumes "signum = 10" "act \<noteq> 0" "oldact = 0" "p = current h s" "pa = translate (p_root_pa (k_procs s p)) act (k_mm s)" "pa \<noteq> 0"
    and "bit (load64 (pa + 8) s) 19"
  shows "bit (p_signal_mask (k_procs (snd (sigaction h signum act oldact s)) p)) 19"
  using assms by (auto simp: sigaction_def SIG_KILL_def SIG_STOP_def Let_def upd_proc_def load64_def bit_simps)

end
