(* ===== verification/Ipc.thy ===== *)
theory Ipc
  imports Sched
begin

text \<open>
  IPC channels: \<open>kernel/src/ipc/channel\<close>. A channel is a ring buffer of 4096 bytes indexed by two free-running 32-bit counters,
  with an owner, up to four clients and two lists of blocked processes. A blocking \<open>send\<close> or \<open>recv\<close> calls
  \<open>sched_yield\<close> and may not come back. The caller's buffer is a function from offsets to bytes for \<open>send\<close> and the list of
  bytes stored for \<open>recv\<close>.
\<close>

definition CHAN_MAX :: nat where "CHAN_MAX = 32"
definition CHAN_BUF_SIZE :: nat where "CHAN_BUF_SIZE = 4096"
definition CHAN_NAME_MAX :: nat where "CHAN_NAME_MAX = 32"
definition CHAN_MAX_CLIENTS :: nat where "CHAN_MAX_CLIENTS = 4"

record channel =
  ch_buf :: bytes
  ch_head :: u32
  ch_tail :: u32
  ch_owner_pid :: u32
  ch_clients :: "u32 list"
  ch_num_clients :: u32
  ch_name :: bytes
  ch_name_len :: u8
  ch_used :: bool
  ch_closed :: bool
  ch_send_wait :: ptr
  ch_recv_wait :: ptr

record ipc =
  ip_k :: kst
  ip_chans :: "channel list"

definition empty_channel :: channel where
  "empty_channel = \<lparr>ch_buf = replicate CHAN_BUF_SIZE 0, ch_head = 0, ch_tail = 0, ch_owner_pid = 0,
     ch_clients = replicate CHAN_MAX_CLIENTS 0, ch_num_clients = 0, ch_name = replicate CHAN_NAME_MAX 0, ch_name_len = 0,
     ch_used = False, ch_closed = False, ch_send_wait = 0, ch_recv_wait = 0\<rparr>"

definition channels0 :: "channel list" where
  "channels0 = replicate CHAN_MAX empty_channel"

definition upd_chan :: "nat \<Rightarrow> (channel \<Rightarrow> channel) \<Rightarrow> ipc \<Rightarrow> ipc" where
  "upd_chan i f s = s\<lparr>ip_chans := (ip_chans s)[i := f (ip_chans s ! i)]\<rparr>"

section \<open>Channels\<close>

definition chan_create :: "u32 \<Rightarrow> ipc \<Rightarrow> (errno + u32) \<times> ipc" where
  "chan_create owner_pid s =
     (case find (\<lambda>i. \<not> ch_used (ip_chans s ! i)) [0..<CHAN_MAX] of
        None \<Rightarrow> (Inl ENoMem, s)
      | Some i \<Rightarrow>
          (Inr (of_nat i), upd_chan i (\<lambda>_. \<lparr>ch_buf = replicate CHAN_BUF_SIZE 0, ch_head = 0, ch_tail = 0,
             ch_owner_pid = owner_pid, ch_clients = replicate CHAN_MAX_CLIENTS 0, ch_num_clients = 0,
             ch_name = replicate CHAN_NAME_MAX 0, ch_name_len = 0, ch_used = True, ch_closed = False,
             ch_send_wait = 0, ch_recv_wait = 0\<rparr>) s))"

definition has_name :: "bytes \<Rightarrow> channel \<Rightarrow> bool" where
  "has_name name ch \<longleftrightarrow> ch_used ch \<and> unat (ch_name_len ch) = length name \<and> take (unat (ch_name_len ch)) (ch_name ch) = name"

definition find_by_name :: "bytes \<Rightarrow> ipc \<Rightarrow> u32 option" where
  "find_by_name name s = map_option of_nat (find (\<lambda>i. has_name name (ip_chans s ! i)) [0..<CHAN_MAX])"

definition create_named :: "bytes \<Rightarrow> u32 \<Rightarrow> ipc \<Rightarrow> (errno + u32) \<times> ipc" where
  "create_named name owner_pid s =
     (if name = [] \<or> CHAN_NAME_MAX - 1 < length name then (Inl EInval, s)
      else if find_by_name name s \<noteq> None then (Inl EExist, s)
      else case chan_create owner_pid s of
        (Inl e, s) \<Rightarrow> (Inl e, s)
      | (Inr cid, s) \<Rightarrow>
          let nlen = min (length name) (CHAN_NAME_MAX - 1) in
          (Inr cid, upd_chan (unat cid) (\<lambda>ch. ch\<lparr>ch_name := take nlen name @ drop nlen (ch_name ch),
             ch_name_len := of_nat nlen\<rparr>) s))"

definition add_client :: "u32 \<Rightarrow> channel \<Rightarrow> channel" where
  "add_client pid ch = ch\<lparr>ch_clients := (ch_clients ch)[unat (ch_num_clients ch) := pid],
     ch_num_clients := ch_num_clients ch + 1\<rparr>"

definition open_by_name :: "bytes \<Rightarrow> u32 \<Rightarrow> ipc \<Rightarrow> (errno + u32) \<times> ipc" where
  "open_by_name name client_pid s =
     (case find_by_name name s of
        None \<Rightarrow> (Inl ENoEnt, s)
      | Some cid \<Rightarrow>
          let ch = ip_chans s ! unat cid in
          if CHAN_MAX_CLIENTS \<le> unat (ch_num_clients ch) then (Inl ENoMem, s)
          else if client_pid \<in> set (take (unat (ch_num_clients ch)) (ch_clients ch)) then (Inr cid, s)
          else (Inr cid, upd_chan (unat cid) (add_client client_pid) s))"

definition disconnect :: "u32 \<Rightarrow> u32 \<Rightarrow> ipc \<Rightarrow> ipc" where
  "disconnect chan_id pid s =
     (if CHAN_MAX \<le> unat chan_id then s
      else
        let ch = ip_chans s ! unat chan_id in
        if \<not> ch_used ch then s
        else case find (\<lambda>i. ch_clients ch ! i = pid) [0..<unat (ch_num_clients ch)] of
               None \<Rightarrow> s
             | Some i \<Rightarrow>
                 upd_chan (unat chan_id) (\<lambda>ch. ch\<lparr>ch_clients := (ch_clients ch)[i := ch_clients ch ! (unat (ch_num_clients ch) - 1)],
                   ch_num_clients := ch_num_clients ch - 1\<rparr>) s)"

definition connect :: "u32 \<Rightarrow> u32 \<Rightarrow> ipc \<Rightarrow> (errno + unit) \<times> ipc" where
  "connect chan_id client_pid s =
     (if CHAN_MAX \<le> unat chan_id then (Inl EInval, s)
      else
        let ch = ip_chans s ! unat chan_id in
        if \<not> ch_used ch then (Inl ENoEnt, s)
        else if CHAN_MAX_CLIENTS \<le> unat (ch_num_clients ch) then (Inl ENoMem, s)
        else (Inr (), upd_chan (unat chan_id) (add_client client_pid) s))"

definition chan_close :: "u32 \<Rightarrow> ipc \<Rightarrow> (errno + unit) \<times> ipc" where
  "chan_close chan_id s =
     (if CHAN_MAX \<le> unat chan_id then (Inl EInval, s)
      else if \<not> ch_used (ip_chans s ! unat chan_id) then (Inl ENoEnt, s)
      else (Inr (), upd_chan (unat chan_id) (\<lambda>ch. ch\<lparr>ch_closed := True, ch_used := False\<rparr>) s))"

definition is_named :: "channel \<Rightarrow> bool" where
  "is_named ch \<longleftrightarrow> ch_used ch \<and> ch_name_len ch > 0"

definition named_count :: "ipc \<Rightarrow> u32" where
  "named_count s = fold (\<lambda>i n. if is_named (ip_chans s ! i) then n + 1 else n) [0..<CHAN_MAX] 0"

fun named_loop :: "channel list \<Rightarrow> u32 \<Rightarrow> nat list \<Rightarrow> u32 \<Rightarrow> (bytes \<times> u32) option" where
  "named_loop cs idx [] n = None"
| "named_loop cs idx (i # is) n =
     (if is_named (cs ! i)
      then if n = idx then Some (take (unat (ch_name_len (cs ! i))) (ch_name (cs ! i)), of_nat i)
           else named_loop cs idx is (n + 1)
      else named_loop cs idx is n)"

definition named_by_index :: "u32 \<Rightarrow> ipc \<Rightarrow> (bytes \<times> u32) option" where
  "named_by_index idx s = named_loop (ip_chans s) idx [0..<CHAN_MAX] 0"

section \<open>Messages\<close>

definition pid_allowed :: "channel \<Rightarrow> u32 \<Rightarrow> bool" where
  "pid_allowed ch pid \<longleftrightarrow> pid = ch_owner_pid ch \<or> pid \<in> set (take (unat (ch_num_clients ch)) (ch_clients ch))"

definition wait_enqueue :: "nat \<Rightarrow> ptr \<Rightarrow> kst \<Rightarrow> ptr \<times> kst" where
  "wait_enqueue h wait_head k =
     (let p = current h k in (p, upd_proc p (\<lambda>x. x\<lparr>p_state := PWaiting, p_wait_next := wait_head\<rparr>) k))"

partial_function (option) wait_wake_all :: "ptr \<Rightarrow> kst \<Rightarrow> kst option" where
  "wait_wake_all cur k =
     (if cur = 0 then Some k
      else wait_wake_all (p_wait_next (k_procs k cur)) (upd_proc cur (\<lambda>x. x\<lparr>p_state := PReady, p_wait_next := 0\<rparr>) k))"

definition put_byte :: "u8 \<Rightarrow> channel \<Rightarrow> channel" where
  "put_byte b ch = ch\<lparr>ch_buf := (ch_buf ch)[unat (ch_tail ch) mod CHAN_BUF_SIZE := b], ch_tail := ch_tail ch + 1\<rparr>"

datatype 'a ipc_out = IpcRet "errno + 'a" | IpcYield sched_out

definition block_on :: "nat \<Rightarrow> trap_frame \<Rightarrow> kst \<Rightarrow> sched_out \<times> kst" where
  "block_on h tf k = sched_yield h tf (set_need_resched h True k)"

definition send :: "nat \<Rightarrow> u32 \<Rightarrow> (nat \<Rightarrow> u8) \<Rightarrow> u32 \<Rightarrow> trap_frame option \<Rightarrow> ipc \<Rightarrow> (u32 ipc_out \<times> ipc) option" where
  "send h chan_id buf len tf s =
     (let c = unat chan_id; ch = ip_chans s ! c in
      if CHAN_MAX \<le> c then Some (IpcRet (Inl EInval), s)
      else if \<not> ch_used ch \<or> ch_closed ch then Some (IpcRet (Inl EPipe), s)
      else if \<not> pid_allowed ch (current_pid h (ip_k s)) then Some (IpcRet (Inl EPerm), s)
      else if of_nat CHAN_BUF_SIZE - (ch_tail ch - ch_head ch) < len then
        (case tf of
           None \<Rightarrow> Some (IpcRet (Inl EBusy), s)
         | Some tf \<Rightarrow>
             let (w, k) = wait_enqueue h (ch_send_wait ch) (ip_k s);
                 s = upd_chan c (\<lambda>ch. ch\<lparr>ch_send_wait := w\<rparr>) s;
                 (out, k) = block_on h tf k
             in Some (if out = SchedReturns then IpcRet (Inl EBusy) else IpcYield out, s\<lparr>ip_k := k\<rparr>))
      else
        let s = upd_chan c (fold (\<lambda>i. put_byte (buf i)) [0..<unat len]) s in
        if ch_recv_wait (ip_chans s ! c) \<noteq> 0 then
          map_option (\<lambda>k. (IpcRet (Inr len),
              (upd_chan c (\<lambda>ch. ch\<lparr>ch_recv_wait := 0\<rparr>) s)\<lparr>ip_k := set_need_resched h True k\<rparr>))
            (wait_wake_all (ch_recv_wait (ip_chans s ! c)) (ip_k s))
        else Some (IpcRet (Inr len), s))"

definition get_byte :: "channel \<Rightarrow> u8 \<times> channel" where
  "get_byte ch = (ch_buf ch ! (unat (ch_head ch) mod CHAN_BUF_SIZE), ch\<lparr>ch_head := ch_head ch + 1\<rparr>)"

fun gets :: "('c \<Rightarrow> 'b \<times> 'c) \<Rightarrow> nat \<Rightarrow> 'c \<Rightarrow> 'b list \<times> 'c" where
  "gets get 0 c = ([], c)"
| "gets get (Suc n) c = (let (b, c) = get c; (bs, c) = gets get n c in (b # bs, c))"

definition recv :: "nat \<Rightarrow> u32 \<Rightarrow> u32 \<Rightarrow> trap_frame option \<Rightarrow> ipc \<Rightarrow> (bytes ipc_out \<times> ipc) option" where
  "recv h chan_id len tf s =
     (let c = unat chan_id; ch = ip_chans s ! c in
      if CHAN_MAX \<le> c then Some (IpcRet (Inl EInval), s)
      else if \<not> ch_used ch \<or> ch_closed ch then Some (IpcRet (Inl EPipe), s)
      else if \<not> pid_allowed ch (current_pid h (ip_k s)) then Some (IpcRet (Inl EPerm), s)
      else if ch_tail ch - ch_head ch = 0 then
        (case tf of
           None \<Rightarrow> Some (IpcRet (Inr []), s)
         | Some tf \<Rightarrow>
             let (w, k) = wait_enqueue h (ch_recv_wait ch) (ip_k s);
                 s = upd_chan c (\<lambda>ch. ch\<lparr>ch_recv_wait := w\<rparr>) s;
                 (out, k) = block_on h tf k
             in Some (if out = SchedReturns then IpcRet (Inr []) else IpcYield out, s\<lparr>ip_k := k\<rparr>))
      else
        let to_read = min len (ch_tail ch - ch_head ch);
            (bs, ch') = gets get_byte (unat to_read) ch;
            s = upd_chan c (\<lambda>_. ch') s
        in if ch_send_wait ch' \<noteq> 0 then
             map_option (\<lambda>k. (IpcRet (Inr bs),
                 (upd_chan c (\<lambda>ch. ch\<lparr>ch_send_wait := 0\<rparr>) s)\<lparr>ip_k := set_need_resched h True k\<rparr>))
               (wait_wake_all (ch_send_wait ch') (ip_k s))
           else Some (IpcRet (Inr bs), s))"

section \<open>The ring buffer is a queue\<close>

definition content :: "channel \<Rightarrow> bytes" where
  "content ch = map (\<lambda>i. ch_buf ch ! (unat (ch_head ch + of_nat i) mod CHAN_BUF_SIZE)) [0..<unat (ch_tail ch - ch_head ch)]"

definition ring_ok :: "channel \<Rightarrow> bool" where
  "ring_ok ch \<longleftrightarrow> length (ch_buf ch) = CHAN_BUF_SIZE \<and> unat (ch_tail ch - ch_head ch) \<le> CHAN_BUF_SIZE"

lemma length_content [simp]: "length (content ch) = unat (ch_tail ch - ch_head ch)"
  by (simp add: content_def)

lemma slot_mod: "unat (x + of_nat i :: u32) mod CHAN_BUF_SIZE = (unat x + i) mod CHAN_BUF_SIZE"
  by (simp add: unat_word_ariths unat_of_nat CHAN_BUF_SIZE_def mod_add_right_eq mod_mod_cancel)

lemma unat_inc: "unat (d :: u32) < CHAN_BUF_SIZE \<Longrightarrow> unat (d + 1) = Suc (unat d)"
  by (simp add: unat_word_ariths CHAN_BUF_SIZE_def)

lemma unat_dec: "0 < unat (d :: u32) \<Longrightarrow> unat (d - 1) = unat d - 1"
  by (subst unat_sub) (auto simp: word_le_nat_alt)

lemma put_byte_content:
  assumes "ring_ok ch" "length (content ch) < CHAN_BUF_SIZE"
  shows "content (put_byte b ch) = content ch @ [b]" "ring_ok (put_byte b ch)"
proof -
  let ?n = "unat (ch_tail ch - ch_head ch)" let ?t = "unat (ch_tail ch) mod CHAN_BUF_SIZE"
  have n: "?n < CHAN_BUF_SIZE" and l: "length (ch_buf ch) = CHAN_BUF_SIZE" using assms by (auto simp: ring_ok_def)
  have tl: "ch_tail ch = ch_head ch + of_nat ?n" by simp
  have t: "?t = (unat (ch_head ch) + ?n) mod CHAN_BUF_SIZE" by (subst tl) (rule slot_mod)
  have n': "unat (ch_tail ch + 1 - ch_head ch) = Suc ?n"
  proof -
    have e: "ch_tail ch + 1 - ch_head ch = (ch_tail ch - ch_head ch) + 1" by simp
    show ?thesis unfolding e by (rule unat_inc [OF n])
  qed
  have ne: "unat (ch_head ch + of_nat i) mod CHAN_BUF_SIZE \<noteq> ?t" if "i < ?n" for i
  proof
    assume "unat (ch_head ch + of_nat i) mod CHAN_BUF_SIZE = ?t"
    then have "(unat (ch_head ch) + i) mod CHAN_BUF_SIZE = (unat (ch_head ch) + ?n) mod CHAN_BUF_SIZE"
      unfolding t slot_mod .
    then have "i mod CHAN_BUF_SIZE = ?n mod CHAN_BUF_SIZE" by (simp add: nat_mod_eq_iff)
    then show False using that n by simp
  qed
  have eq: "((ch_buf ch)[?t := b]) ! (unat (ch_head ch + of_nat i) mod CHAN_BUF_SIZE) = ch_buf ch ! (unat (ch_head ch + of_nat i) mod CHAN_BUF_SIZE)"
    if "i < ?n" for i
    by (rule nth_list_update_neq) (rule not_sym [OF ne [OF that]])
  have tb: "?t < CHAN_BUF_SIZE" by (simp add: CHAN_BUF_SIZE_def)
  have "content (put_byte b ch) = map (\<lambda>i. ((ch_buf ch)[?t := b]) ! (unat (ch_head ch + of_nat i) mod CHAN_BUF_SIZE)) ([0..<?n] @ [?n])"
    by (simp add: content_def put_byte_def n')
  also have "\<dots> = content ch @ [b]"
    using eq l tb by (simp add: content_def)
  finally show "content (put_byte b ch) = content ch @ [b]" .
  show "ring_ok (put_byte b ch)" using l n by (simp add: ring_ok_def put_byte_def n')
qed

lemma get_byte_content:
  assumes "ring_ok ch" "content ch = b # bs"
  shows "fst (get_byte ch) = b" "content (snd (get_byte ch)) = bs" "ring_ok (snd (get_byte ch))"
proof -
  let ?n = "unat (ch_tail ch - ch_head ch)"
  have n: "0 < ?n" using arg_cong [OF assms(2), of length] by simp
  have n': "unat (ch_tail ch - (ch_head ch + 1)) = ?n - 1"
  proof -
    have e: "ch_tail ch - (ch_head ch + 1) = (ch_tail ch - ch_head ch) - 1" by simp
    show ?thesis unfolding e by (rule unat_dec [OF n])
  qed
  have "content ch = map (\<lambda>i. ch_buf ch ! (unat (ch_head ch + of_nat i) mod CHAN_BUF_SIZE)) [0..<Suc (?n - 1)]"
    using n by (simp add: content_def)
  also have "\<dots> = fst (get_byte ch) # content (snd (get_byte ch))"
    unfolding map_upt_Suc by (simp add: get_byte_def content_def n' add.assoc)
  finally show "fst (get_byte ch) = b" "content (snd (get_byte ch)) = bs" using assms(2) by auto
  show "ring_ok (snd (get_byte ch))" using assms(1) by (auto simp: ring_ok_def get_byte_def n' intro: le_trans [OF diff_le_self])
qed

text \<open>A bounded first-in first-out buffer.\<close>

locale byte_fifo =
  fixes ok :: "'c \<Rightarrow> bool" and items :: "'c \<Rightarrow> 'b list" and put :: "'b \<Rightarrow> 'c \<Rightarrow> 'c" and get :: "'c \<Rightarrow> 'b \<times> 'c" and cap :: nat
  assumes put_law: "ok c \<Longrightarrow> length (items c) < cap \<Longrightarrow> ok (put b c) \<and> items (put b c) = items c @ [b]"
    and get_law: "ok c \<Longrightarrow> items c = b # bs \<Longrightarrow> fst (get c) = b \<and> ok (snd (get c)) \<and> items (snd (get c)) = bs"
begin

lemma puts_items:
  "ok c \<Longrightarrow> length (items c) + length bs \<le> cap \<Longrightarrow> ok (fold put bs c) \<and> items (fold put bs c) = items c @ bs"
proof (induction bs arbitrary: c)
  case (Cons b bs)
  then show ?case using put_law [of c b] Cons.IH [of "put b c"] by simp
qed simp

lemma gets_items:
  "ok c \<Longrightarrow> n \<le> length (items c) \<Longrightarrow>
    fst (gets get n c) = take n (items c) \<and> ok (snd (gets get n c)) \<and> items (snd (gets get n c)) = drop n (items c)"
proof (induction n arbitrary: c)
  case (Suc n)
  then obtain b bs where i: "items c = b # bs" by (cases "items c") auto
  show ?case using get_law [OF Suc.prems(1) i] Suc.IH [of "snd (get c)"] Suc.prems(2) i by (simp add: case_prod_beta)
qed simp

end

interpretation ring: byte_fifo ring_ok content put_byte get_byte CHAN_BUF_SIZE
  using put_byte_content get_byte_content by unfold_locales blast+

section \<open>Sending and receiving\<close>

text \<open>The ring operations touch nothing but the buffer and the counters.\<close>

definition rest :: "channel \<Rightarrow> channel" where
  "rest ch = ch\<lparr>ch_buf := [], ch_head := 0, ch_tail := 0\<rparr>"

lemma put_rest: "rest (fold put_byte bs ch) = rest ch"
  by (induction bs arbitrary: ch) (simp_all add: put_byte_def rest_def)

lemma get_rest: "rest (snd (gets get_byte n ch)) = rest ch"
  by (induction n arbitrary: ch) (simp_all add: get_byte_def rest_def case_prod_beta)

lemma rest_simps:
  "ch_send_wait (rest a) = ch_send_wait a" "ch_recv_wait (rest a) = ch_recv_wait a" "ch_used (rest a) = ch_used a"
  "ch_closed (rest a) = ch_closed a" "ch_owner_pid (rest a) = ch_owner_pid a" "ch_clients (rest a) = ch_clients a"
  "ch_num_clients (rest a) = ch_num_clients a" "ch_name (rest a) = ch_name a" "ch_name_len (rest a) = ch_name_len a"
  by (simp_all add: rest_def)

lemma rest_sel:
  assumes "rest a = rest b"
  shows "ch_send_wait a = ch_send_wait b" "ch_recv_wait a = ch_recv_wait b" "ch_used a = ch_used b" "ch_closed a = ch_closed b"
    "ch_owner_pid a = ch_owner_pid b" "ch_clients a = ch_clients b" "ch_num_clients a = ch_num_clients b"
    "ch_name a = ch_name b" "ch_name_len a = ch_name_len b"
  using assms by (metis rest_simps)+

abbreviation wait_next_of :: "kst \<Rightarrow> ptr \<Rightarrow> ptr" where
  "wait_next_of k \<equiv> \<lambda>p. p_wait_next (k_procs k p)"

text \<open>Waking: every blocked process becomes Ready and leaves the list, and no process enters a run queue.\<close>

lemma wake_all_list:
  assumes "chain (wait_next_of k) a ws" "distinct ws"
  shows "\<exists>k'. wait_wake_all a k = Some k' \<and> (\<forall>q\<in>set ws. p_state (k_procs k' q) = PReady \<and> p_wait_next (k_procs k' q) = 0)
    \<and> (\<forall>q. q \<notin> set ws \<longrightarrow> k_procs k' q = k_procs k q) \<and> (\<forall>q. p_on_rq (k_procs k' q) = p_on_rq (k_procs k q)) \<and> k_rq k' = k_rq k"
  using assms
proof (induction ws arbitrary: a k)
  case Nil
  then show ?case by (subst wait_wake_all.simps) simp
next
  case (Cons x xs)
  let ?k = "upd_proc x (\<lambda>x. x\<lparr>p_state := PReady, p_wait_next := 0\<rparr>) k"
  have a: "a = x" "x \<noteq> 0" "chain (wait_next_of k) (p_wait_next (k_procs k x)) xs" using Cons.prems by auto
  have "chain (wait_next_of ?k) (p_wait_next (k_procs k x)) xs"
    using a(3) Cons.prems(2) by (subst chain_cong [where g = "wait_next_of k"]) (auto simp: upd_proc_def)
  from Cons.IH [OF this] Cons.prems(2) obtain k' where k': "wait_wake_all (p_wait_next (k_procs k x)) ?k = Some k'"
    "\<forall>q\<in>set xs. p_state (k_procs k' q) = PReady \<and> p_wait_next (k_procs k' q) = 0"
    "\<forall>q. q \<notin> set xs \<longrightarrow> k_procs k' q = k_procs ?k q" "\<forall>q. p_on_rq (k_procs k' q) = p_on_rq (k_procs ?k q)" "k_rq k' = k_rq ?k"
    by auto
  have "wait_wake_all a k = Some k'" using a(1,2) k'(1) by (subst wait_wake_all.simps) simp
  then show ?case using k' Cons.prems(2) by (auto simp: upd_proc_def)
qed

lemma chain_unique: "chain f a xs \<Longrightarrow> chain f a ys \<Longrightarrow> xs = ys"
proof (induction xs arbitrary: a ys)
  case Nil
  then show ?case by (cases ys) auto
next
  case (Cons x xs)
  then show ?case by (cases ys) auto
qed

text \<open>What a call on hart \<open>h\<close> that wakes the processes \<open>ws\<close> has done to the kernel state: they are Ready and in no wait list any more,
  every other process is untouched, the run queues are as before (nobody is put into one), and with someone to wake the hart is asked
  to reschedule.\<close>

definition woken :: "nat \<Rightarrow> ptr list \<Rightarrow> kst \<Rightarrow> kst \<Rightarrow> bool" where
  "woken h ws k k' \<longleftrightarrow> (\<forall>q\<in>set ws. p_state (k_procs k' q) = PReady \<and> p_wait_next (k_procs k' q) = 0)
     \<and> (\<forall>q. q \<notin> set ws \<longrightarrow> k_procs k' q = k_procs k q) \<and> (\<forall>q. p_on_rq (k_procs k' q) = p_on_rq (k_procs k q)) \<and> k_rq k' = k_rq k
     \<and> (ws \<noteq> [] \<and> h < MAX_HARTS \<longrightarrow> k_need_resched k' h)"

lemma woken_none: "woken h [] k k"
  by (simp add: woken_def)

lemma woken_list:
  assumes "chain (wait_next_of k) a ws" "distinct ws"
  shows "\<exists>k'. wait_wake_all a k = Some k' \<and> woken h ws k (set_need_resched h True k')"
  using wake_all_list [OF assms] by (auto simp: woken_def set_need_resched_def)

definition waits_ok :: "kst \<Rightarrow> ptr \<Rightarrow> bool" where
  "waits_ok k a \<longleftrightarrow> (\<exists>ws. chain (wait_next_of k) a ws \<and> distinct ws)"

definition is_open :: "nat \<Rightarrow> u32 \<Rightarrow> ipc \<Rightarrow> bool" where
  "is_open h cid s \<longleftrightarrow> length (ip_chans s) = CHAN_MAX \<and> unat cid < CHAN_MAX
     \<and> (let ch = ip_chans s ! unat cid in ch_used ch \<and> \<not> ch_closed ch \<and> ring_ok ch
         \<and> pid_allowed ch (current_pid h (ip_k s)) \<and> waits_ok (ip_k s) (ch_send_wait ch) \<and> waits_ok (ip_k s) (ch_recv_wait ch))"

lemma is_openD:
  assumes "is_open h cid s" "ch = ip_chans s ! unat cid"
  shows "length (ip_chans s) = CHAN_MAX" "unat cid < CHAN_MAX" "ch_used ch" "\<not> ch_closed ch" "ring_ok ch"
    "pid_allowed ch (current_pid h (ip_k s))" "waits_ok (ip_k s) (ch_send_wait ch)" "waits_ok (ip_k s) (ch_recv_wait ch)"
  using assms by (auto simp: is_open_def Let_def)

lemma room:
  assumes "ring_ok ch"
  shows "of_nat CHAN_BUF_SIZE - (ch_tail ch - ch_head ch) < len \<longleftrightarrow> CHAN_BUF_SIZE < unat len + length (content ch)"
proof -
  have n: "unat (ch_tail ch - ch_head ch) \<le> 4096" using assms by (simp add: ring_ok_def CHAN_BUF_SIZE_def)
  then have "ch_tail ch - ch_head ch \<le> (4096 :: u32)" by (simp add: word_le_nat_alt)
  then have "unat ((4096 :: u32) - (ch_tail ch - ch_head ch)) = 4096 - unat (ch_tail ch - ch_head ch)" by (subst unat_sub) simp_all
  then show ?thesis using n by (auto simp: word_less_nat_alt CHAN_BUF_SIZE_def)
qed

lemma send_room:
  assumes o: "is_open h cid s" and ch: "ch = ip_chans s ! unat cid" and len: "unat len + length (content ch) \<le> CHAN_BUF_SIZE"
  shows "\<exists>s'. send h cid buf len tf s = Some (IpcRet (Inr len), s')
    \<and> content (ip_chans s' ! unat cid) = content ch @ map buf [0..<unat len] \<and> ring_ok (ip_chans s' ! unat cid)
    \<and> (\<forall>ws. chain (wait_next_of (ip_k s)) (ch_recv_wait ch) ws \<longrightarrow> woken h ws (ip_k s) (ip_k s')) \<and> ch_recv_wait (ip_chans s' ! unat cid) = 0
    \<and> (\<forall>j. j \<noteq> unat cid \<longrightarrow> ip_chans s' ! j = ip_chans s ! j)"
proof -
  note d = is_openD [OF o ch]
  let ?c = "unat cid" let ?ch = "fold put_byte (map buf [0..<unat len]) ch"
  have f: "fold (\<lambda>i. put_byte (buf i)) [0..<unat len] = fold put_byte (map buf [0..<unat len])"
    by (simp add: fold_map comp_def)
  have r: "ring_ok ?ch \<and> content ?ch = content ch @ map buf [0..<unat len]"
    using len by (intro ring.puts_items [OF d(5)]) (simp add: add.commute)
  have rw: "ch_recv_wait ?ch = ch_recv_wait ch" by (rule rest_sel(2) [OF put_rest])
  have nb: "\<not> of_nat CHAN_BUF_SIZE - (ch_tail ch - ch_head ch) < len" using room [OF d(5), of len] len by simp
  let ?s = "upd_chan ?c (\<lambda>_. ?ch) s"
  have us: "upd_chan ?c (fold (\<lambda>i. put_byte (buf i)) [0..<unat len]) s = ?s" by (simp add: upd_chan_def f ch)
  have cs: "ip_chans ?s ! ?c = ?ch" "ip_k ?s = ip_k s" using d(1,2) by (simp_all add: upd_chan_def)
  show ?thesis
  proof (cases "ch_recv_wait ch = 0")
    case True
    then have "send h cid buf len tf s = Some (IpcRet (Inr len), ?s)"
      using d(2-4,6) nb by (simp add: send_def Let_def us cs rw ch [symmetric])
    moreover have "ws = []" if "chain (wait_next_of (ip_k s)) (ch_recv_wait ch) ws" for ws using that True by (cases ws) auto
    then have "\<forall>ws. chain (wait_next_of (ip_k s)) (ch_recv_wait ch) ws \<longrightarrow> woken h ws (ip_k s) (ip_k ?s)" using woken_none cs(2) by auto
    ultimately show ?thesis using r cs rw True by (auto simp: upd_chan_def)
  next
    case False
    obtain ws where ws: "chain (wait_next_of (ip_k s)) (ch_recv_wait ch) ws" "distinct ws" using d(8) by (auto simp: waits_ok_def)
    then obtain k' where k: "wait_wake_all (ch_recv_wait ch) (ip_k s) = Some k'" and wk: "woken h ws (ip_k s) (set_need_resched h True k')"
      using woken_list by blast
    have un: "\<forall>vs. chain (wait_next_of (ip_k s)) (ch_recv_wait ch) vs \<longrightarrow> vs = ws" using chain_unique ws(1) by blast
    from k have "send h cid buf len tf s = Some (IpcRet (Inr len),
        (upd_chan ?c (\<lambda>ch. ch\<lparr>ch_recv_wait := 0\<rparr>) ?s)\<lparr>ip_k := set_need_resched h True k'\<rparr>)"
      using d(2-4,6) nb False by (simp add: send_def Let_def us cs rw ch [symmetric])
    moreover have "content (?ch\<lparr>ch_recv_wait := 0\<rparr>) = content ?ch" "ring_ok (?ch\<lparr>ch_recv_wait := 0\<rparr>) = ring_ok ?ch"
      by (simp_all add: content_def ring_ok_def)
    ultimately show ?thesis using r d(1,2) wk un by (auto simp: upd_chan_def)
  qed
qed

lemma recv_some:
  assumes o: "is_open h cid s" and ch: "ch = ip_chans s ! unat cid" and ne: "content ch \<noteq> []"
  shows "\<exists>s'. recv h cid len tf s = Some (IpcRet (Inr (take (unat len) (content ch))), s')
    \<and> content (ip_chans s' ! unat cid) = drop (unat len) (content ch) \<and> ring_ok (ip_chans s' ! unat cid)
    \<and> (\<forall>ws. chain (wait_next_of (ip_k s)) (ch_send_wait ch) ws \<longrightarrow> woken h ws (ip_k s) (ip_k s')) \<and> ch_send_wait (ip_chans s' ! unat cid) = 0
    \<and> (\<forall>j. j \<noteq> unat cid \<longrightarrow> ip_chans s' ! j = ip_chans s ! j)"
proof -
  note d = is_openD [OF o ch]
  let ?c = "unat cid" let ?n = "unat (min len (ch_tail ch - ch_head ch))"
  obtain bs c' where g: "gets get_byte ?n ch = (bs, c')" by (cases "gets get_byte ?n ch")
  have n: "?n = min (unat len) (length (content ch))" by (simp add: min_def word_le_nat_alt)
  have r: "bs = take (unat len) (content ch)" "ring_ok c'" "content c' = drop (unat len) (content ch)"
    using ring.gets_items [OF d(5), of ?n] g n by (auto simp: min_def)
  have sw: "ch_send_wait c' = ch_send_wait ch" using rest_sel(1) [OF get_rest, of ?n ch] g by simp
  have nz: "ch_tail ch - ch_head ch \<noteq> 0" using ne length_content [of ch] by (metis length_0_conv unat_0)
  let ?s = "upd_chan ?c (\<lambda>_. c') s"
  have cs: "ip_chans ?s ! ?c = c'" "ip_k ?s = ip_k s" using d(1,2) by (simp_all add: upd_chan_def)
  show ?thesis
  proof (cases "ch_send_wait ch = 0")
    case True
    then have "recv h cid len tf s = Some (IpcRet (Inr bs), ?s)"
      using d(2-4,6) nz g sw by (simp add: recv_def Let_def ch [symmetric])
    moreover have "ws = []" if "chain (wait_next_of (ip_k s)) (ch_send_wait ch) ws" for ws using that True by (cases ws) auto
    then have "\<forall>ws. chain (wait_next_of (ip_k s)) (ch_send_wait ch) ws \<longrightarrow> woken h ws (ip_k s) (ip_k ?s)" using woken_none cs(2) by auto
    ultimately show ?thesis using r cs sw True by (auto simp: upd_chan_def)
  next
    case False
    obtain ws where ws: "chain (wait_next_of (ip_k s)) (ch_send_wait ch) ws" "distinct ws" using d(7) by (auto simp: waits_ok_def)
    then obtain k' where k: "wait_wake_all (ch_send_wait ch) (ip_k s) = Some k'" and wk: "woken h ws (ip_k s) (set_need_resched h True k')"
      using woken_list by blast
    have un: "\<forall>vs. chain (wait_next_of (ip_k s)) (ch_send_wait ch) vs \<longrightarrow> vs = ws" using chain_unique ws(1) by blast
    from k have "recv h cid len tf s = Some (IpcRet (Inr bs),
        (upd_chan ?c (\<lambda>ch. ch\<lparr>ch_send_wait := 0\<rparr>) ?s)\<lparr>ip_k := set_need_resched h True k'\<rparr>)"
      using d(2-4,6) nz g sw False cs by (simp add: recv_def Let_def ch [symmetric])
    moreover have "content (c'\<lparr>ch_send_wait := 0\<rparr>) = content c'" "ring_ok (c'\<lparr>ch_send_wait := 0\<rparr>) = ring_ok c'"
      by (simp_all add: content_def ring_ok_def)
    ultimately show ?thesis using r d(1,2) wk un by (auto simp: upd_chan_def)
  qed
qed

text \<open>C6: A channel is a reliable first-in first-out byte stream. On an open channel that the caller may use, whose wait lists are
  well-formed: a \<open>send\<close> that fits appends exactly its bytes, in order, at any position of the wrapping 32-bit counters; one that
  does not fit is refused as \<open>Busy\<close> and changes nothing when it may not block; a \<open>recv\<close> of a non-empty channel returns exactly the
  oldest bytes, at most as many as asked for, and removes them; a \<open>recv\<close> of an empty one that may not block returns nothing.
  After a successful \<open>send\<close> every process that was blocked in the channel's list of receivers, and after a successful \<open>recv\<close> every one in its
  list of senders, is Ready and the list is empty, no other process changes, and the hart is asked to reschedule if there was
  any; but nobody is put into a run queue. Both calls return, and no other channel changes.\<close>

theorem channel_fifo:
  assumes "is_open h cid s" "ch = ip_chans s ! unat cid"
  shows "(unat len + length (content ch) \<le> CHAN_BUF_SIZE \<longrightarrow>
       (\<exists>s'. send h cid buf len tf s = Some (IpcRet (Inr len), s')
          \<and> content (ip_chans s' ! unat cid) = content ch @ map buf [0..<unat len] \<and> ring_ok (ip_chans s' ! unat cid)
          \<and> (\<forall>ws. chain (wait_next_of (ip_k s)) (ch_recv_wait ch) ws \<longrightarrow> woken h ws (ip_k s) (ip_k s'))
          \<and> ch_recv_wait (ip_chans s' ! unat cid) = 0
          \<and> (\<forall>j. j \<noteq> unat cid \<longrightarrow> ip_chans s' ! j = ip_chans s ! j)))
    \<and> (CHAN_BUF_SIZE < unat len + length (content ch) \<longrightarrow> send h cid buf len None s = Some (IpcRet (Inl EBusy), s))
    \<and> (content ch \<noteq> [] \<longrightarrow>
       (\<exists>s'. recv h cid len tf s = Some (IpcRet (Inr (take (unat len) (content ch))), s')
          \<and> content (ip_chans s' ! unat cid) = drop (unat len) (content ch) \<and> ring_ok (ip_chans s' ! unat cid)
          \<and> (\<forall>ws. chain (wait_next_of (ip_k s)) (ch_send_wait ch) ws \<longrightarrow> woken h ws (ip_k s) (ip_k s'))
          \<and> ch_send_wait (ip_chans s' ! unat cid) = 0
          \<and> (\<forall>j. j \<noteq> unat cid \<longrightarrow> ip_chans s' ! j = ip_chans s ! j)))
    \<and> (content ch = [] \<longrightarrow> recv h cid len None s = Some (IpcRet (Inr []), s))"
proof (intro conjI impI)
  note d = is_openD [OF assms]
  show "send h cid buf len None s = Some (IpcRet (Inl EBusy), s)" if "CHAN_BUF_SIZE < unat len + length (content ch)"
    using that d room [OF d(5), of len] by (simp add: send_def Let_def assms(2) [symmetric])
  show "recv h cid len None s = Some (IpcRet (Inr []), s)" if "content ch = []"
  proof -
    have "ch_tail ch - ch_head ch = 0" using that by (metis length_content list.size(3) unat_eq_zero)
    then show ?thesis using d by (simp add: recv_def Let_def assms(2) [symmetric])
  qed
qed (use send_room [OF assms] recv_some [OF assms] in simp_all)

text \<open>A channel with the counters about to wrap and a process blocked in \<open>recv\<close>.\<close>

definition ipc1 :: ipc where
  "ipc1 = \<lparr>ip_k = kst0\<lparr>k_procs := (\<lambda>_. new_proc\<lparr>p_state := PWaiting\<rparr>)\<rparr>,
     ip_chans = channels0[0 := empty_channel\<lparr>ch_used := True, ch_head := 0xFFFFFFFF, ch_tail := 0xFFFFFFFF, ch_recv_wait := 0x2000\<rparr>]\<rparr>"

lemma ipc1_chan: "ip_chans ipc1 ! 0 = empty_channel\<lparr>ch_used := True, ch_head := 0xFFFFFFFF, ch_tail := 0xFFFFFFFF, ch_recv_wait := 0x2000\<rparr>"
  by (simp add: ipc1_def channels0_def CHAN_MAX_def)

lemma ipc1_open: "is_open 0 0 ipc1" "content (ip_chans ipc1 ! 0) = []" "chain (wait_next_of (ip_k ipc1)) 0x2000 [0x2000]"
proof -
  show w: "chain (wait_next_of (ip_k ipc1)) 0x2000 [0x2000]" by (simp add: ipc1_def new_proc_def)
  have "waits_ok k 0" for k unfolding waits_ok_def by (rule exI [of _ "[]"]) simp
  moreover have "waits_ok (ip_k ipc1) 0x2000" unfolding waits_ok_def using w by (intro exI [of _ "[0x2000]"]) simp
  moreover have "length (ip_chans ipc1) = CHAN_MAX" "current_pid 0 (ip_k ipc1) = 0"
    by (simp_all add: ipc1_def channels0_def current_pid_def kst0_def)
  ultimately show "is_open 0 0 ipc1"
    by (simp add: is_open_def ipc1_chan CHAN_MAX_def empty_channel_def ring_ok_def CHAN_BUF_SIZE_def pid_allowed_def)
  show "content (ip_chans ipc1 ! 0) = []"
    by (simp add: content_def ipc1_chan)
qed

theorem channel_fifo_witness:
  "\<exists>s'. send 0 0 (\<lambda>i. of_nat i + 65) 3 None ipc1 = Some (IpcRet (Inr 3), s') \<and> content (ip_chans s' ! 0) = [65, 66, 67]
     \<and> p_state (k_procs (ip_k ipc1) 0x2000) = PWaiting \<and> p_state (k_procs (ip_k s') 0x2000) = PReady"
proof -
  have b: "map (\<lambda>i. of_nat i + 65) [0..<unat (3 :: u32)] = [65, 66, 67 :: u8]" by (simp add: upt_rec)
  have r: "ch_recv_wait (ip_chans ipc1 ! 0) = 0x2000" by (simp add: ipc1_chan)
  from channel_fifo [OF ipc1_open(1), of "ip_chans ipc1 ! 0" 3 "\<lambda>i. of_nat i + 65" None] ipc1_open(2) obtain s' where
    s': "send 0 0 (\<lambda>i. of_nat i + 65) 3 None ipc1 = Some (IpcRet (Inr 3), s')" "content (ip_chans s' ! 0) = [65, 66, 67]"
    "\<forall>ws. chain (wait_next_of (ip_k ipc1)) 0x2000 ws \<longrightarrow> woken 0 ws (ip_k ipc1) (ip_k s')"
    unfolding b by (auto simp: CHAN_BUF_SIZE_def r)
  moreover have "p_state (k_procs (ip_k ipc1) 0x2000) = PWaiting" by (simp add: ipc1_def)
  moreover have "woken 0 [0x2000] (ip_k ipc1) (ip_k s')" using s'(3) ipc1_open(3) by blast
  ultimately show ?thesis using s'(1,2) by (auto simp: woken_def)
qed

section \<open>Access\<close>

definition clients_ok :: "channel \<Rightarrow> bool" where
  "clients_ok ch \<longleftrightarrow> length (ch_clients ch) = CHAN_MAX_CLIENTS \<and> unat (ch_num_clients ch) \<le> CHAN_MAX_CLIENTS"

definition may_use :: "channel \<Rightarrow> u32 \<Rightarrow> bool" where
  "may_use ch pid \<longleftrightarrow> ch_used ch \<and> pid_allowed ch pid"

text \<open>A step from \<open>a\<close> to \<open>b\<close> gives nobody but the processes \<open>N\<close> new access to the channel; for a table of channels \<open>A\<close> holds the pairs of a
  process and the channel it may gain access to.\<close>

definition grants :: "u32 set \<Rightarrow> channel \<Rightarrow> channel \<Rightarrow> bool" where
  "grants N a b \<longleftrightarrow> (clients_ok a \<longrightarrow> clients_ok b \<and> (\<forall>pid. may_use b pid \<longrightarrow> pid \<in> N \<or> may_use a pid))"

definition grants_all :: "(u32 \<times> nat) set \<Rightarrow> ipc \<Rightarrow> ipc \<Rightarrow> bool" where
  "grants_all A s s' \<longleftrightarrow> length (ip_chans s') = length (ip_chans s)
     \<and> (\<forall>c<length (ip_chans s). grants {q. (q, c) \<in> A} (ip_chans s ! c) (ip_chans s' ! c))"

lemma grants_refl [simp]: "grants N a a" "grants_all A s s"
  by (auto simp: grants_def grants_all_def)

lemma grants_trans: "grants N a b \<Longrightarrow> grants N b c \<Longrightarrow> grants N a c"
  unfolding grants_def by blast

lemma grants_all_trans: "grants_all A s t \<Longrightarrow> grants_all A t u \<Longrightarrow> grants_all A s u"
  by (simp add: grants_all_def) (meson grants_trans)

lemma grants_upd:
  assumes "grants {q. (q, c) \<in> A} (ip_chans s ! c) (f (ip_chans s ! c))"
  shows "grants_all A s (upd_chan c f s)" "grants_all A s ((upd_chan c f s)\<lparr>ip_k := k\<rparr>)"
proof -
  have "grants {q. (q, i) \<in> A} (ip_chans s ! i) ((ip_chans s)[c := f (ip_chans s ! c)] ! i)" if "i < length (ip_chans s)" for i
    using that assms by (cases "i = c") auto
  then show "grants_all A s (upd_chan c f s)" "grants_all A s ((upd_chan c f s)\<lparr>ip_k := k\<rparr>)"
    by (simp_all add: grants_all_def upd_chan_def)
qed

lemma grants_rest:
  assumes "ch_used b = ch_used a" "ch_owner_pid b = ch_owner_pid a" "ch_clients b = ch_clients a" "ch_num_clients b = ch_num_clients a"
  shows "grants N a b"
  using assms by (simp add: grants_def clients_ok_def may_use_def pid_allowed_def)

lemma unat_add_client: "unat (ch_num_clients ch) < CHAN_MAX_CLIENTS \<Longrightarrow> unat (ch_num_clients ch + 1) = Suc (unat (ch_num_clients ch))"
  by (simp add: unat_word_ariths CHAN_MAX_CLIENTS_def)

lemma grants_add: "unat (ch_num_clients ch) < CHAN_MAX_CLIENTS \<Longrightarrow> q \<in> N \<Longrightarrow> grants N ch (add_client q ch)"
proof -
  assume q: "q \<in> N" and a: "unat (ch_num_clients ch) < CHAN_MAX_CLIENTS"
  note n = unat_add_client [OF a]
  show ?thesis
    using a q by (auto simp: grants_def clients_ok_def may_use_def pid_allowed_def add_client_def n take_Suc_conv_app_nth)
qed

lemma grants_drop:
  assumes i: "i < unat (ch_num_clients ch)"
  shows "grants N ch (ch\<lparr>ch_clients := (ch_clients ch)[i := ch_clients ch ! (unat (ch_num_clients ch) - 1)],
    ch_num_clients := ch_num_clients ch - 1\<rparr>)"
proof -
  let ?n = "unat (ch_num_clients ch)" let ?xs = "ch_clients ch"
  have n: "unat (ch_num_clients ch - 1) = ?n - 1" using i by (intro unat_dec) simp
  have sub: "x \<in> set (take ?n ?xs)" if l: "?n \<le> length ?xs" and x: "x \<in> set (take (?n - 1) (?xs[i := ?xs ! (?n - 1)]))" for x
  proof -
    obtain j where j: "j < ?n - 1" "x = ?xs[i := ?xs ! (?n - 1)] ! j"
      using x [unfolded in_set_conv_nth] l by (auto simp del: set_take_subset)
    define m where "m = (if j = i then ?n - 1 else j)"
    have m: "m < ?n" "x = ?xs ! m" using i j l by (auto simp: m_def)
    then have "take ?n ?xs ! m \<in> set (take ?n ?xs)" using l by (intro nth_mem) simp
    then show ?thesis using m by simp
  qed
  show ?thesis
    unfolding grants_def
  proof (intro impI conjI allI)
    assume c: "clients_ok ch"
    then show "clients_ok (ch\<lparr>ch_clients := ?xs[i := ?xs ! (?n - 1)], ch_num_clients := ch_num_clients ch - 1\<rparr>)"
      using n by (auto simp: clients_ok_def)
    fix pid
    assume "may_use (ch\<lparr>ch_clients := ?xs[i := ?xs ! (?n - 1)], ch_num_clients := ch_num_clients ch - 1\<rparr>) pid"
    then show "pid \<in> N \<or> may_use ch pid"
      using sub [of pid] c n by (auto simp: may_use_def pid_allowed_def clients_ok_def)
  qed
qed

text \<open>What the caller is attached to by a call that returned \<open>r\<close>.\<close>

definition attach :: "u32 \<Rightarrow> errno + u32 \<Rightarrow> (u32 \<times> nat) set" where
  "attach q r = (case r of Inl e \<Rightarrow> {} | Inr c \<Rightarrow> {(q, unat c)})"

lemma attach_simps [simp]: "attach q (Inl e) = {}" "attach q (Inr c) = {(q, unat c)}"
  by (simp_all add: attach_def)

lemma unat_chan: "i < CHAN_MAX \<Longrightarrow> unat (of_nat i :: u32) = i"
  by (simp add: CHAN_MAX_def unat_of_nat)

lemma chan_create_grants:
  assumes "chan_create q s = (r, s')"
  shows "grants_all (attach q r) s s'"
proof (cases "find (\<lambda>i. \<not> ch_used (ip_chans s ! i)) [0..<CHAN_MAX]")
  case (Some i)
  then have "i < CHAN_MAX" by (auto simp: find_Some_iff)
  then show ?thesis using assms Some unfolding chan_create_def
    by (clarsimp simp: unat_chan, intro grants_upd) (simp add: grants_def clients_ok_def may_use_def pid_allowed_def)
qed (use assms in \<open>simp add: chan_create_def\<close>)

lemma create_named_cases:
  assumes "create_named name q s = (r, s')"
  shows "(\<exists>e. r = Inl e \<and> s' = s) \<or> (\<exists>t f n. chan_create q s = (r, t) \<and>
    (case r of Inl e \<Rightarrow> s' = t | Inr c \<Rightarrow> s' = upd_chan (unat c) (\<lambda>ch. ch\<lparr>ch_name := f ch, ch_name_len := n\<rparr>) t))"
  using assms by (cases "chan_create q s") (auto simp: create_named_def Let_def split: if_splits sum.splits)

lemma create_named_grants:
  assumes "create_named name q s = (r, s')"
  shows "grants_all (attach q r) s s'"
proof -
  have n: "grants_all A t (upd_chan i (\<lambda>ch. ch\<lparr>ch_name := f ch, ch_name_len := n\<rparr>) t)" for A i f n t
    by (intro grants_upd grants_rest) simp_all
  show ?thesis
    using create_named_cases [OF assms] chan_create_grants [of q s r] grants_all_trans [OF _ n] by (cases r) auto
qed

lemma open_grants: "open_by_name name q s = (r, s') \<Longrightarrow> grants_all (attach q r) s s'"
  by (auto simp: open_by_name_def Let_def not_le split: option.splits if_splits intro!: grants_upd grants_add)

lemma connect_grants: "connect cid q s = (r, s') \<Longrightarrow> grants_all (attach q (map_sum id (\<lambda>_. cid) r)) s s'"
  by (auto simp: connect_def Let_def not_le split: if_splits intro!: grants_upd grants_add)

lemma disconnect_grants: "grants_all A s (disconnect cid pid s)"
proof (cases "find (\<lambda>i. ch_clients (ip_chans s ! unat cid) ! i = pid) [0..<unat (ch_num_clients (ip_chans s ! unat cid))]")
  case (Some i)
  then have i: "i < unat (ch_num_clients (ip_chans s ! unat cid))" by (auto simp: find_Some_iff)
  show ?thesis using Some grants_drop [OF i] by (auto simp: disconnect_def Let_def intro!: grants_upd)
qed (simp add: disconnect_def Let_def)

lemma close_grants: "grants_all A s (snd (chan_close cid s))"
  by (auto simp: chan_close_def grants_def clients_ok_def may_use_def intro!: grants_upd)

lemma grants_k: "grants_all A s t \<Longrightarrow> grants_all A s (t\<lparr>ip_k := k\<rparr>)"
  by (simp add: grants_all_def)

lemma fold_grants: "grants N ch (fold (\<lambda>i. put_byte (buf i)) is ch)"
proof -
  have "fold (\<lambda>i. put_byte (buf i)) is ch = fold put_byte (map buf is) ch" by (simp add: fold_map comp_def)
  then show ?thesis using rest_sel [OF put_rest] by (intro grants_rest) simp_all
qed

lemma send_grants:
  assumes "send h cid buf len tf s = Some (r, s')"
  shows "grants_all A s s'"
proof -
  let ?f = "fold (\<lambda>i. put_byte (buf i)) [0..<unat len]" let ?t = "upd_chan (unat cid) ?f s"
  have 1: "grants_all A s ?t" by (intro grants_upd fold_grants)
  have 2: "grants_all A s (upd_chan (unat cid) (\<lambda>ch. ch\<lparr>ch_recv_wait := w\<rparr>) ?t)" for w
    by (rule grants_all_trans [OF 1]) (intro grants_upd grants_rest, simp_all)
  have 3: "grants_all A s (upd_chan (unat cid) (\<lambda>ch. ch\<lparr>ch_send_wait := w\<rparr>) s)" for w
    by (intro grants_upd grants_rest) simp_all
  show ?thesis
    using assms 1 2 [THEN grants_k] 3 [THEN grants_k]
    by (auto simp: send_def Let_def split: if_splits option.splits prod.splits)
qed

lemma recv_grants:
  assumes "recv h cid len tf s = Some (r, s')"
  shows "grants_all A s s'"
proof -
  let ?ch = "ip_chans s ! unat cid"
  have 1: "grants_all A s (upd_chan (unat cid) (\<lambda>_. snd (gets get_byte n ?ch)) s)" for n
    using rest_sel [OF get_rest, of n ?ch] by (intro grants_upd grants_rest) simp_all
  have 2: "grants_all A s (upd_chan (unat cid) (\<lambda>ch. ch\<lparr>ch_send_wait := w\<rparr>) (upd_chan (unat cid) (\<lambda>_. snd (gets get_byte n ?ch)) s))" for w n
    by (rule grants_all_trans [OF 1 [of n]]) (intro grants_upd grants_rest, simp_all)
  have 3: "grants_all A s (upd_chan (unat cid) (\<lambda>ch. ch\<lparr>ch_recv_wait := w\<rparr>) s)" for w
    by (intro grants_upd grants_rest) simp_all
  show ?thesis
    using assms 1 2 [THEN grants_k] 3 [THEN grants_k]
    by (auto simp: recv_def Let_def case_prod_beta split: if_splits option.splits)
qed

text \<open>Histories of channel operations. A step records the attachment it makes: a process \<open>q\<close> is attached to a channel by a creation, opening by
  name or connection of its own that returned success for that channel, and by nothing else. \<open>chan_run A s s'\<close>: a history from \<open>s\<close> to \<open>s'\<close> with the
  attachments \<open>A\<close>.\<close>

inductive chan_step :: "(u32 \<times> nat) set \<Rightarrow> ipc \<Rightarrow> ipc \<Rightarrow> bool" where
  create: "chan_create q s = (r, s') \<Longrightarrow> chan_step (attach q r) s s'"
| named: "create_named name q s = (r, s') \<Longrightarrow> chan_step (attach q r) s s'"
| openby: "open_by_name name q s = (r, s') \<Longrightarrow> chan_step (attach q r) s s'"
| conn: "connect cid q s = (r', s') \<Longrightarrow> chan_step (attach q (map_sum id (\<lambda>_. cid) r')) s s'"
| disc: "chan_step {} s (disconnect cid pid s)"
| close: "chan_step {} s (snd (chan_close cid s))"
| send: "send h cid buf len tf s = Some (sent, s') \<Longrightarrow> chan_step {} s s'"
| recv: "recv h cid len tf s = Some (received, s') \<Longrightarrow> chan_step {} s s'"
| kernel: "chan_step {} s (s\<lparr>ip_k := k\<rparr>)"

inductive chan_run :: "(u32 \<times> nat) set \<Rightarrow> ipc \<Rightarrow> ipc \<Rightarrow> bool" where
  start: "chan_run {} s s"
| step: "chan_run A s t \<Longrightarrow> chan_step B t u \<Longrightarrow> chan_run (A \<union> B) s u"

lemma chan_step_grants: "chan_step A s s' \<Longrightarrow> grants_all A s s'"
  by (induction rule: chan_step.induct)
    (auto intro: chan_create_grants create_named_grants open_grants connect_grants disconnect_grants close_grants
      send_grants recv_grants grants_k)

lemma chan_run_grants:
  assumes "chan_run A s s'" "\<forall>ch\<in>set (ip_chans s). clients_ok ch" "c < length (ip_chans s)"
  shows "length (ip_chans s') = length (ip_chans s) \<and> clients_ok (ip_chans s' ! c) \<and>
    (\<forall>pid. may_use (ip_chans s' ! c) pid \<longrightarrow> (pid, c) \<in> A \<or> may_use (ip_chans s ! c) pid)"
  using assms
proof (induction rule: chan_run.induct)
  case (step A s t B u)
  have "grants_all B t u" by (rule chan_step_grants [OF step(2)])
  then show ?case using step by (auto simp: grants_all_def grants_def)
qed simp

text \<open>The attachments are real: the caller may use the channel.\<close>

lemma add_client_may_use:
  assumes "clients_ok ch" "ch_used ch" "unat (ch_num_clients ch) < CHAN_MAX_CLIENTS"
  shows "may_use (add_client q ch) q"
  using assms by (simp add: may_use_def pid_allowed_def add_client_def clients_ok_def unat_add_client take_Suc_conv_app_nth)

lemma chan_create_may_use:
  assumes "length (ip_chans s) = CHAN_MAX" "chan_create q s = (Inr c, s')"
  shows "may_use (ip_chans s' ! unat c) q \<and> unat c < CHAN_MAX \<and> length (ip_chans s') = CHAN_MAX"
  using assms unat_chan by (auto simp: chan_create_def upd_chan_def may_use_def pid_allowed_def find_Some_iff split: option.splits)

lemma attach_may_use:
  assumes l: "length (ip_chans s) = CHAN_MAX" and ok: "\<forall>ch\<in>set (ip_chans s). clients_ok ch"
  shows "chan_create q s = (Inr c, s') \<Longrightarrow> may_use (ip_chans s' ! unat c) q"
    and "create_named name q s = (Inr c, s') \<Longrightarrow> may_use (ip_chans s' ! unat c) q"
    and "open_by_name name q s = (Inr c, s') \<Longrightarrow> may_use (ip_chans s' ! unat c) q"
    and "connect cid q s = (Inr (), s') \<Longrightarrow> may_use (ip_chans s' ! unat cid) q"
proof -
  show "may_use (ip_chans s' ! unat c) q" if "chan_create q s = (Inr c, s')" using chan_create_may_use [OF l that] by blast
  show "may_use (ip_chans s' ! unat c) q" if "create_named name q s = (Inr c, s')"
    using create_named_cases [OF that] chan_create_may_use [OF l]
    by (fastforce simp: upd_chan_def may_use_def pid_allowed_def)
  show "may_use (ip_chans s' ! unat c) q" if o: "open_by_name name q s = (Inr c, s')"
  proof -
    obtain i where i: "i < CHAN_MAX" "has_name name (ip_chans s ! i)" "find_by_name name s = Some (of_nat i)"
    proof (cases "find (\<lambda>i. has_name name (ip_chans s ! i)) [0..<CHAN_MAX]")
      case (Some i)
      then have "i < CHAN_MAX" "has_name name (ip_chans s ! i)" by (auto simp: find_Some_iff)
      then show ?thesis using that Some by (simp add: find_by_name_def)
    qed (use o in \<open>simp add: open_by_name_def find_by_name_def\<close>)
    let ?ch = "ip_chans s ! i"
    have ch: "ch_used ?ch" "clients_ok ?ch" using i(1,2) ok l by (auto simp: has_name_def)
    show ?thesis
      using o i(1,3) l ch add_client_may_use [OF ch(2,1)] unat_chan [OF i(1)]
      by (auto simp: open_by_name_def Let_def not_le upd_chan_def split: if_splits) (simp add: may_use_def pid_allowed_def)
  qed
  show "may_use (ip_chans s' ! unat cid) q" if o: "connect cid q s = (Inr (), s')"
    using o l ok by (auto simp: connect_def Let_def not_le upd_chan_def split: if_splits intro!: add_client_may_use)
qed

text \<open>C38: Access to a channel is gained by asking for that channel, and only so. Along every history of channel operations (creation, opening by
  name, connecting, disconnecting, closing, sending, receiving, interleaved with arbitrary other kernel activity), a process that
  may use a channel at the end could use it at the start or has, in the history, itself successfully created, opened or connected to this very channel;
  and right after such a call returned success for a channel the caller may use it. A process that may not use a channel
  can neither send nor receive on it: on a channel in use and not closed the call fails with \<open>Perm\<close> and changes nothing.\<close>

theorem channel_access:
  assumes "chan_run A s s'" "\<forall>ch\<in>set (ip_chans s). clients_ok ch" "length (ip_chans s) = CHAN_MAX" "unat cid < CHAN_MAX"
  shows "(may_use (ip_chans s' ! unat cid) pid \<longrightarrow> may_use (ip_chans s ! unat cid) pid \<or> (pid, unat cid) \<in> A)
    \<and> (\<not> may_use (ip_chans s' ! unat cid) pid \<and> current_pid h (ip_k s') = pid
        \<and> ch_used (ip_chans s' ! unat cid) \<and> \<not> ch_closed (ip_chans s' ! unat cid) \<longrightarrow>
        send h cid buf len tf s' = Some (IpcRet (Inl EPerm), s') \<and> recv h cid len tf s' = Some (IpcRet (Inl EPerm), s'))
    \<and> (\<forall>t. connect cid pid s' = (Inr (), t) \<longrightarrow> may_use (ip_chans t ! unat cid) pid)
    \<and> (\<forall>c t. chan_create pid s' = (Inr c, t) \<or> create_named name pid s' = (Inr c, t) \<or> open_by_name name pid s' = (Inr c, t)
        \<longrightarrow> may_use (ip_chans t ! unat c) pid)"
proof -
  note g = chan_run_grants [OF assms(1,2)]
  have l: "length (ip_chans s') = CHAN_MAX" using g [of 0] assms(3) by (simp add: CHAN_MAX_def)
  have "\<forall>ch\<in>set (ip_chans s'). clients_ok ch" using g assms(3) l by (auto simp: in_set_conv_nth)
  note m = attach_may_use [OF l this]
  have "may_use (ip_chans s' ! unat cid) pid \<longrightarrow> may_use (ip_chans s ! unat cid) pid \<or> (pid, unat cid) \<in> A"
    using g [of "unat cid"] assms(3,4) by auto
  moreover have "\<not> may_use (ip_chans s' ! unat cid) pid \<and> current_pid h (ip_k s') = pid
        \<and> ch_used (ip_chans s' ! unat cid) \<and> \<not> ch_closed (ip_chans s' ! unat cid) \<longrightarrow>
        send h cid buf len tf s' = Some (IpcRet (Inl EPerm), s') \<and> recv h cid len tf s' = Some (IpcRet (Inl EPerm), s')"
    using assms(4) by (auto simp: may_use_def send_def recv_def Let_def)
  ultimately show ?thesis using m by blast
qed

definition ipc2 :: ipc where
  "ipc2 = \<lparr>ip_k = kst0\<lparr>k_procs := (\<lambda>_. new_proc\<lparr>p_pid := 9, p_state := PRunning\<rparr>), k_hart_current := (\<lambda>_. 0x1000)\<rparr>,
     ip_chans = channels0[0 := empty_channel\<lparr>ch_used := True, ch_owner_pid := 5\<rparr>]\<rparr>"

theorem channel_access_witness:
  "recv 0 0 16 None (snd (connect 0 7 ipc2)) = Some (IpcRet (Inl EPerm), snd (connect 0 7 ipc2))"
proof -
  have c: "ip_chans ipc2 ! 0 = empty_channel\<lparr>ch_used := True, ch_owner_pid := 5\<rparr>"
    by (simp add: ipc2_def channels0_def CHAN_MAX_def)
  have e: "connect 0 7 ipc2 = (Inr (), upd_chan 0 (add_client 7) ipc2)"
    by (simp add: connect_def CHAN_MAX_def c empty_channel_def CHAN_MAX_CLIENTS_def)
  let ?s = "upd_chan 0 (add_client 7) ipc2"
  have r: "chan_run {(7, 0)} ipc2 ?s"
    using chan_run.step [OF chan_run.start chan_step.conn [OF e]] by simp
  have k: "\<forall>ch\<in>set (ip_chans ipc2). clients_ok ch"
    by (auto simp: ipc2_def channels0_def clients_ok_def empty_channel_def CHAN_MAX_CLIENTS_def dest!: set_update_subset_insert [THEN subsetD])
  have l: "length (ip_chans ipc2) = CHAN_MAX" "unat (0 :: u32) < CHAN_MAX" by (simp_all add: ipc2_def channels0_def CHAN_MAX_def)
  have n: "\<not> may_use (ip_chans ipc2 ! unat (0 :: u32)) 9"
    by (simp add: c may_use_def pid_allowed_def empty_channel_def)
  have p: "current_pid 0 (ip_k ?s) = 9" by (simp add: upd_chan_def ipc2_def current_pid_def)
  have o: "ch_used (ip_chans ?s ! unat (0 :: u32))" "\<not> ch_closed (ip_chans ?s ! unat (0 :: u32))"
    using l by (simp_all add: upd_chan_def c add_client_def empty_channel_def)
  show ?thesis
    using channel_access [OF r k l, of 9 0 "\<lambda>_. 0" 16 None "[]"] n p o unfolding e by auto
qed

text \<open>Woken processes are Ready but in no run queue, so the scheduler does not find them.\<close>

lemma woken_not_queued:
  assumes "chain (wait_next_of k) a (p # ws)" "distinct (p # ws)" "\<not> p_on_rq (k_procs k p)"
  shows "\<exists>k'. wait_wake_all a k = Some k' \<and> p_state (k_procs k' p) = PReady \<and> \<not> p_on_rq (k_procs k' p) \<and> k_rq k' = k_rq k"
  using wake_all_list [OF assms(1,2)] assms(3) by auto

end
