(* ===== verification/Syscall.thy ===== *)
theory Syscall
  imports Signals Ipc
begin

text \<open>
  System calls: the numbers of \<open>syscall/abi.rs\<close>, the access check and the user pointer check of
  \<open>syscall/handler.rs\<close>, and the handlers of \<open>ring_sys.rs\<close>, \<open>proc_sys.rs\<close> and \<open>ipc_sys.rs\<close> over the kernel state with the
  channels. User memory, which the handlers read through raw pointers, is a function from addresses to bytes.
\<close>

definition SYS_write :: u64 where "SYS_write = 1"
definition SYS_read :: u64 where "SYS_read = 2"
definition SYS_exit :: u64 where "SYS_exit = 3"
definition SYS_yield :: u64 where "SYS_yield = 4"
definition SYS_getpid :: u64 where "SYS_getpid = 5"
definition SYS_brk :: u64 where "SYS_brk = 6"
definition SYS_mmap :: u64 where "SYS_mmap = 7"
definition SYS_open :: u64 where "SYS_open = 8"
definition SYS_close :: u64 where "SYS_close = 9"
definition SYS_lseek :: u64 where "SYS_lseek = 10"
definition SYS_stat :: u64 where "SYS_stat = 11"
definition SYS_exec :: u64 where "SYS_exec = 12"
definition SYS_sbrk :: u64 where "SYS_sbrk = 13"
definition SYS_spawn :: u64 where "SYS_spawn = 14"
definition SYS_wait :: u64 where "SYS_wait = 15"
definition SYS_readdir :: u64 where "SYS_readdir = 16"
definition SYS_getring :: u64 where "SYS_getring = 17"
definition SYS_dropring :: u64 where "SYS_dropring = 18"
definition SYS_snapshot_create :: u64 where "SYS_snapshot_create = 19"
definition SYS_snapshot_rollback :: u64 where "SYS_snapshot_rollback = 20"
definition SYS_snapshot_list :: u64 where "SYS_snapshot_list = 21"
definition SYS_kill :: u64 where "SYS_kill = 22"
definition SYS_sigmask :: u64 where "SYS_sigmask = 23"
definition SYS_write_fd :: u64 where "SYS_write_fd = 24"
definition SYS_create :: u64 where "SYS_create = 25"
definition SYS_mkdir :: u64 where "SYS_mkdir = 26"
definition SYS_chan_create :: u64 where "SYS_chan_create = 27"
definition SYS_chan_connect :: u64 where "SYS_chan_connect = 28"
definition SYS_chan_send :: u64 where "SYS_chan_send = 29"
definition SYS_chan_recv :: u64 where "SYS_chan_recv = 30"
definition SYS_chan_close :: u64 where "SYS_chan_close = 31"
definition SYS_chan_create_named :: u64 where "SYS_chan_create_named = 32"
definition SYS_chan_open :: u64 where "SYS_chan_open = 33"
definition SYS_munmap :: u64 where "SYS_munmap = 34"
definition SYS_dup :: u64 where "SYS_dup = 35"
definition SYS_pipe :: u64 where "SYS_pipe = 36"
definition SYS_unlink :: u64 where "SYS_unlink = 37"
definition SYS_rename :: u64 where "SYS_rename = 38"
definition SYS_chdir :: u64 where "SYS_chdir = 39"
definition SYS_getcwd :: u64 where "SYS_getcwd = 40"
definition SYS_truncate :: u64 where "SYS_truncate = 41"
definition SYS_access :: u64 where "SYS_access = 42"
definition SYS_gettimeofday :: u64 where "SYS_gettimeofday = 43"
definition SYS_fcntl :: u64 where "SYS_fcntl = 44"
definition SYS_getuid :: u64 where "SYS_getuid = 45"
definition SYS_getgid :: u64 where "SYS_getgid = 46"
definition SYS_utimens :: u64 where "SYS_utimens = 47"
definition SYS_uname :: u64 where "SYS_uname = 48"
definition SYS_nanosleep :: u64 where "SYS_nanosleep = 49"
definition SYS_fstat :: u64 where "SYS_fstat = 50"
definition SYS_waitpid :: u64 where "SYS_waitpid = 51"
definition SYS_getdents64 :: u64 where "SYS_getdents64 = 52"
definition SYS_ioctl :: u64 where "SYS_ioctl = 53"
definition SYS_mprotect :: u64 where "SYS_mprotect = 54"
definition SYS_sigaction :: u64 where "SYS_sigaction = 55"
definition SYS_sigprocmask :: u64 where "SYS_sigprocmask = 56"
definition SYS_sigreturn :: u64 where "SYS_sigreturn = 57"
definition SYS_execve :: u64 where "SYS_execve = 58"
definition SYS_getppid :: u64 where "SYS_getppid = 59"
definition SYS_setpgid :: u64 where "SYS_setpgid = 60"
definition SYS_setsid :: u64 where "SYS_setsid = 61"
definition SYS_getpgid :: u64 where "SYS_getpgid = 62"
definition SYS_fork :: u64 where "SYS_fork = 63"
definition SYS_clock_gettime :: u64 where "SYS_clock_gettime = 64"
definition SYS_clock_getres :: u64 where "SYS_clock_getres = 65"
definition SYS_isatty :: u64 where "SYS_isatty = 66"
definition SYS_getentropy :: u64 where "SYS_getentropy = 67"
definition SYS_setuid :: u64 where "SYS_setuid = 68"
definition SYS_setgid :: u64 where "SYS_setgid = 69"
definition SYS_fsync :: u64 where "SYS_fsync = 70"
definition SYS_truncate2 :: u64 where "SYS_truncate2 = 71"
definition SYS_ftruncate :: u64 where "SYS_ftruncate = 72"
definition SYS_readlink :: u64 where "SYS_readlink = 73"
definition SYS_symlink :: u64 where "SYS_symlink = 74"
definition SYS_chmod :: u64 where "SYS_chmod = 75"
definition SYS_fchmod :: u64 where "SYS_fchmod = 76"
definition SYS_getdents :: u64 where "SYS_getdents = 77"
definition SYS_sched_setaffinity :: u64 where "SYS_sched_setaffinity = 78"
definition SYS_sched_getaffinity :: u64 where "SYS_sched_getaffinity = 79"
definition SYS_net_connect :: u64 where "SYS_net_connect = 80"
definition SYS_net_send :: u64 where "SYS_net_send = 81"
definition SYS_net_recv :: u64 where "SYS_net_recv = 82"
definition SYS_net_close :: u64 where "SYS_net_close = 83"

text \<open>The two arms of the access check: calls for every ring, and calls for rings 0 and 1.\<close>

definition user_calls :: "u64 list" where
  "user_calls = [
     SYS_write, SYS_read, SYS_exit, SYS_yield, SYS_getpid, SYS_sbrk, SYS_open, SYS_close,
     SYS_lseek, SYS_stat, SYS_exec, SYS_readdir, SYS_getring, SYS_dropring, SYS_sigmask,
     SYS_write_fd, SYS_chan_connect, SYS_chan_send, SYS_chan_recv, SYS_chan_close, SYS_chan_open,
     SYS_brk, SYS_mmap, SYS_munmap, SYS_dup, SYS_chdir, SYS_getcwd, SYS_access, SYS_gettimeofday,
     SYS_fcntl, SYS_getuid, SYS_getgid, SYS_uname, SYS_nanosleep, SYS_fstat, SYS_getdents64,
     SYS_getdents, SYS_ioctl, SYS_mprotect, SYS_sigaction, SYS_sigprocmask, SYS_sigreturn,
     SYS_execve, SYS_getppid, SYS_clock_gettime, SYS_clock_getres, SYS_isatty, SYS_getentropy,
     SYS_waitpid, SYS_fork, SYS_ftruncate, SYS_truncate2, SYS_readlink, SYS_setsid, SYS_getpgid,
     SYS_setpgid, SYS_sched_setaffinity, SYS_sched_getaffinity, SYS_net_connect, SYS_net_send,
     SYS_net_recv, SYS_net_close]"

definition root_calls :: "u64 list" where
  "root_calls = [
     SYS_spawn, SYS_wait, SYS_snapshot_create, SYS_snapshot_rollback, SYS_snapshot_list, SYS_kill,
     SYS_create, SYS_mkdir, SYS_chan_create, SYS_chan_create_named, SYS_unlink, SYS_rename,
     SYS_truncate, SYS_utimens, SYS_pipe, SYS_setuid, SYS_setgid, SYS_fsync, SYS_symlink,
     SYS_chmod, SYS_fchmod]"

definition syscall_allowed :: "u64 \<Rightarrow> u8 \<Rightarrow> bool" where
  "syscall_allowed nr ring =
     (if nr \<in> set user_calls then True
      else if nr \<in> set root_calls then ring \<le> PROC_RING_ROOT
      else False)"

definition USER_BASE :: u64 where "USER_BASE = 0x10000"
definition USER_TOP :: u64 where "USER_TOP = 0x40000000"

definition user_ptr_ok :: "u64 \<Rightarrow> u64 \<Rightarrow> bool" where
  "user_ptr_ok p len \<longleftrightarrow> USER_BASE \<le> p \<and> unat p + unat len < 2 ^ 64 \<and> p + len \<le> USER_TOP"

fun path_len :: "(u64 \<Rightarrow> u8) \<Rightarrow> u64 \<Rightarrow> nat \<Rightarrow> nat \<Rightarrow> nat" where
  "path_len umem p 0 len = len"
| "path_len umem p (Suc left) len = (if umem (p + of_nat len) \<noteq> 0 then path_len umem p left (len + 1) else len)"

text \<open>The loop \<open>while *p.add(len) != 0 && len < 256\<close> makes at most 256 steps.\<close>

definition parse_user_path :: "(u64 \<Rightarrow> u8) \<Rightarrow> u64 \<Rightarrow> bytes option" where
  "parse_user_path umem path =
     (if \<not> user_ptr_ok path 1 then None
      else Some (map (\<lambda>i. umem (path + of_nat i)) [0..<path_len umem path 256 0]))"

definition ret_of :: "('a \<Rightarrow> int) \<Rightarrow> errno + 'a \<Rightarrow> int" where
  "ret_of f r = (case r of Inl e \<Rightarrow> as_i64 e | Inr x \<Rightarrow> f x)"

lemmas sys_nr_defs =
  SYS_write_def SYS_read_def SYS_exit_def SYS_yield_def SYS_getpid_def
  SYS_brk_def SYS_mmap_def SYS_open_def SYS_close_def SYS_lseek_def
  SYS_stat_def SYS_exec_def SYS_sbrk_def SYS_spawn_def SYS_wait_def
  SYS_readdir_def SYS_getring_def SYS_dropring_def SYS_snapshot_create_def SYS_snapshot_rollback_def
  SYS_snapshot_list_def SYS_kill_def SYS_sigmask_def SYS_write_fd_def SYS_create_def
  SYS_mkdir_def SYS_chan_create_def SYS_chan_connect_def SYS_chan_send_def SYS_chan_recv_def
  SYS_chan_close_def SYS_chan_create_named_def SYS_chan_open_def SYS_munmap_def SYS_dup_def
  SYS_pipe_def SYS_unlink_def SYS_rename_def SYS_chdir_def SYS_getcwd_def
  SYS_truncate_def SYS_access_def SYS_gettimeofday_def SYS_fcntl_def SYS_getuid_def
  SYS_getgid_def SYS_utimens_def SYS_uname_def SYS_nanosleep_def SYS_fstat_def
  SYS_waitpid_def SYS_getdents64_def SYS_ioctl_def SYS_mprotect_def SYS_sigaction_def
  SYS_sigprocmask_def SYS_sigreturn_def SYS_execve_def SYS_getppid_def SYS_setpgid_def
  SYS_setsid_def SYS_getpgid_def SYS_fork_def SYS_clock_gettime_def SYS_clock_getres_def
  SYS_isatty_def SYS_getentropy_def SYS_setuid_def SYS_setgid_def SYS_fsync_def
  SYS_truncate2_def SYS_ftruncate_def SYS_readlink_def SYS_symlink_def SYS_chmod_def
  SYS_fchmod_def SYS_getdents_def SYS_sched_setaffinity_def SYS_sched_getaffinity_def SYS_net_connect_def
  SYS_net_send_def SYS_net_recv_def SYS_net_close_def

section \<open>Rings and processes\<close>

definition sys_getring :: "nat \<Rightarrow> kst \<Rightarrow> int" where
  "sys_getring h s = uint (current_ring h s)"

definition sys_dropring :: "nat \<Rightarrow> u8 \<Rightarrow> kst \<Rightarrow> int \<times> kst" where
  "sys_dropring h target s =
     (let p = current h s in
      if target < p_ring (k_procs s p) then (as_i64 EPerm, s)
      else if target = p_ring (k_procs s p) then (0, s)
      else (0, upd_proc p (\<lambda>x. x\<lparr>p_ring := target\<rparr>) s))"

definition sys_exit :: "nat \<Rightarrow> u64 \<Rightarrow> kst \<Rightarrow> (int \<times> kst) option" where
  "sys_exit h code s = map_option (Pair 0) (proc_exit h (current_pid h s) (ucast code) s)"

definition sys_yield :: "nat \<Rightarrow> kst \<Rightarrow> int \<times> kst" where
  "sys_yield h s = (0, set_need_resched h True s)"

definition sys_getpid :: "nat \<Rightarrow> kst \<Rightarrow> int" where
  "sys_getpid h s = uint (current_pid h s)"

definition sys_wait :: "nat \<Rightarrow> trap_frame \<Rightarrow> u64 \<Rightarrow> kst \<Rightarrow> ((int \<times> u32 option) option \<times> kst) option" where
  "sys_wait h tf status_out s =
     (let store = (status_out \<noteq> 0 \<and> user_ptr_ok status_out 4) in
      map_option (\<lambda>(r, s).
        (case r of
           WaitRet (Inr (pid, code)) \<Rightarrow> Some (uint pid, if store then Some code else None)
         | WaitRet (Inl e) \<Rightarrow> Some (as_i64 e, None)
         | WaitYield out \<Rightarrow> None, s)) (wait h tf s))"

definition sys_kill :: "nat \<Rightarrow> u32 \<Rightarrow> u32 \<Rightarrow> kst \<Rightarrow> (int \<times> kst) option" where
  "sys_kill h pid signal s = map_option (\<lambda>(r, s). (ret_of (\<lambda>_. 0) r, s)) (signal_send h pid signal s)"

definition sys_sigmask :: "nat \<Rightarrow> u32 \<Rightarrow> u32 \<Rightarrow> kst \<Rightarrow> int \<times> kst" where
  "sys_sigmask h how sig s =
     (if 32 \<le> sig then (as_i64 EInval, s)
      else
        let p = current h s in
        if how = 0 then
          (0, if sig \<noteq> SIG_KILL then upd_proc p (\<lambda>x. x\<lparr>p_signal_mask := p_signal_mask x OR sigbit sig\<rparr>) s else s)
        else if how = 1 then (0, upd_proc p (\<lambda>x. x\<lparr>p_signal_mask := p_signal_mask x AND NOT (sigbit sig)\<rparr>) s)
        else if how = 2 then (0, upd_proc p (\<lambda>x. x\<lparr>p_signal_mask := if sig \<noteq> SIG_KILL then sigbit sig else 0\<rparr>) s)
        else (as_i64 EInval, s))"

definition sys_sched_setaffinity :: "nat \<Rightarrow> u64 \<Rightarrow> int \<Rightarrow> kst \<Rightarrow> (int \<times> kst) option" where
  "sys_sched_setaffinity h pid cpu s =
     (if cpu < -1 \<or> int MAX_HARTS \<le> cpu then Some (as_i64 EInval, s)
      else case by_pid (ucast pid) s of
        None \<Rightarrow> None
      | Some p \<Rightarrow>
          if p = 0 then Some (as_i64 ENoEnt, s)
          else
            let cur = k_procs s (current h s) in
            if p_pid cur \<noteq> ucast pid \<and> PROC_RING_ROOT < p_ring cur then Some (as_i64 EPerm, s)
            else Some (0, upd_proc p (\<lambda>x. x\<lparr>p_affinity := of_int cpu\<rparr>) s))"

definition sys_sched_getaffinity :: "u64 \<Rightarrow> kst \<Rightarrow> int option" where
  "sys_sched_getaffinity pid s =
     map_option (\<lambda>p. if p = 0 then as_i64 ENoEnt else sint (p_affinity (k_procs s p))) (by_pid (ucast pid) s)"

section \<open>Channels\<close>

definition sys_chan_create :: "nat \<Rightarrow> ipc \<Rightarrow> int \<times> ipc" where
  "sys_chan_create h s = map_prod (ret_of uint) id (chan_create (current_pid h (ip_k s)) s)"

definition sys_chan_create_named :: "(u64 \<Rightarrow> u8) \<Rightarrow> nat \<Rightarrow> u64 \<Rightarrow> ipc \<Rightarrow> int \<times> ipc" where
  "sys_chan_create_named umem h name_ptr s =
     (case parse_user_path umem name_ptr of
        None \<Rightarrow> (as_i64 EInval, s)
      | Some name \<Rightarrow> map_prod (ret_of uint) id (create_named name (current_pid h (ip_k s)) s))"

definition sys_chan_open :: "(u64 \<Rightarrow> u8) \<Rightarrow> nat \<Rightarrow> u64 \<Rightarrow> ipc \<Rightarrow> int \<times> ipc" where
  "sys_chan_open umem h name_ptr s =
     (case parse_user_path umem name_ptr of
        None \<Rightarrow> (as_i64 EInval, s)
      | Some name \<Rightarrow> map_prod (ret_of uint) id (open_by_name name (current_pid h (ip_k s)) s))"

definition sys_chan_connect :: "nat \<Rightarrow> u32 \<Rightarrow> ipc \<Rightarrow> int \<times> ipc" where
  "sys_chan_connect h chan_id s = map_prod (ret_of (\<lambda>_. 0)) id (connect chan_id (current_pid h (ip_k s)) s)"

text \<open>A blocked call that switches away has no return value.\<close>

definition ipc_ret :: "('a \<Rightarrow> int) \<Rightarrow> 'a ipc_out \<Rightarrow> int option" where
  "ipc_ret f r = (case r of IpcRet x \<Rightarrow> Some (ret_of f x) | IpcYield out \<Rightarrow> None)"

definition sys_chan_send :: "(u64 \<Rightarrow> u8) \<Rightarrow> nat \<Rightarrow> trap_frame \<Rightarrow> u32 \<Rightarrow> u64 \<Rightarrow> u64 \<Rightarrow> ipc \<Rightarrow> (int option \<times> ipc) option" where
  "sys_chan_send umem h tf chan_id buf len s =
     (if \<not> user_ptr_ok buf len then Some (Some (as_i64 EInval), s)
      else map_option (map_prod (ipc_ret uint) id) (send h chan_id (\<lambda>i. umem (buf + of_nat i)) (ucast len) (Some tf) s))"

text \<open>The bytes received are stored at \<open>buf\<close>; the handler returns their number.\<close>

definition sys_chan_recv :: "nat \<Rightarrow> trap_frame \<Rightarrow> u32 \<Rightarrow> u64 \<Rightarrow> u64 \<Rightarrow> ipc \<Rightarrow> ((bytes ipc_out \<times> int option) \<times> ipc) option" where
  "sys_chan_recv h tf chan_id buf len s =
     (if \<not> user_ptr_ok buf len then Some ((IpcRet (Inl EInval), Some (as_i64 EInval)), s)
      else map_option (map_prod (\<lambda>r. (r, ipc_ret (\<lambda>bs. int (length bs)) r)) id) (recv h chan_id (ucast len) (Some tf) s))"

definition sys_chan_close :: "u32 \<Rightarrow> ipc \<Rightarrow> int \<times> ipc" where
  "sys_chan_close chan_id s = map_prod (ret_of (\<lambda>_. 0)) id (chan_close chan_id s)"

section \<open>Dispatch\<close>

text \<open>\<open>handle\<close> with the handlers modelled here; a call that passes the access check and whose handler lives in
  \<open>fs_sys\<close>, \<open>fs_sys2\<close>, \<open>fs_sys3\<close>, \<open>snap_sys\<close>, \<open>net_sys\<close> or is \<open>sys_spawn\<close> is handed on (\<open>Elsewhere\<close>).
  \<open>Done\<close> carries the return value, or none if the call switched to another process, the frame and the bytes stored in user memory.\<close>

datatype sys_out =
    Done "int option" trap_frame "(u64 \<times> bytes) option" ipc
  | Elsewhere u64

definition done_k :: "trap_frame \<Rightarrow> ipc \<Rightarrow> int \<times> kst \<Rightarrow> sys_out" where
  "done_k tf s r = Done (Some (fst r)) tf None (s\<lparr>ip_k := snd r\<rparr>)"

definition done_i :: "trap_frame \<Rightarrow> int \<times> ipc \<Rightarrow> sys_out" where
  "done_i tf r = Done (Some (fst r)) tf None (snd r)"

definition wait_store :: "u64 \<Rightarrow> (int \<times> u32 option) option \<Rightarrow> (u64 \<times> bytes) option" where
  "wait_store a r = (case r of Some (_, Some code) \<Rightarrow> Some (a, to_le 4 code) | _ \<Rightarrow> None)"

definition recv_store :: "u64 \<Rightarrow> bytes ipc_out \<Rightarrow> (u64 \<times> bytes) option" where
  "recv_store a out = (case out of IpcRet (Inr bs) \<Rightarrow> Some (a, bs) | _ \<Rightarrow> None)"

definition handle :: "(u64 \<Rightarrow> u8) \<Rightarrow> nat \<Rightarrow> trap_frame \<Rightarrow> ipc \<Rightarrow> sys_out option" where
  "handle umem h tf s =
     (let nr = tf_a7 tf; a0 = tf_a0 tf; a1 = tf_a1 tf; a2 = tf_a2 tf; k = ip_k s in
      if \<not> syscall_allowed nr (current_ring h k) then Some (Done (Some (as_i64 EPerm)) tf None s)
      else if nr = SYS_exit then map_option (done_k tf s) (sys_exit h a0 k)
      else if nr = SYS_yield then Some (done_k tf s (sys_yield h k))
      else if nr = SYS_getpid then Some (done_k tf s (sys_getpid h k, k))
      else if nr = SYS_wait then
        map_option (\<lambda>(r, k). Done (map_option fst r) tf (wait_store a0 r) (s\<lparr>ip_k := k\<rparr>)) (sys_wait h tf a0 k)
      else if nr = SYS_getring then Some (done_k tf s (sys_getring h k, k))
      else if nr = SYS_dropring then Some (done_k tf s (sys_dropring h (ucast a0) k))
      else if nr = SYS_kill then map_option (done_k tf s) (sys_kill h (ucast a0) (ucast a1) k)
      else if nr = SYS_sigmask then Some (done_k tf s (sys_sigmask h (ucast a0) (ucast a1) k))
      else if nr = SYS_chan_create then Some (done_i tf (sys_chan_create h s))
      else if nr = SYS_chan_create_named then Some (done_i tf (sys_chan_create_named umem h a0 s))
      else if nr = SYS_chan_open then Some (done_i tf (sys_chan_open umem h a0 s))
      else if nr = SYS_chan_connect then Some (done_i tf (sys_chan_connect h (ucast a0) s))
      else if nr = SYS_chan_send then
        map_option (\<lambda>(r, s). Done r tf None s) (sys_chan_send umem h tf (ucast a0) a1 a2 s)
      else if nr = SYS_chan_recv then
        map_option (\<lambda>((out, r), s). Done r tf (recv_store a1 out) s)
          (sys_chan_recv h tf (ucast a0) a1 a2 s)
      else if nr = SYS_chan_close then Some (done_i tf (sys_chan_close (ucast a0) s))
      else if nr = SYS_sigaction then Some (done_k tf s (map_prod (ret_of (\<lambda>_. 0)) id (sigaction h (ucast a0) a1 a2 k)))
      else if nr = SYS_sigprocmask then Some (done_k tf s (map_prod (ret_of (\<lambda>_. 0)) id (sigprocmask h (ucast a0) a1 a2 k)))
      else if nr = SYS_sigreturn then Some (let (tf, k) = sigreturn h tf k in Done (Some 0) tf None (s\<lparr>ip_k := k\<rparr>))
      else if nr = SYS_sched_setaffinity then map_option (done_k tf s) (sys_sched_setaffinity h a0 (sint a1) k)
      else if nr = SYS_sched_getaffinity then map_option (\<lambda>r. done_k tf s (r, k)) (sys_sched_getaffinity a0 k)
      else Some (Elsewhere nr))"


text \<open>The end of \<open>sys_exec\<close>, once the image has been loaded and its arguments have been copied.\<close>

record onx_load_result =
  ld_entry :: u64
  ld_root_pa :: u64
  ld_ustack :: u64
  ld_heap_brk :: u64
  ld_ring :: u8

definition exec_install :: "nat \<Rightarrow> onx_load_result \<Rightarrow> u64 \<Rightarrow> u64 \<Rightarrow> trap_frame \<Rightarrow> kst \<Rightarrow> int \<times> trap_frame \<times> kst" where
  "exec_install h r argc argv_sp tf s =
     (if current_ring h s = PROC_RING_USER \<and> ld_ring r = 1 then (as_i64 EPerm, tf, s)
      else
        let p = current h s;
            root = p_root_pa (k_procs s p);
            s = (if root \<noteq> 0 then s\<lparr>k_mm := destroy_root root (k_mm s)\<rparr> else s);
            sp = (if argc > 0 then argv_sp else ld_ustack r);
            s = upd_proc p (\<lambda>x. x\<lparr>p_root_pa := ld_root_pa r, p_entry := ld_entry r, p_ustack := sp, p_heap_brk := ld_heap_brk r,
                  p_ring := if ld_ring r = 1 then PROC_RING_ROOT else PROC_RING_USER\<rparr>) s
        in (sint argc,
            tf\<lparr>tf_sepc := ld_entry r - 4, tf_sp := sp, tf_a0 := argc, tf_a1 := if argc > 0 then argv_sp + 8 else 0,
               tf_sstatus := SSTATUS_SPIE, tf_satp := SATP_MODE_SV39 OR drop_bit 12 (ld_root_pa r)\<rparr>, s))"

section \<open>Privileges\<close>

definition same_rings :: "kst \<Rightarrow> kst \<Rightarrow> bool" where
  "same_rings s s' \<longleftrightarrow> (\<forall>p. p_ring (k_procs s' p) = p_ring (k_procs s p))"

lemma same_rings_refl [simp]: "same_rings s s" by (simp add: same_rings_def)

lemma same_rings_trans: "same_rings s t \<Longrightarrow> same_rings t u \<Longrightarrow> same_rings s u" by (simp add: same_rings_def)

lemma same_core_rings: "same_core s s' \<Longrightarrow> same_rings s s'"
  unfolding same_core_def same_rings_def by (metis core_sel(3))

lemma ring_upd: "(\<And>x. p_ring (f x) = p_ring x) \<Longrightarrow> same_rings s (upd_proc p f s)"
  by (simp add: same_rings_def upd_proc_def)

lemma ring_enq [simp]: "p_ring (k_procs (enqueue h p s) q) = p_ring (k_procs s q)"
  using same_core_rings [OF enqueue_core] by (simp add: same_rings_def)

lemma ring_deq [simp]: "p_ring (k_procs (snd (dequeue h s)) q) = p_ring (k_procs s q)"
  using same_core_rings [OF dequeue_core] by (simp add: same_rings_def)

lemma ring_steal_from [simp]: "p_ring (k_procs (snd (steal_from h is s)) p) = p_ring (k_procs s p)"
proof (induction "is" arbitrary: s)
  case (Cons i "is")
  then show ?case by (simp add: Let_def case_prod_beta)
qed simp

lemma ring_finish [simp]: "p_ring (k_procs (snd (sched_finish h cur nxt s)) p) = p_ring (k_procs s p)"
  by (simp add: sched_finish_def Let_def upd_proc_def set_need_resched_def set_current_for_hart_def)

lemma ring_sched_steal [simp]: "p_ring (k_procs (snd (sched_steal h cur s)) p) = p_ring (k_procs s p)"
  by (simp add: sched_steal_def steal_def Let_def case_prod_beta upd_proc_def set_need_resched_def set_current_for_hart_def)

lemma ring_save [simp]: "p_ring (k_procs (sched_save h cur tf s) p) = p_ring (k_procs s p)"
  by (simp add: sched_save_def Let_def upd_proc_def)

lemma ring_yield: "same_rings s (snd (sched_yield h tf s))"
  by (simp add: same_rings_def sched_yield_def Let_def case_prod_beta)

lemma ring_close: "same_rings s (snd (vfs_close h token s))"
  by (auto simp: vfs_close_def fd_clear_def upd_fd_def upd_tab_def same_rings_def upd_proc_def split: sum.split)

lemma ring_close_all: "same_rings s (close_all h p s)"
proof -
  let ?g = "\<lambda>i s. let fd = p_fds (k_procs s p) ! i in
      if fd_used fd then snd (vfs_close h (fd_token i (fd_epoch fd)) s) else s"
  have g: "same_rings s (?g i s)" for i s using ring_close by (simp add: Let_def)
  have "same_rings s (fold ?g is s)" for "is"
  proof (induction "is" arbitrary: s)
    case (Cons i "is")
    show ?case using same_rings_trans [OF g Cons.IH] by simp
  qed simp
  then show ?thesis by (simp add: close_all_def)
qed

lemma ring_reparent:
  assumes ret: "reparent pid cur s = Some s'"
  shows "same_rings s s'"
proof (rule reparent.raw_induct [where P = "\<lambda>pid cur s s'. same_rings s s'", OF _ ret])
  fix f :: "u32 \<Rightarrow> ptr \<Rightarrow> kst \<Rightarrow> kst option" and pid cur s s'
  assume IH: "\<And>pid cur s s'. f pid cur s = Some s' \<Longrightarrow> same_rings s s'"
  define t where "t = (if p_parent_pid (k_procs s cur) = pid \<and> p_state (k_procs s cur) \<noteq> PFree \<and> p_state (k_procs s cur) \<noteq> PExited
    then upd_proc cur (\<lambda>x. x\<lparr>p_parent_pid := 1\<rparr>) s else s)"
  assume "(if cur = 0 then Some s
      else
        let x = k_procs s cur;
            s = (if p_parent_pid x = pid \<and> p_state x \<noteq> PFree \<and> p_state x \<noteq> PExited
                 then upd_proc cur (\<lambda>x. x\<lparr>p_parent_pid := 1\<rparr>) s else s)
        in f pid (p_all_next (k_procs s cur)) s) = Some s'"
  then have "(if cur = 0 then Some s else f pid (p_all_next (k_procs t cur)) t) = Some s'" unfolding t_def Let_def .
  then have "s' = s \<or> f pid (p_all_next (k_procs t cur)) t = Some s'" by (simp split: if_splits)
  moreover have "same_rings s t" by (simp add: t_def ring_upd)
  ultimately show "same_rings s s'" using IH [of pid "p_all_next (k_procs t cur)" t s'] by (auto intro: same_rings_trans [of s t s'])
qed

lemma ring_wake_all:
  assumes ret: "wait_wake_all cur s = Some s'"
  shows "same_rings s s'"
proof (rule wait_wake_all.raw_induct [where P = "\<lambda>cur s s'. same_rings s s'", OF _ ret])
  fix f :: "ptr \<Rightarrow> kst \<Rightarrow> kst option" and cur s s'
  assume IH: "\<And>cur s s'. f cur s = Some s' \<Longrightarrow> same_rings s s'"
  let ?t = "upd_proc cur (\<lambda>x. x\<lparr>p_state := PReady, p_wait_next := 0\<rparr>) s"
  assume "(if cur = 0 then Some s else f (p_wait_next (k_procs s cur)) ?t) = Some s'"
  then have "s' = s \<or> f (p_wait_next (k_procs s cur)) ?t = Some s'" by (simp split: if_splits)
  moreover have "same_rings s ?t" by (simp add: ring_upd)
  ultimately show "same_rings s s'" using IH [of "p_wait_next (k_procs s cur)" ?t s'] by (auto intro: same_rings_trans [of s ?t s'])
qed

lemma ring_wake_parent: "wake_parent h parent s = Some s' \<Longrightarrow> same_rings s s'"
  by (auto simp: wake_parent_def same_rings_def upd_proc_def split: if_splits option.splits)

lemma ring_exit:
  assumes "proc_exit h pid code s = Some s'"
  shows "same_rings s s'"
proof (cases "by_pid pid s")
  case (Some p)
  define t where "t = close_all h p s"
  define u where "u = upd_proc p (\<lambda>x. x\<lparr>p_exit_code := code, p_state := PExited\<rparr>) (t\<lparr>k_mm := destroy_root (p_root_pa (k_procs t p)) (k_mm t)\<rparr>)"
  have 1: "same_rings s u" using ring_close_all [of s h p] by (simp add: same_rings_def u_def t_def upd_proc_def)
  show ?thesis
  proof (cases "p = 0")
    case False
    then obtain v where v: "wake_parent h (p_parent_pid (k_procs u p)) u = Some v" "reparent pid (k_all v) v = Some s'"
      using assms Some by (auto simp: proc_exit_def Let_def t_def u_def split: option.splits)
    show ?thesis using same_rings_trans [OF same_rings_trans [OF 1 ring_wake_parent [OF v(1)]] ring_reparent [OF v(2)]] .
  qed (use assms Some in \<open>simp add: proc_exit_def\<close>)
qed (use assms in \<open>simp add: proc_exit_def\<close>)

lemma ring_free_proc: "free_proc p s = Some s' \<Longrightarrow> same_rings s s'"
  by (auto simp: free_proc_def same_rings_def upd_proc_def split: if_splits option.splits)

lemma ring_wait:
  assumes "wait h tf s = Some (r, s')"
  shows "same_rings s s'"
proof -
  let ?b = "\<lambda>s. if current_for_hart h s \<noteq> 0 then upd_proc (current_for_hart h s) (\<lambda>x. x\<lparr>p_state := PWaiting\<rparr>) s else s"
  have "same_rings s (?b s)" by (simp add: ring_upd)
  then have "same_rings s (snd (sched_yield h tf (?b s)))" using ring_yield same_rings_trans by blast
  moreover have "s' = s \<or> free_proc p s = Some s' \<or> s' = snd (sched_yield h tf (?b s))"
    if "chain_find (all_next_of s) (\<lambda>p. p_parent_pid (k_procs s p) = current_pid h s \<and> p_state (k_procs s p) = PExited) (k_all s) = Some p" for p
    using assms that by (auto simp: wait_def Let_def case_prod_beta split: option.splits if_splits)
  ultimately show ?thesis
    using assms ring_free_proc by (auto simp: wait_def Let_def split: option.splits)
qed

lemma ring_signal_send: "signal_send h pid sig s = Some (r, s') \<Longrightarrow> same_rings s s'"
  by (auto simp: signal_send_def Let_def same_rings_def upd_proc_def split: if_splits option.splits)

lemma ring_sigaction: "same_rings s (snd (sigaction h signum act oldact s))"
  by (simp add: sigaction_def Let_def same_rings_def upd_proc_def store64_def)

lemma ring_sigprocmask: "same_rings s (snd (sigprocmask h how st old s))"
  by (simp add: sigprocmask_def Let_def same_rings_def upd_proc_def store64_def)

lemma ring_sigreturn: "same_rings s (snd (sigreturn h tf s))"
  by (simp add: sigreturn_def Let_def same_rings_def upd_proc_def)

lemma ring_resched [simp]: "same_rings s (set_need_resched h v t) = same_rings s t"
  by (simp add: same_rings_def set_need_resched_def)

lemma ring_wait_enqueue: "same_rings k (snd (wait_enqueue h w k))"
  by (simp add: wait_enqueue_def Let_def ring_upd)

lemma ring_block: "same_rings k (snd (block_on h tf (snd (wait_enqueue h w k))))"
proof -
  have "same_rings k (set_need_resched h True (snd (wait_enqueue h w k)))" using ring_wait_enqueue by simp
  then show ?thesis unfolding block_on_def by (rule same_rings_trans [OF _ ring_yield])
qed

lemma ring_send: "send h cid buf len tf s = Some (r, s') \<Longrightarrow> same_rings (ip_k s) (ip_k s')"
  using ring_block ring_wake_all
  by (auto simp: send_def Let_def case_prod_beta upd_chan_def split: if_splits option.splits)

lemma ring_recv: "recv h cid len tf s = Some (r, s') \<Longrightarrow> same_rings (ip_k s) (ip_k s')"
  using ring_block ring_wake_all
  by (auto simp: recv_def Let_def case_prod_beta upd_chan_def split: if_splits option.splits)

lemma chan_k [simp]:
  "ip_k (snd (chan_create q s)) = ip_k s" "ip_k (snd (create_named n q s)) = ip_k s"
  "ip_k (snd (open_by_name n q s)) = ip_k s" "ip_k (snd (connect c q s)) = ip_k s" "ip_k (snd (chan_close c s)) = ip_k s"
  by (auto simp: chan_create_def create_named_def open_by_name_def connect_def chan_close_def upd_chan_def Let_def
      split: option.split sum.split prod.split)

lemmas handler_rings =
  ring_exit ring_wait ring_signal_send ring_send ring_recv

text \<open>Only \<open>sys_dropring\<close> changes a ring: that of the caller, and upwards.\<close>

definition ring_step :: "nat \<Rightarrow> kst \<Rightarrow> kst \<Rightarrow> bool" where
  "ring_step h s s' \<longleftrightarrow> (\<forall>p. p_ring (k_procs s p) \<le> p_ring (k_procs s' p)
     \<and> (p \<noteq> current h s \<longrightarrow> p_ring (k_procs s' p) = p_ring (k_procs s p)))"

lemma same_rings_step [simp]: "same_rings s s' \<Longrightarrow> ring_step h s s'"
  by (simp add: same_rings_def ring_step_def)

lemma dropring_step: "ring_step h s (snd (sys_dropring h target s))"
  by (auto simp: sys_dropring_def ring_step_def Let_def upd_proc_def)

lemma sys_rings:
  "sys_exit h code k = Some (v, k') \<Longrightarrow> same_rings k k'"
  "same_rings k (snd (sys_yield h k))"
  "sys_wait h tf status k = Some (w, k') \<Longrightarrow> same_rings k k'"
  "sys_kill h pid sig k = Some (v, k') \<Longrightarrow> same_rings k k'"
  "same_rings k (snd (sys_sigmask h how sg k))"
  "sys_sched_setaffinity h pid2 cpu k = Some (v, k') \<Longrightarrow> same_rings k k'"
  "sys_chan_send umem h tf c buf n s = Some (x, s') \<Longrightarrow> same_rings (ip_k s) (ip_k s')"
  "sys_chan_recv h tf c buf n s = Some (y, s') \<Longrightarrow> same_rings (ip_k s) (ip_k s')"
  using handler_rings
  by (auto simp: sys_exit_def sys_yield_def sys_wait_def sys_kill_def sys_sigmask_def sys_sched_setaffinity_def
      sys_chan_send_def sys_chan_recv_def Let_def ring_upd split: if_splits option.splits)

lemma sys_chan_k [simp]:
  "ip_k (snd (sys_chan_create h s)) = ip_k s" "ip_k (snd (sys_chan_create_named umem h a s)) = ip_k s"
  "ip_k (snd (sys_chan_open umem h a s)) = ip_k s" "ip_k (snd (sys_chan_connect h c s)) = ip_k s"
  "ip_k (snd (sys_chan_close c s)) = ip_k s"
  by (auto simp: sys_chan_create_def sys_chan_create_named_def sys_chan_open_def sys_chan_connect_def sys_chan_close_def
      split: option.split)

definition outcomes :: "(int option \<Rightarrow> trap_frame \<Rightarrow> (u64 \<times> bytes) option \<Rightarrow> ipc \<Rightarrow> bool) \<Rightarrow> sys_out option \<Rightarrow> bool" where
  "outcomes P out \<longleftrightarrow> (\<forall>r tf' w s'. out = Some (Done r tf' w s') \<longrightarrow> P r tf' w s')"

lemma outcomes_if: "outcomes P x \<Longrightarrow> outcomes P y \<Longrightarrow> outcomes P (if c then x else y)" by simp

lemma outcomesD: "outcomes P out \<Longrightarrow> out = Some (Done r tf' w s') \<Longrightarrow> P r tf' w s'" by (simp add: outcomes_def)

lemma handle_rings:
  assumes "handle umem h tf s = Some (Done r tf' w s')"
  shows "ring_step h (ip_k s) (ip_k s')"
proof -
  have "outcomes (\<lambda>_ _ _ s'. ring_step h (ip_k s) (ip_k s')) (handle umem h tf s)"
    unfolding handle_def Let_def
    by (intro outcomes_if) (auto simp: outcomes_def done_k_def done_i_def case_prod_beta dropring_step ring_sigaction ring_sigprocmask ring_sigreturn
        sys_rings(2,5) intro!: same_rings_step intro: sys_rings(1,3,4,6,7,8))
  then show ?thesis using assms by (rule outcomesD)
qed

section \<open>User memory\<close>

lemma gets_length: "length (fst (gets get n c)) = n"
  by (induction n arbitrary: c) (simp_all add: case_prod_beta)

lemma recv_length:
  assumes "recv h cid len tf s = Some (IpcRet (Inr bs), s')"
  shows "length bs \<le> unat len"
proof -
  let ?ch = "ip_chans s ! unat cid" let ?n = "unat (min len (ch_tail ?ch - ch_head ?ch))"
  have "bs = [] \<or> bs = fst (gets get_byte ?n ?ch)"
    using assms by (auto simp: recv_def Let_def case_prod_beta split: if_splits option.splits)
  moreover have "?n \<le> unat len" by (simp add: word_le_nat_alt [symmetric])
  ultimately show ?thesis using gets_length [of get_byte ?n ?ch] by auto
qed

lemma user_ptr_okD: "user_ptr_ok p n \<Longrightarrow> USER_BASE \<le> p \<and> unat p + unat n \<le> unat USER_TOP"
  by (auto simp: user_ptr_ok_def word_le_nat_alt unat_word_ariths)

lemma stores:
  "wait_store a r = Some (b, bs) \<longleftrightarrow> b = a \<and> (\<exists>v code. r = Some (v, Some code) \<and> bs = to_le 4 code)"
  "recv_store a out = Some (b, bs) \<longleftrightarrow> b = a \<and> out = IpcRet (Inr bs)"
  by (auto simp: wait_store_def recv_store_def split: option.splits ipc_out.splits sum.splits)

lemma sys_wait_store:
  assumes "sys_wait h tf a k = Some (Some (v, Some code), k')"
  shows "user_ptr_ok a 4"
proof -
  obtain out t where w: "wait h tf k = Some (out, t)" using assms by (auto simp: sys_wait_def Let_def)
  show ?thesis
  proof (cases out)
    case (WaitRet x)
    then show ?thesis using assms w by (cases x) (auto simp: sys_wait_def Let_def split: if_splits)
  qed (use assms w in \<open>simp add: sys_wait_def Let_def\<close>)
qed

lemma sys_chan_recv_store:
  assumes "sys_chan_recv h tf c a n s = Some ((IpcRet (Inr bs), r), s')"
  shows "user_ptr_ok a n \<and> length bs \<le> unat n"
proof -
  have u: "user_ptr_ok a n" and "recv h c (ucast n) (Some tf) s = Some (IpcRet (Inr bs), s')"
    using assms by (auto simp: sys_chan_recv_def split: if_splits)
  then have "length bs \<le> unat (ucast n :: u32)" by (intro recv_length)
  also have "\<dots> \<le> unat n" by (simp add: unsigned_ucast_eq)
  finally show ?thesis using u by simp
qed

lemma handle_stores:
  assumes "handle umem h tf s = Some (Done r tf' (Some (a, bs)) s')"
  shows "\<exists>n. user_ptr_ok a n \<and> length bs \<le> unat n"
proof -
  let ?P = "\<lambda>(_ :: int option) (_ :: trap_frame) w (_ :: ipc). \<forall>a bs. w = Some (a, bs) \<longrightarrow> (\<exists>n. user_ptr_ok a n \<and> length bs \<le> unat n)"
  have w: "outcomes ?P (map_option (\<lambda>(r, k). Done (map_option fst r) tf (wait_store x r) (s\<lparr>ip_k := k\<rparr>)) (sys_wait h tf x k0))" for x k0
    by (auto simp: outcomes_def stores to_le_def intro!: exI [of _ 4] dest: sys_wait_store)
  have c: "outcomes ?P (map_option (\<lambda>((out, r), s). Done r tf (recv_store x out) s) (sys_chan_recv h tf c x n s))" for x c n
    by (auto simp: outcomes_def stores intro!: exI [of _ n] dest: sys_chan_recv_store)
  have "outcomes ?P (handle umem h tf s)"
    unfolding handle_def Let_def
    by (intro outcomes_if w c; auto simp: outcomes_def done_k_def done_i_def case_prod_beta)
  then show ?thesis using assms by (auto dest: outcomesD)
qed

lemma root_not_user: "list_all (\<lambda>nr. nr \<notin> set user_calls) root_calls"
  by (simp add: root_calls_def user_calls_def sys_nr_defs)

lemma handle_denied:
  "\<not> syscall_allowed (tf_a7 tf) (current_ring h (ip_k s)) \<Longrightarrow> handle umem h tf s = Some (Done (Some (as_i64 EPerm)) tf None s)"
  by (simp add: handle_def Let_def)

lemma root_call_denied:
  "nr \<in> set root_calls \<Longrightarrow> PROC_RING_ROOT < ring \<Longrightarrow> \<not> syscall_allowed nr ring"
  using root_not_user by (auto simp: syscall_allowed_def list_all_iff)

text \<open>C40: Privileges and user memory. A system call handled by \<open>handle\<close> (every call whose handler is in \<open>proc_sys\<close>, \<open>ring_sys\<close>,
  \<open>ipc_sys\<close> or \<open>signals\<close>, \<open>spawn\<close> apart) never moves a process to a more privileged ring and changes no ring but the caller's; a root-only
  call made from a ring above 1 returns \<open>Perm\<close>, stores nothing and leaves the whole state as it was; and the bytes that \<open>wait\<close> and \<open>chan_recv\<close>
  store through the caller's pointer lie inside the user address range, with no wrap-around of the address. (\<open>sigaction\<close> and
  \<open>sigprocmask\<close> store through \<open>translate\<close> instead, into the machine memory of the state.)\<close>

theorem syscall_privileges:
  assumes "handle umem h tf s = Some (Done r tf' w s')"
  shows "(\<forall>p. p_ring (k_procs (ip_k s) p) \<le> p_ring (k_procs (ip_k s') p)
        \<and> (p \<noteq> current h (ip_k s) \<longrightarrow> p_ring (k_procs (ip_k s') p) = p_ring (k_procs (ip_k s) p)))
    \<and> (tf_a7 tf \<in> set root_calls \<and> PROC_RING_ROOT < current_ring h (ip_k s) \<longrightarrow>
        r = Some (as_i64 EPerm) \<and> tf' = tf \<and> w = None \<and> s' = s)
    \<and> (\<forall>a bs. w = Some (a, bs) \<longrightarrow> USER_BASE \<le> a \<and> unat a + length bs \<le> unat USER_TOP)"
proof (intro conjI allI impI)
  fix a bs
  assume "w = Some (a, bs)"
  then obtain n where "user_ptr_ok a n" "length bs \<le> unat n" using handle_stores assms by blast
  then show "USER_BASE \<le> a" "unat a + length bs \<le> unat USER_TOP" using user_ptr_okD [of a n] by auto
next
  assume a: "tf_a7 tf \<in> set root_calls \<and> PROC_RING_ROOT < current_ring h (ip_k s)"
  then have "handle umem h tf s = Some (Done (Some (as_i64 EPerm)) tf None s)" by (intro handle_denied root_call_denied) simp_all
  then show "r = Some (as_i64 EPerm)" "tf' = tf" "w = None" "s' = s" using assms by simp_all
qed (use handle_rings [OF assms] in \<open>simp_all add: ring_step_def\<close>)

text \<open>A ring 2 process asks to kill another one.\<close>

definition ipc_user :: ipc where
  "ipc_user = \<lparr>ip_k = upd_proc 0x1000 (\<lambda>x. x\<lparr>p_ring := 2\<rparr>) (kst_pair PReady PRunning 0x1000), ip_chans = channels0\<rparr>"

theorem syscall_privileges_witness:
  "handle (\<lambda>_. 0) 0 (zero_frame\<lparr>tf_a7 := 22, tf_a0 := 1, tf_a1 := 9\<rparr>) ipc_user =
     Some (Done (Some (-5)) (zero_frame\<lparr>tf_a7 := 22, tf_a0 := 1, tf_a1 := 9\<rparr>) None ipc_user)"
proof -
  let ?tf = "zero_frame\<lparr>tf_a7 := 22, tf_a0 := 1, tf_a1 := 9\<rparr>"
  have r: "current_ring 0 (ip_k ipc_user) = 2" by (simp add: ipc_user_def current_ring_def upd_proc_def kst_pair_def)
  have n: "tf_a7 ?tf \<in> set root_calls" by (simp add: root_calls_def SYS_kill_def)
  have l: "PROC_RING_ROOT < current_ring 0 (ip_k ipc_user)" using r by (simp add: PROC_RING_ROOT_def word_less_nat_alt)
  note d = handle_denied [OF root_call_denied [OF n l], of "\<lambda>_. 0"]
  show ?thesis
    using conjunct1 [OF conjunct2 [OF syscall_privileges [OF d]]] d n l by simp
qed

section \<open>Signal handlers\<close>






section \<open>A way back up\<close>

text \<open>\<open>sys_dropring\<close> accepts any ring number and \<open>sys_exec\<close> compares the caller's ring with 2 only: a ring 2 process that drops to ring 3 may
  execute a ring 1 image, which it could not before, and then runs in ring 1.\<close>

lemma dropring_exec_escalates:
  assumes "current h s = p" "p \<noteq> 0" "p_ring (k_procs s p) = PROC_RING_USER" "ld_ring img = 1"
  shows "fst (exec_install h img argc argv_sp tf s) = as_i64 EPerm
    \<and> (let s1 = snd (sys_dropring h 3 s); s2 = snd (snd (exec_install h img argc argv_sp tf s1)) in
       p_ring (k_procs s2 p) = PROC_RING_ROOT)"
  using assms by (simp add: exec_install_def current_ring_def current_def sys_dropring_def Let_def upd_proc_def
      PROC_RING_USER_def PROC_RING_ROOT_def)

text \<open>\<open>sigprocmask\<close> and \<open>sigaction\<close> are the calls here whose output pointer is not compared with the user range: any address the caller's
  page table translates is written, whether the page is a user page or not.\<close>

lemma sigprocmask_ignores_user_range:
  assumes "p = current h s" "oldset \<noteq> 0" "\<not> user_ptr_ok oldset 8"
    and "pa = translate (p_root_pa (k_procs s p)) oldset (k_mm s)" "pa \<noteq> 0"
  shows "sigprocmask h how 0 oldset s = (Inr (), store64 pa (ucast (p_signal_mask (k_procs s p))) s)"
  using assms by (simp add: sigprocmask_def Let_def)

end
