(* ===== verification/Spec2Isabelle.thy ===== *)
theory Spec2Isabelle
  imports Onyfs_Names Vmm_Unmap Onx_Format Fmt Mem_String Rle Syscall
begin

text \<open>
  A verification library for OnyxKernel, a RISC-V kernel in Rust with its own file system, executable format and
  process model. The program has a shared crate (\<open>src/core\<close>: formats, printing, string routines), the kernel
  (\<open>src/kernel\<close>: memory, processes, IPC, file systems, system calls, drivers), user programs (\<open>src/init\<close>) and host tools
  (\<open>src/tools\<close>). The library models the parts of the first two that are determined by their own sources.

  \<^bold>\<open>How the code is modelled.\<close> A structure is a record, an enumeration a datatype, an integer of \<open>n\<close> bits a word of that
  width with wrap-around, as in a release build. A group of globals is one record, threaded through the functions:
  \<open>fs_state\<close> (the OnyxFS driver and its disk), \<open>pmm\<close> (the page bitmap and physical memory), \<open>kst\<close> (processes, run queues,
  per-hart variables, over a \<open>pmm\<close>) and \<open>ipc\<close> (the channels, over a \<open>kst\<close>). \<open>KResult\<close> is a sum with the error on the left;
  the \<open>?\<close> operator is \<open>kbind\<close> of the state-and-error monad in \<open>Prelude\<close>. An early return with a half-done state keeps that state.
  A \<open>*mut Proc\<close> is a 64-bit address with 0 as null. The number of the executing hart is an argument \<open>h\<close>.
  Interrupts and other harts act between the modelled calls: one call is one step, and the spin locks, which are taken
  and released inside a call, are state that a step leaves free.

  \<^bold>\<open>The theories.\<close>
  \<^item> \<open>Prelude\<close>: words, byte encodings, slices, the monad. \<open>Core_Types\<close>: \<open>core/src/errno.rs\<close>, \<open>types.rs\<close>, \<open>parser.rs\<close>.
  \<^item> \<open>Onx_Format\<close> (\<open>formats/header.rs\<close>, \<open>segment.rs\<close>), \<open>Onyfs_Format\<close> (\<open>formats/onyxfs_fmt\<close>, \<open>snapshot.rs\<close>): decoders and
    encoders; round trips, rejection of short or foreign input, bounds of what is accepted.
  \<^item> \<open>Fmt\<close> (\<open>core/src/fmt\<close>), \<open>Mem_String\<close> (\<open>core/src/string.rs\<close>), \<open>Rle\<close> (\<open>fs/onyxfs/compress.rs\<close>): printed numbers are read
    back, \<open>memmove\<close> is a simultaneous copy for every overlap, decompression undoes compression.
  \<^item> \<open>Block_Dev\<close>: the block layer over a disk whose requests may fail and tear. \<open>Journal\<close> (\<open>journal.rs\<close>): recovery implements
    the redo specification, a committed transaction survives it. \<open>Onyfs_Alloc\<close>, \<open>Onyfs_Inode\<close>, \<open>Onyfs_Dir\<close>,
    \<open>Onyfs_Tree\<close>, \<open>Onyfs_File\<close>, \<open>Onyfs_Names\<close>: bitmaps, inodes, directories as finite maps, path lookup, reading and
    writing files, and the operations on names, each with what it changes and that nothing else changes.
  \<^item> \<open>Pmm\<close> (\<open>mm/pmm\<close>): no page is handed out twice. \<open>Vmm\<close>, \<open>Vmm_Space\<close>, \<open>Vmm_Unmap\<close> (\<open>mm/vmm\<close>): page tables abstracted to
    the address space \<open>view\<close>; mapping, unmapping, splitting of large pages and teardown change exactly the range they name.
    The addresses, sizes and flags are those of page-aligned requests inside Sv39.
  \<^item> \<open>Process\<close>, \<open>Run_Queue\<close>, \<open>Sched\<close> (\<open>proc/process\<close>, \<open>proc/scheduler\<close>): the pointer-linked run queues refine
    first-in first-out lists, \<open>sched_yield\<close> loses and duplicates no runnable process, and scheduling is round-robin.
  \<^item> \<open>Vfs_Fd\<close> (\<open>fs/vfs\<close>): descriptors and the epochs that make stale tokens harmless. \<open>Lifecycle\<close> (\<open>proc/lifecycle.rs\<close>,
    \<open>spawn.rs\<close>): exit and reaping. \<open>Signals\<close> (\<open>proc/signals.rs\<close>): delivery and return. \<open>Ipc\<close> (\<open>ipc/channel\<close>): a channel is a
    queue of bytes open only to the processes that created, opened or connected to it, and its operations wake those that wait. \<open>Syscall\<close>
    (\<open>syscall\<close>, the system call arm of \<open>srv/trap.rs\<close>): access check, pointer check, dispatch, and a signal handler from delivery to \<open>sigreturn\<close>.

  \<^bold>\<open>Interfaces.\<close> Five locales state what a component promises and are interpreted on its own definitions: \<open>block_store\<close> (blocks are
  independent cells), \<open>name_map\<close> (a directory block is a finite map), \<open>page_allocator\<close>, \<open>fifo_queues\<close> and \<open>byte_fifo\<close>.

  \<^bold>\<open>Invariants.\<close> \<open>fs_ok\<close> and \<open>fs_v2\<close> (a fault-free device and a version 2 volume in good order), \<open>pmm_ok\<close>, \<open>pt_ok\<close> with
  \<open>frames_apart\<close> (page tables are trees of distinct pages), \<open>rq_ok\<close> and \<open>sched_ok\<close>, \<open>all_ok\<close> (the list of all processes is
  finite and free of duplicates), \<open>fds_ok\<close> and \<open>ring_ok\<close>. The theorems about the fault-free volume say so in their hypotheses;
  the behaviour of a block write that fails is a theorem of \<open>Block_Dev\<close>.

  \<^bold>\<open>Loops.\<close> Most loops are bounded by the code and are structural or have a termination proof. Those that may run forever are partial
  functions with value \<open>None\<close>, and the theorems show that they return: traversals of process lists on well-formed lists,
  \<open>unmap\<close> and \<open>map_anon\<close> for sizes that are multiples of a page, string scans on terminated strings. No fuel is used.

  \<^bold>\<open>Behaviour that differs from the intent.\<close> Some lemmas record where the code does something it does not mean to: the second recovery
  after a short transaction, an unfinished transaction that is replayed, a full journal, inode numbers beyond the inode table, reads beyond the first block, renaming a path to itself, a process
  pinned to another hart, a descriptor lost by a failed \<open>open\<close>, STOP blocked through \<open>sigaction\<close>, \<open>sigreturn\<close> losing \<open>a0\<close> and an
  instruction, the pages of a large user leaf lost at teardown, IPC waiters that are
  woken but not queued, and a way from ring 2 to ring 1 through \<open>dropring\<close> and \<open>exec\<close>.

  \<^bold>\<open>Arguments that stand for other code.\<close> The faults and torn sectors of the device, the outcome of \<open>kmalloc\<close>, the linker symbol for
  the end of the kernel, the file systems behind the descriptor layer, and user memory seen by the system calls.

  \<^bold>\<open>Not modelled.\<close> Device drivers, boot, traps other than system calls and the console, which are volatile register accesses and assembly; the heap and slab
  free lists; snapshots beyond their record format and coder; FAT, procfs and ipcfs; the network stack; copying an image
  into memory; the file-related system call handlers, whose work is done by modelled operations; the user
  programs and the host tools.
\<close>

end
